(* ===== verification/Prelude.thy ===== *)
theory Prelude
  imports Main "HOL-Library.Char_ord" "HOL-Library.List_Lexorder" "HOL-Library.Word"
begin

text \<open>
  The vocabulary the components share.

  \<^item> How a C++ operation can fail (\<open>failure\<close>), plain results (\<open>'a outcome\<close>) and operations
    that also change a state (\<open>('s, 'a) eff\<close>). An exception leaves the state as the code had
    made it when the exception was thrown, so the state is returned beside the failure.
  \<^item> The character classes and case maps of the C locale, and the decimal output of integers.
  \<^item> \<open>std::map\<close> and \<open>std::set\<close>: association lists kept in key order.
  \<^item> Reachability of a step relation, and the rule for invariants (the locale
    \<open>invariant_system\<close>, interpreted on every step relation of the development).
\<close>

named_theorems outcome_simps "rewrite rules for outcomes and effects"
named_theorems smap_simps "rewrite rules for ordered association lists"

section \<open>Failures and effects\<close>

text \<open>
  \<open>Assertion\<close> is a failed \<open>MOCKER_ASSERT\<close> (the process aborts), \<open>Null_pointer\<close> the use of a
  null pointer or an empty \<open>std::function\<close>, \<open>Throw\<close> a C++ exception with its \<open>what()\<close>.
\<close>

datatype failure = Assertion string | Null_pointer string | Throw string

fun is_exception :: "failure \<Rightarrow> bool" where
  "is_exception (Throw _) = True"
| "is_exception _ = False"

fun what :: "failure \<Rightarrow> string" where
  "what (Assertion s) = s"
| "what (Null_pointer s) = s"
| "what (Throw s) = s"

type_synonym 'a outcome = "failure + 'a"

definition obind :: "'a outcome \<Rightarrow> ('a \<Rightarrow> 'b outcome) \<Rightarrow> 'b outcome" where
  "obind m f = (case m of Inl e \<Rightarrow> Inl e | Inr x \<Rightarrow> f x)"

lemma obind_simps [simp, outcome_simps]:
  "obind (Inl e) f = Inl e" "obind (Inr x) f = f x"
  by (simp_all add: obind_def)

lemma obind_Inr_iff [outcome_simps]:
  "obind m f = Inr y \<longleftrightarrow> (\<exists>x. m = Inr x \<and> f x = Inr y)"
  by (cases m) auto

lemma obind_Inl_iff [outcome_simps]:
  "obind m f = Inl e \<longleftrightarrow> m = Inl e \<or> (\<exists>x. m = Inr x \<and> f x = Inl e)"
  by (cases m) auto

text \<open>The first failure of a list of computations, or all their results.\<close>

fun omap :: "('a \<Rightarrow> 'b outcome) \<Rightarrow> 'a list \<Rightarrow> 'b list outcome" where
  "omap f [] = Inr []"
| "omap f (x # xs) = obind (f x) (\<lambda>y. obind (omap f xs) (\<lambda>ys. Inr (y # ys)))"

lemma omap_all_Inr: "(\<And>x. x \<in> set xs \<Longrightarrow> f x = Inr (g x)) \<Longrightarrow> omap f xs = Inr (map g xs)"
  by (induction xs) auto

lemma omap_Inr_length: "omap f xs = Inr ys \<Longrightarrow> length ys = length xs"
  by (induction xs arbitrary: ys) (auto simp: obind_Inr_iff)

lemma omap_Inr_nth: "omap f xs = Inr ys \<Longrightarrow> i < length xs \<Longrightarrow> f (xs ! i) = Inr (ys ! i)"
proof (induction xs arbitrary: ys i)
  case Nil
  then show ?case by simp
next
  case (Cons x xs)
  then show ?case by (cases i) (auto simp: obind_Inr_iff)
qed

lemma omap_map: "omap f (map g xs) = omap (\<lambda>x. f (g x)) xs"
  by (induction xs) simp_all

type_synonym ('s, 'a) eff = "'s \<Rightarrow> 'a outcome \<times> 's"

definition ebind :: "('s, 'a) eff \<Rightarrow> ('a \<Rightarrow> ('s, 'b) eff) \<Rightarrow> ('s, 'b) eff" where
  "ebind m f s = (case m s of (Inl e, s') \<Rightarrow> (Inl e, s') | (Inr x, s') \<Rightarrow> f x s')"

definition ereturn :: "'a \<Rightarrow> ('s, 'a) eff" where
  "ereturn x s = (Inr x, s)"

definition efail :: "failure \<Rightarrow> ('s, 'a) eff" where
  "efail e s = (Inl e, s)"

definition emodify :: "('s \<Rightarrow> 's) \<Rightarrow> ('s, unit) eff" where
  "emodify f s = (Inr (), f s)"

lemma eff_simps [simp, outcome_simps]:
  "ereturn x s = (Inr x, s)" "efail e s = (Inl e, s)" "emodify f s = (Inr (), f s)"
  by (simp_all add: ereturn_def efail_def emodify_def)

lemma ebind_Inr_iff [outcome_simps]:
  "ebind m f s = (Inr y, t) \<longleftrightarrow> (\<exists>x s'. m s = (Inr x, s') \<and> f x s' = (Inr y, t))"
  by (auto simp: ebind_def split: prod.splits sum.splits)

lemma ebind_eqI [outcome_simps]:
  "m s = (Inr x, s') \<Longrightarrow> ebind m f s = f x s'"
  "m s = (Inl e, s') \<Longrightarrow> ebind m f s = (Inl e, s')"
  by (simp_all add: ebind_def)

lemma ebind_base [simp, outcome_simps]:
  "ebind (ereturn x) f s = f x s"
  "ebind (efail e) f s = (Inl e, s)"
  "ebind (emodify g) f s = f () (g s)"
  by (simp_all add: ebind_def)

text \<open>A loop over a list whose body is an effect: it stops at the first failure.\<close>

fun efor :: "('a \<Rightarrow> ('s, unit) eff) \<Rightarrow> 'a list \<Rightarrow> ('s, unit) eff" where
  "efor f [] s = (Inr (), s)"
| "efor f (x # xs) s = (case f x s of (Inl e, s') \<Rightarrow> (Inl e, s') | (Inr _, s') \<Rightarrow> efor f xs s')"

lemma efor_append: "efor f (xs @ ys) s = ebind (efor f xs) (\<lambda>_. efor f ys) s"
  by (induction xs arbitrary: s) (auto simp: ebind_def split: prod.splits sum.splits)

lemma efor_pure: "(\<And>x s. x \<in> set xs \<Longrightarrow> f x s = (Inr (), g x s)) \<Longrightarrow>
    efor f xs s = (Inr (), fold g xs s)"
  by (induction xs arbitrary: s) simp_all

lemma efor_invariant:
  assumes "P s" and "\<And>x s r s'. x \<in> set xs \<Longrightarrow> P s \<Longrightarrow> f x s = (r, s') \<Longrightarrow> P s'"
    and "efor f xs s = (r, s')"
  shows "P s'"
  using assms
proof (induction xs arbitrary: s)
  case Nil
  then show ?case by simp
next
  case (Cons x xs)
  obtain r1 s1 where fx: "f x s = (r1, s1)" by (cases "f x s")
  with Cons.prems have "P s1" by auto
  with Cons fx show ?case
    by (cases r1) (auto, blast+)
qed

section \<open>Characters and numbers\<close>

definition isalpha :: "char \<Rightarrow> bool" where
  "isalpha c \<longleftrightarrow> (let n = (of_char c :: nat) in 65 \<le> n \<and> n \<le> 90 \<or> 97 \<le> n \<and> n \<le> 122)"

definition toupper :: "char \<Rightarrow> char" where
  "toupper c = (let n = (of_char c :: nat) in if 97 \<le> n \<and> n \<le> 122 then char_of (n - 32) else c)"

definition tolower :: "char \<Rightarrow> char" where
  "tolower c = (let n = (of_char c :: nat) in if 65 \<le> n \<and> n \<le> 90 then char_of (n + 32) else c)"

lemma toupper_idem [simp]: "toupper (toupper c) = toupper c"
  by (auto simp: toupper_def Let_def of_char_of)

lemma isalpha_not_special [simp]:
  "\<not> isalpha (CHR ''%'')" "\<not> isalpha (CHR ''{'')" "\<not> isalpha (CHR ''}'')"
  by (simp_all add: isalpha_def)

text \<open>\<open>std::ostream << n\<close>: the decimal digits of a number, with a sign for negative values.\<close>

fun show_nat :: "nat \<Rightarrow> string" where
  "show_nat n = (if n < 10 then [char_of (48 + n)] else show_nat (n div 10) @ [char_of (48 + n mod 10)])"

declare show_nat.simps [simp del]

definition show_int :: "int \<Rightarrow> string" where
  "show_int i = (if i < 0 then ''-'' @ show_nat (nat (- i)) else show_nat (nat i))"

text \<open>\<open>std::string::substr (pos, n)\<close> for a position inside the string.\<close>

definition substr :: "string \<Rightarrow> nat \<Rightarrow> nat \<Rightarrow> string" where
  "substr s pos n = take n (drop pos s)"

lemma drop_ConsD: "drop k xs = c # t \<Longrightarrow> k < length xs \<and> xs ! k = c \<and> drop (Suc k) xs = t"
proof -
  assume d: "drop k xs = c # t"
  then have k: "k < length xs" by (cases "k < length xs") auto
  with d Cons_nth_drop_Suc [OF k] show ?thesis by simp
qed

text \<open>\<open>s.find_first_not_of(cs) == npos\<close>: every character of \<open>s\<close> is one of \<open>cs\<close>.\<close>

definition only_chars :: "string \<Rightarrow> string \<Rightarrow> bool" where
  "only_chars cs s = list_all (\<lambda>c. c \<in> set cs) s"

lemma only_chars_append [simp]:
  "only_chars cs (s @ t) \<longleftrightarrow> only_chars cs s \<and> only_chars cs t"
  by (simp add: only_chars_def)

lemma only_chars_Nil [simp]: "only_chars cs []"
  by (simp add: only_chars_def)

section \<open>Ordered maps and sets\<close>

text \<open>
  \<open>std::map<K, V>\<close> as an association list in strictly increasing key order: lookup is
  \<open>map_of\<close>, \<open>smap_put\<close> is \<open>m[k] = v\<close>, \<open>smap_insert\<close> is \<open>m.insert({k, v})\<close> (which keeps the
  value already there), \<open>smap_erase\<close> is \<open>m.erase(k)\<close>. Iteration is the list.
\<close>

type_synonym ('k, 'v) smap = "('k \<times> 'v) list"

definition smap_ok :: "('k::linorder, 'v) smap \<Rightarrow> bool" where
  "smap_ok m \<longleftrightarrow> sorted_wrt (<) (map fst m)"

fun smap_put :: "'k::linorder \<Rightarrow> 'v \<Rightarrow> ('k, 'v) smap \<Rightarrow> ('k, 'v) smap" where
  "smap_put k v [] = [(k, v)]"
| "smap_put k v ((k', v') # m) =
     (if k < k' then (k, v) # (k', v') # m
      else if k = k' then (k, v) # m
      else (k', v') # smap_put k v m)"

definition smap_insert :: "'k::linorder \<Rightarrow> 'v \<Rightarrow> ('k, 'v) smap \<Rightarrow> ('k, 'v) smap" where
  "smap_insert k v m = (case map_of m k of None \<Rightarrow> smap_put k v m | Some _ \<Rightarrow> m)"

definition smap_erase :: "'k \<Rightarrow> ('k, 'v) smap \<Rightarrow> ('k, 'v) smap" where
  "smap_erase k m = filter (\<lambda>(k', _). k' \<noteq> k) m"

lemma map_of_smap_put [simp, smap_simps]: "map_of (smap_put k v m) = (map_of m)(k \<mapsto> v)"
  by (induction k v m rule: smap_put.induct) (auto simp: fun_eq_iff)

lemma set_smap_put_keys [simp, smap_simps]:
  "fst ` set (smap_put k v m) = insert k (fst ` set m)"
  by (induction k v m rule: smap_put.induct) auto

lemma smap_ok_Nil [simp, smap_simps]: "smap_ok []"
  by (simp add: smap_ok_def)

lemma smap_ok_Cons [smap_simps]:
  "smap_ok ((k, v) # m) \<longleftrightarrow> (\<forall>k' \<in> fst ` set m. k < k') \<and> smap_ok m"
  by (simp add: smap_ok_def)

lemma smap_ok_put [simp, smap_simps]: "smap_ok m \<Longrightarrow> smap_ok (smap_put k v m)"
  by (induction k v m rule: smap_put.induct) (auto simp: smap_ok_Cons)

lemma smap_ok_distinct [simp]: "smap_ok m \<Longrightarrow> distinct (map fst m)"
  by (simp add: smap_ok_def strict_sorted_iff)

lemma map_of_smap_erase [simp, smap_simps]: "map_of (smap_erase k m) = (map_of m)(k := None)"
  by (induction m) (auto simp: smap_erase_def fun_eq_iff)

lemma smap_ok_erase [simp, smap_simps]: "smap_ok m \<Longrightarrow> smap_ok (smap_erase k m)"
  by (induction m) (auto simp: smap_erase_def smap_ok_Cons)

lemma map_of_smap_insert [simp, smap_simps]:
  "map_of (smap_insert k v m) = (map_of m)(k \<mapsto> (case map_of m k of None \<Rightarrow> v | Some w \<Rightarrow> w))"
  by (auto simp: smap_insert_def split: option.splits)

lemma smap_ok_insert [simp, smap_simps]: "smap_ok m \<Longrightarrow> smap_ok (smap_insert k v m)"
  by (simp add: smap_insert_def split: option.split)

lemma smap_put_last [simp]:
  "(\<And>k'. k' \<in> fst ` set m \<Longrightarrow> k' < k) \<Longrightarrow> smap_put k v m = m @ [(k, v)]"
  by (induction k v m rule: smap_put.induct) (auto dest: less_asym)

text \<open>Two ordered maps with the same lookups are the same list.\<close>

lemma smap_ok_unique:
  assumes "smap_ok m" and "smap_ok n" and "map_of m = map_of n"
  shows "m = n"
proof -
  have keys: "map fst m = map fst n"
  proof (rule sorted_distinct_set_unique)
    show "set (map fst m) = set (map fst n)"
      using assms(3) by (metis dom_map_of_conv_image_fst list.set_map)
  qed (use assms in \<open>auto simp: smap_ok_def strict_sorted_iff\<close>)
  have rebuild: "l = map (\<lambda>k. (k, the (map_of l k))) (map fst l)"
    if "smap_ok l" for l :: "('a, 'b) smap"
    by (rule sym, unfold list.map_comp, rule map_idI)
      (use that in \<open>auto simp: map_of_is_SomeI\<close>)
  from rebuild [OF assms(1)] rebuild [OF assms(2)] keys assms(3) show ?thesis
    by metis
qed

text \<open>
  \<open>std::set<T>\<close> ordered by \<open>lt\<close> (the element type's \<open>operator<\<close>): an insertion keeps the
  element already there when neither is less than the other; \<open>==\<close> compares the sizes and then
  the elements in order with the element type's \<open>operator==\<close>.
\<close>

fun oset_insert :: "('a \<Rightarrow> 'a \<Rightarrow> bool) \<Rightarrow> 'a \<Rightarrow> 'a list \<Rightarrow> 'a list" where
  "oset_insert lt x [] = [x]"
| "oset_insert lt x (y # ys) =
     (if lt x y then x # y # ys else if lt y x then y # oset_insert lt x ys else y # ys)"

definition oset_find :: "('a \<Rightarrow> 'a \<Rightarrow> bool) \<Rightarrow> 'a \<Rightarrow> 'a list \<Rightarrow> 'a option" where
  "oset_find lt x xs = find (\<lambda>y. \<not> lt x y \<and> \<not> lt y x) xs"

definition oset_eq :: "('a \<Rightarrow> 'a \<Rightarrow> bool) \<Rightarrow> 'a list \<Rightarrow> 'a list \<Rightarrow> bool" where
  "oset_eq eq xs ys = list_all2 eq xs ys"

lemma oset_insert_last:
  "(\<And>y. y \<in> set ys \<Longrightarrow> lt y x \<and> \<not> lt x y) \<Longrightarrow> oset_insert lt x ys = ys @ [x]"
  by (induction lt x ys rule: oset_insert.induct) auto

lemma oset_insert_subset: "set (oset_insert lt x ys) \<subseteq> insert x (set ys)"
  by (induction lt x ys rule: oset_insert.induct) auto

lemma oset_find_None: "oset_find lt x xs = None \<longleftrightarrow> (\<forall>y \<in> set xs. lt x y \<or> lt y x)"
  by (auto simp: oset_find_def find_None_iff)

lemma oset_find_Some_mem: "oset_find lt x xs = Some y \<Longrightarrow> y \<in> set xs \<and> \<not> lt x y \<and> \<not> lt y x"
  by (auto simp: oset_find_def find_Some_iff)

section \<open>Step relations\<close>

inductive reach :: "('s \<Rightarrow> bool) \<Rightarrow> ('s \<Rightarrow> 's \<Rightarrow> bool) \<Rightarrow> 's \<Rightarrow> bool" for init step where
  reach_init: "init s \<Longrightarrow> reach init step s"
| reach_step: "reach init step s \<Longrightarrow> step s t \<Longrightarrow> reach init step t"

lemma reach_steps: "reach init step s \<Longrightarrow> step\<^sup>*\<^sup>* s t \<Longrightarrow> reach init step t"
  by (rotate_tac, induction rule: rtranclp_induct) (auto intro: reach_step)

text \<open>
  What a component with a step relation owes its clients: a predicate that holds at the start
  and that every step keeps. Then it holds in every reachable state and along every run.
\<close>

locale invariant_system =
  fixes init :: "'s \<Rightarrow> bool" and step :: "'s \<Rightarrow> 's \<Rightarrow> bool" and inv :: "'s \<Rightarrow> bool"
  assumes inv_init: "init s \<Longrightarrow> inv s"
    and inv_step: "inv s \<Longrightarrow> step s t \<Longrightarrow> inv t"
begin

lemma reach_inv: "reach init step s \<Longrightarrow> inv s"
  by (induction rule: reach.induct) (auto intro: inv_init inv_step)

lemma steps_inv: "step\<^sup>*\<^sup>* s t \<Longrightarrow> inv s \<Longrightarrow> inv t"
  by (induction rule: rtranclp_induct) (auto intro: inv_step)

end

section \<open>Registries\<close>

text \<open>
  Find or create, the contract of \<open>LogManager::getLogger\<close> and of \<open>Config::Lookup\<close>: \<open>look\<close> reads the
  registry, \<open>make\<close> finds the entry of a name or makes a new one at an address not in use; \<open>valid\<close>
  says which names can be asked for.
\<close>

locale find_or_create =
  fixes look :: "'w \<Rightarrow> string \<Rightarrow> nat option" and make :: "string \<Rightarrow> 'w \<Rightarrow> nat \<times> 'w" and ok :: "'w \<Rightarrow> bool"
    and used :: "'w \<Rightarrow> nat set" and valid :: "'w \<Rightarrow> string \<Rightarrow> bool"
  assumes make_found: "look w n = Some l \<Longrightarrow> valid w n \<Longrightarrow> fst (make n w) = l"
    and make_new: "ok w \<Longrightarrow> valid w n \<Longrightarrow> look w n = None \<Longrightarrow> make n w = (l, w') \<Longrightarrow> l \<notin> used w"
    and make_registers: "ok w \<Longrightarrow> valid w n \<Longrightarrow> make n w = (l, w') \<Longrightarrow> look w' = (look w)(n \<mapsto> l)"
    and make_ok: "ok w \<Longrightarrow> valid w n \<Longrightarrow> make n w = (l, w') \<Longrightarrow> ok w'"
    and make_valid: "ok w \<Longrightarrow> valid w n \<Longrightarrow> make n w = (l, w') \<Longrightarrow> valid w m \<Longrightarrow> valid w' m"
    and look_used: "ok w \<Longrightarrow> look w n = Some l \<Longrightarrow> l \<in> used w"
begin

lemma make_again: "ok w \<Longrightarrow> valid w n \<Longrightarrow> make n w = (l, w') \<Longrightarrow> fst (make n w') = l"
  by (rule make_found) (simp_all add: make_registers make_valid)

lemma make_stable:
  assumes "ok w" "valid w m" "look w m = Some k" "valid w n" "make n w = (l, w')"
  shows "fst (make m w') = k"
proof (rule make_found)
  have "m = n \<Longrightarrow> l = k" using make_found [of w n k] assms(3,4,5) by simp
  then show "look w' m = Some k" using make_registers [OF assms(1,4,5)] assms(3) by auto
  show "valid w' m" by (rule make_valid [OF assms(1,4,5,2)])
qed

lemma make_distinct:
  assumes "ok w" "valid w m" "make m w = (k, w1)" "n \<noteq> m" "look w n = None" "valid w n" "make n w1 = (l, w2)"
  shows "l \<noteq> k"
proof -
  have ok1: "ok w1" by (rule make_ok [OF assms(1,2,3)])
  have valid1: "valid w1 n" by (rule make_valid [OF assms(1,2,3,6)])
  have "look w1 n = None" "look w1 m = Some k" using make_registers [OF assms(1,2,3)] assms(4,5) by auto
  with make_new [OF ok1 valid1 _ assms(7)] look_used [OF ok1] show ?thesis by blast
qed

end

end
