(* ===== verification/Coroutine.thy ===== *)
theory Coroutine
  imports Prelude
begin

text \<open>
  \<open>mocker/coroutine.h\<close> and \<open>mocker/coroutine.cpp\<close>: the coroutine object with its state
  machine, the global counters, the thread-local pointers and the context switches, as one
  thread sees them. A coroutine is named by its address. Executions that can be suspended are
  stacks: the thread's own stack or the stack a coroutine allocated. A \<open>ucontext_t\<close> holds
  nothing, the start of an entry function on a stack, or the point where an execution of a stack
  was suspended; \<open>swapcontext\<close> stores the running execution in one context and continues the
  other.
\<close>

section \<open>State\<close>

text \<open>\<open>Coroutine::State\<close>; \<open>TERM\<close> is a keyword of the logic and is called \<open>TERMINATED\<close> here.\<close>

datatype cort_state = INIT | READY | EXEC | HOLD | TERMINATED | EXCEPT

type_synonym addr = nat

datatype stack = Native | Stack addr

datatype entry = MainFunc | CallerMainFunc

text \<open>
  \<open>Finished\<close> is the suspension inside \<open>MainFunc\<close> or \<open>CallerMainFunc\<close> behind the end of the task:
  continuing it runs into \<open>MOCKER_ASSERT2(false, "never reached")\<close>.
\<close>

datatype ucontext = Unset | Start entry addr | Resume stack | Finished addr

record 'task cort =
  c_id :: "64 word"
  c_stacksize :: "32 word"
  c_state :: cort_state
  c_stack :: bool
  c_cb :: "'task option"

text \<open>
  The thread's view: the objects that exist, what each object's \<open>m_ctx\<close> holds, the two global
  counters, \<open>t_coroutine\<close> and \<open>t_threadCoroutine\<close> of \<open>coroutine.cpp\<close>, the thread's scheduler
  coroutine (\<open>t_coroutine\<close> of \<open>schedule.cpp\<close>, read by \<open>Scheduler::GetMainCoroutine\<close>), the stack
  that is running and the entry function it is in.
\<close>

record 'task cmachine =
  corts :: "addr \<Rightarrow> 'task cort option"
  ctxs :: "addr \<Rightarrow> ucontext"
  s_coroutine_id :: "64 word"
  s_coroutine_count :: "64 word"
  t_coroutine :: "addr option"
  t_threadCoroutine :: "addr option"
  t_main :: "addr option"
  running :: stack
  entered :: "addr \<Rightarrow> entry option"

definition cget :: "'task cmachine \<Rightarrow> addr \<Rightarrow> 'task cort" where
  "cget m a = the (corts m a)"

definition cupd :: "addr \<Rightarrow> ('task cort \<Rightarrow> 'task cort) \<Rightarrow> 'task cmachine \<Rightarrow> 'task cmachine" where
  "cupd a f m = m\<lparr>corts := (corts m)(a := map_option f (corts m a))\<rparr>"

definition getState :: "'task cmachine \<Rightarrow> addr \<Rightarrow> cort_state" where
  "getState m a = c_state (cget m a)"

definition setState :: "addr \<Rightarrow> cort_state \<Rightarrow> 'task cmachine \<Rightarrow> 'task cmachine" where
  "setState a st = cupd a (\<lambda>c. c\<lparr>c_state := st\<rparr>)"

definition SetCurrent :: "addr option \<Rightarrow> 'task cmachine \<Rightarrow> 'task cmachine" where
  "SetCurrent p m = m\<lparr>t_coroutine := p\<rparr>"

section \<open>Construction and destruction\<close>

text \<open>The private constructor: the coroutine of the thread itself, at the new address \<open>a\<close>.\<close>

definition new_main :: "addr \<Rightarrow> 'task cmachine \<Rightarrow> 'task cmachine" where
  "new_main a m =
     SetCurrent (Some a)
       (m\<lparr>corts := (corts m)(a \<mapsto> \<lparr>c_id = 0, c_stacksize = 0, c_state = EXEC, c_stack = False, c_cb = None\<rparr>),
          ctxs := (ctxs m)(a := Resume (running m)),
          s_coroutine_count := s_coroutine_count m + 1\<rparr>)"

text \<open>
  The public constructor at the new address \<open>a\<close>; \<open>dflt\<close> is the value of the configuration
  variable \<open>coroutine.stack_size\<close>, and the stack allocation succeeds.
\<close>

definition new_cort :: "32 word \<Rightarrow> addr \<Rightarrow> 'task option \<Rightarrow> 32 word \<Rightarrow> bool \<Rightarrow> 'task cmachine \<Rightarrow> 'task cmachine"
  where
  "new_cort dflt a cb stacksize use_caller m =
     m\<lparr>corts := (corts m)(a \<mapsto>
           \<lparr>c_id = s_coroutine_id m + 1, c_stacksize = (if stacksize \<noteq> 0 then stacksize else dflt),
            c_state = INIT, c_stack = True, c_cb = cb\<rparr>),
       ctxs := (ctxs m)(a := Start (if use_caller then CallerMainFunc else MainFunc) a),
       s_coroutine_id := s_coroutine_id m + 1,
       s_coroutine_count := s_coroutine_count m + 1\<rparr>"

text \<open>The destructor. The counter is decremented before the assertions.\<close>

definition delete_cort :: "addr \<Rightarrow> ('task cmachine, unit) eff" where
  "delete_cort a m =
     (let c = cget m a; m1 = m\<lparr>s_coroutine_count := s_coroutine_count m - 1\<rparr>;
          gone = m1\<lparr>corts := (corts m1)(a := None), ctxs := (ctxs m1)(a := Unset)\<rparr>
      in if c_stack c then
           (if c_state c = TERMINATED \<or> c_state c = INIT \<or> c_state c = EXCEPT then (Inr (), gone)
            else (Inl (Assertion ''m_state''), m1))
         else if c_cb c \<noteq> None then (Inl (Assertion ''!m_cb''), m1)
         else if c_state c \<noteq> EXEC then (Inl (Assertion ''m_state == EXEC''), m1)
         else (Inr (), if t_coroutine m = Some a then SetCurrent None gone else gone))"

text \<open>\<open>reset(cb)\<close>: always installs \<open>MainFunc\<close>, whatever the constructor had installed.\<close>

definition reset_cort :: "addr \<Rightarrow> 'task option \<Rightarrow> ('task cmachine, unit) eff" where
  "reset_cort a cb m =
     (let c = cget m a in
      if \<not> c_stack c then (Inl (Assertion ''m_stack''), m)
      else if \<not> (c_state c = INIT \<or> c_state c = TERMINATED \<or> c_state c = EXCEPT) then
        (Inl (Assertion ''m_state''), m)
      else (Inr (), cupd a (\<lambda>c. c\<lparr>c_cb := cb, c_state := INIT\<rparr>)
                      (m\<lparr>ctxs := (ctxs m)(a := Start MainFunc a)\<rparr>)))"

section \<open>Context switches\<close>

text \<open>
  \<open>swapcontext(&from->m_ctx, &to->m_ctx)\<close>: \<open>save\<close> is what the running execution leaves in
  \<open>from\<close>. Continuing a finished execution fails its assertion.
\<close>

definition swapcontext :: "addr \<Rightarrow> ucontext \<Rightarrow> addr \<Rightarrow> ('task cmachine, unit) eff" where
  "swapcontext frm save to m =
     (let m1 = m\<lparr>ctxs := (ctxs m)(frm := save)\<rparr> in
      case ctxs m1 to of
        Unset \<Rightarrow> (Inl (Null_pointer ''ucontext''), m1)
      | Start e a \<Rightarrow> (Inr (), m1\<lparr>running := Stack a, entered := (entered m1)(a \<mapsto> e)\<rparr>)
      | Resume s \<Rightarrow> (Inr (), m1\<lparr>running := s\<rparr>)
      | Finished a \<Rightarrow> (Inl (Assertion ''never reached''), m1))"

definition swapIn :: "addr \<Rightarrow> ('task cmachine, unit) eff" where
  "swapIn a m =
     (let m1 = SetCurrent (Some a) m in
      if getState m1 a = EXEC then (Inl (Assertion ''m_state != EXEC''), m1)
      else
        (let m2 = setState a EXEC m1 in
         case t_main m2 of
           None \<Rightarrow> (Inl (Null_pointer ''GetMainCoroutine''), m2)
         | Some mc \<Rightarrow> swapcontext mc (Resume (running m2)) a m2))"

text \<open>\<open>swapOut\<close>; \<open>save\<close> tells a suspension inside the task from the one behind its end.\<close>

definition swapOut :: "addr \<Rightarrow> ucontext \<Rightarrow> ('task cmachine, unit) eff" where
  "swapOut a save m =
     (let m1 = SetCurrent (t_main m) m in
      case t_main m1 of
        None \<Rightarrow> (Inl (Null_pointer ''GetMainCoroutine''), m1)
      | Some mc \<Rightarrow> swapcontext a save mc m1)"

definition call_cort :: "addr \<Rightarrow> ('task cmachine, unit) eff" where
  "call_cort a m =
     (let m1 = SetCurrent (Some a) m in
      if getState m1 a = EXEC then (Inl (Assertion ''m_state != EXEC''), m1)
      else
        (let m2 = setState a EXEC m1 in
         case t_threadCoroutine m2 of
           None \<Rightarrow> (Inl (Null_pointer ''t_threadCoroutine''), m2)
         | Some tc \<Rightarrow> swapcontext tc (Resume (running m2)) a m2))"

definition back_cort :: "addr \<Rightarrow> ucontext \<Rightarrow> ('task cmachine, unit) eff" where
  "back_cort a save m =
     (let m1 = SetCurrent (t_threadCoroutine m) m in
      case t_threadCoroutine m1 of
        None \<Rightarrow> (Inl (Null_pointer ''t_threadCoroutine''), m1)
      | Some tc \<Rightarrow> swapcontext a save tc m1)"

text \<open>\<open>GetCurrent\<close> creates the thread's coroutine, at the new address \<open>a\<close>, on its first use.\<close>

definition GetCurrent :: "addr \<Rightarrow> 'task cmachine \<Rightarrow> addr \<times> 'task cmachine" where
  "GetCurrent a m =
     (case t_coroutine m of
        Some c \<Rightarrow> (c, m)
      | None \<Rightarrow> (a, (new_main a m)\<lparr>t_threadCoroutine := Some a\<rparr>))"

definition Yield :: "addr \<Rightarrow> ('task cmachine, unit) eff" where
  "Yield a m = (case GetCurrent a m of (cur, m1) \<Rightarrow>
     swapOut cur (Resume (running m1)) (setState cur READY m1))"

definition Sleep :: "addr \<Rightarrow> ('task cmachine, unit) eff" where
  "Sleep a m = (case GetCurrent a m of (cur, m1) \<Rightarrow>
     swapOut cur (Resume (running m1)) (setState cur HOLD m1))"

text \<open>
  The end of \<open>MainFunc\<close> and \<open>CallerMainFunc\<close> once the task has returned (\<open>True\<close>) or thrown: an
  empty task throws \<open>std::bad_function_call\<close>. A task that throws stays in \<open>m_cb\<close>.
\<close>

definition task_end :: "bool \<Rightarrow> addr \<Rightarrow> 'task cmachine \<Rightarrow> 'task cmachine" where
  "task_end returned cur m =
     (if returned \<and> c_cb (cget m cur) \<noteq> None
      then cupd cur (\<lambda>c. c\<lparr>c_cb := None, c_state := TERMINATED\<rparr>) m
      else setState cur EXCEPT m)"

definition finish :: "addr \<Rightarrow> bool \<Rightarrow> ('task cmachine, unit) eff" where
  "finish a returned m = (case GetCurrent a m of (cur, m1) \<Rightarrow>
     (let m2 = task_end returned cur m1 in
      case entered m2 cur of
        Some CallerMainFunc \<Rightarrow> back_cort cur (Finished cur) m2
      | _ \<Rightarrow> swapOut cur (Finished cur) m2))"

definition GetCoroutineId :: "'task cmachine \<Rightarrow> 64 word" where
  "GetCoroutineId m = (case t_coroutine m of Some a \<Rightarrow> c_id (cget m a) | None \<Rightarrow> 0)"

definition TotalCoroutines :: "'task cmachine \<Rightarrow> 64 word" where
  "TotalCoroutines m = s_coroutine_count m"

end
