(* ===== verification/Scheduler.thy ===== *)
theory Scheduler
  imports Coroutine
begin

text \<open>
  \<open>mocker/schedule.h\<close> and \<open>mocker/schedule.cpp\<close>: the task queue with the \<open>schedule\<close> functions,
  the scan of the queue in \<open>run\<close>, and \<open>run\<close> itself as a step function of one worker thread.
  One step is what the code does atomically: one locked region, one update of an atomic counter,
  or the thread-local work between them.
\<close>

section \<open>The queue\<close>

text \<open>\<open>ContextOfExecute\<close>: a coroutine or a task, and the thread it is meant for (\<open>-1\<close>: any).\<close>

record 'task coe =
  coe_coroutine :: "addr option"
  coe_cb :: "'task option"
  coe_thread :: int

definition coe_of_cort :: "addr option \<Rightarrow> int \<Rightarrow> 'task coe" where
  "coe_of_cort cort thr = \<lparr>coe_coroutine = cort, coe_cb = None, coe_thread = thr\<rparr>"

definition coe_of_task :: "'task option \<Rightarrow> int \<Rightarrow> 'task coe" where
  "coe_of_task tk thr = \<lparr>coe_coroutine = None, coe_cb = tk, coe_thread = thr\<rparr>"

definition coe_valid :: "'task coe \<Rightarrow> bool" where
  "coe_valid x \<longleftrightarrow> coe_coroutine x \<noteq> None \<or> coe_cb x \<noteq> None"

text \<open>\<open>scheduleNoLock\<close>: the new queue, and whether the scheduler has to be tickled.\<close>

definition scheduleNoLock :: "'task coe \<Rightarrow> 'task coe list \<Rightarrow> 'task coe list \<times> bool" where
  "scheduleNoLock x q = (if coe_valid x then q @ [x] else q, q = [])"

text \<open>
  \<open>schedule(begin, end)\<close>: what the iterators point to is swapped into the queue's entries, so the
  caller's pointers are empty afterwards.
\<close>

datatype 'task source = SrcCort "addr option" | SrcTask "'task option"

fun coe_of_source :: "'task source \<Rightarrow> 'task coe" where
  "coe_of_source (SrcCort c) = coe_of_cort c (- 1)"
| "coe_of_source (SrcTask k) = coe_of_task k (- 1)"

fun emptied :: "'task source \<Rightarrow> 'task source" where
  "emptied (SrcCort _) = SrcCort None"
| "emptied (SrcTask _) = SrcTask None"

fun schedule_range :: "'task source list \<Rightarrow> 'task coe list \<Rightarrow> bool
    \<Rightarrow> 'task coe list \<times> 'task source list \<times> bool" where
  "schedule_range [] q need_tickle = (q, [], need_tickle)"
| "schedule_range (x # xs) q need_tickle =
     (case scheduleNoLock (coe_of_source x) q of (q1, n) \<Rightarrow>
        (case schedule_range xs q1 (n \<or> need_tickle) of (q2, ys, n2) \<Rightarrow> (q2, emptied x # ys, n2)))"

text \<open>
  The scan at the top of the loop of \<open>run\<close>, for the thread with id \<open>tid\<close> and the coroutines'
  states \<open>st\<close>: the entry taken (if any), the queue that is left, and \<open>tickle_me\<close>.
\<close>

fun pick :: "int \<Rightarrow> (addr \<Rightarrow> cort_state) \<Rightarrow> 'task coe list
    \<Rightarrow> ('task coe option \<times> 'task coe list \<times> bool) outcome" where
  "pick tid st [] = Inr (None, [], False)"
| "pick tid st (x # xs) =
     (if coe_thread x \<noteq> - 1 \<and> coe_thread x \<noteq> tid then
        obind (pick tid st xs) (\<lambda>(r, q, tickle_me). Inr (r, x # q, True))
      else if \<not> coe_valid x then Inl (Assertion ''it->coroutine || it->cb'')
      else if (case coe_coroutine x of Some c \<Rightarrow> st c = EXEC | None \<Rightarrow> False) then
        obind (pick tid st xs) (\<lambda>(r, q, tickle_me). Inr (r, x # q, tickle_me))
      else Inr (Some x, xs, False))"

section \<open>A worker in run()\<close>

text \<open>
  Where a worker is in the loop of \<open>run\<close>. The argument of \<open>Dispatch\<close> is the entry the scan took;
  \<open>is_active\<close> is whether there is one. \<open>InCort\<close> and \<open>InCb\<close>: a task is running on its
  coroutine's stack; \<open>LeaveCort\<close> and \<open>LeaveCb\<close>: the task has set its coroutine's state but
  \<open>swapcontext\<close> has not yet saved its execution, so the thread is still on that stack;
  \<open>BackCort\<close> and \<open>BackCb\<close>: back on the scheduler coroutine, before \<open>--m_activeThreadCount\<close>;
  \<open>AfterCort\<close> and \<open>AfterCb\<close>: behind it.
\<close>

datatype 'task pc =
    AtLoop
  | Dispatch "'task coe option"
  | InCort addr | LeaveCort addr | BackCort addr | AfterCort addr
  | InCb addr | LeaveCb addr | BackCb addr | AfterCb addr
  | InIdle | BackIdle
  | Exited

record 'task sched =
  m_coroutines :: "'task coe list"
  m_activeThreadCount :: nat
  m_idleThreadCount :: nat
  m_stopping :: bool
  m_autoStop :: bool
  sc_state :: "addr \<Rightarrow> cort_state"
  sc_objects :: "addr set"
  sc_pc :: "int \<Rightarrow> 'task pc option"
  sc_idle :: "int \<Rightarrow> cort_state"
  sc_cb :: "int \<Rightarrow> addr option"

definition stopping :: "'task sched \<Rightarrow> bool" where
  "stopping s \<longleftrightarrow> m_autoStop s \<and> m_stopping s \<and> m_coroutines s = [] \<and> m_activeThreadCount s = 0"

definition goto :: "int \<Rightarrow> 'task pc \<Rightarrow> 'task sched \<Rightarrow> 'task sched" where
  "goto t p s = s\<lparr>sc_pc := (sc_pc s)(t \<mapsto> p)\<rparr>"

definition set_state :: "addr \<Rightarrow> cort_state \<Rightarrow> 'task sched \<Rightarrow> 'task sched" where
  "set_state a st s = s\<lparr>sc_state := (sc_state s)(a := st)\<rparr>"

definition schedule :: "'task coe \<Rightarrow> 'task sched \<Rightarrow> 'task sched" where
  "schedule x s = s\<lparr>m_coroutines := fst (scheduleNoLock x (m_coroutines s))\<rparr>"

definition dec_active :: "'task sched \<Rightarrow> 'task sched" where
  "dec_active s = s\<lparr>m_activeThreadCount := m_activeThreadCount s - 1\<rparr>"

text \<open>The locked region: an entry taken counts as active before the lock is released.\<close>

definition scan_step :: "int \<Rightarrow> 'task sched \<Rightarrow> 'task sched outcome" where
  "scan_step t s =
     obind (pick t (sc_state s) (m_coroutines s)) (\<lambda>(r, q, tickle_me).
       Inr (goto t (Dispatch r)
              (s\<lparr>m_coroutines := q,
                 m_activeThreadCount := m_activeThreadCount s + (if r \<noteq> None then 1 else 0)\<rparr>)))"

text \<open>
  The task branch: the thread's \<open>cb_coroutine\<close> is reset to the new task, or a coroutine is made
  for it at the new address \<open>a\<close>; then \<open>swapIn\<close>.
\<close>

definition start_cb :: "int \<Rightarrow> addr \<Rightarrow> 'task sched \<Rightarrow> 'task sched outcome" where
  "start_cb t a s =
     (case sc_cb s t of
        Some b \<Rightarrow>
          if sc_state s b = INIT \<or> sc_state s b = TERMINATED \<or> sc_state s b = EXCEPT
          then Inr (goto t (InCb b) (set_state b EXEC s))
          else Inl (Assertion ''m_state'')
      | None \<Rightarrow>
          Inr (goto t (InCb a) (set_state a EXEC
                (s\<lparr>sc_objects := insert a (sc_objects s), sc_cb := (sc_cb s)(t \<mapsto> a)\<rparr>))))"

text \<open>The branch with nothing to run.\<close>

definition go_idle :: "int \<Rightarrow> bool \<Rightarrow> 'task sched \<Rightarrow> 'task sched outcome" where
  "go_idle t is_active s =
     (let s1 = (if is_active then dec_active s else s) in
      if sc_idle s1 t = TERMINATED then Inr (goto t Exited s1)
      else if sc_idle s1 t = EXEC then Inl (Assertion ''m_state != EXEC'')
      else Inr (goto t InIdle
             (s1\<lparr>m_idleThreadCount := m_idleThreadCount s1 + 1, sc_idle := (sc_idle s1)(t := EXEC)\<rparr>)))"

definition dispatch_step :: "int \<Rightarrow> addr \<Rightarrow> 'task coe option \<Rightarrow> 'task sched \<Rightarrow> 'task sched outcome" where
  "dispatch_step t a r s =
     (case r of
        None \<Rightarrow> go_idle t False s
      | Some x \<Rightarrow>
          (case coe_coroutine x of
             Some c \<Rightarrow>
               if sc_state s c \<noteq> TERMINATED \<and> sc_state s c \<noteq> EXCEPT then
                 (if sc_state s c = EXEC then Inl (Assertion ''m_state != EXEC'')
                  else Inr (goto t (InCort c) (set_state c EXEC s)))
               else if coe_cb x \<noteq> None then start_cb t a s
               else go_idle t True s
           | None \<Rightarrow> if coe_cb x \<noteq> None then start_cb t a s else go_idle t True s))"

text \<open>Behind a coroutine's switch: a coroutine that yielded is scheduled again, for any thread.\<close>

definition after_cort :: "int \<Rightarrow> addr \<Rightarrow> 'task sched \<Rightarrow> 'task sched" where
  "after_cort t c s =
     goto t AtLoop
       (if sc_state s c = READY then schedule (coe_of_cort (Some c) (- 1)) s
        else if sc_state s c \<noteq> TERMINATED \<and> sc_state s c \<noteq> EXCEPT then set_state c HOLD s
        else s)"

text \<open>Behind a task's switch: \<open>cb_coroutine\<close> is kept only when its task has ended.\<close>

definition after_cb :: "int \<Rightarrow> addr \<Rightarrow> 'task sched \<Rightarrow> 'task sched" where
  "after_cb t c s =
     goto t AtLoop
       (if sc_state s c = READY then
          (schedule (coe_of_cort (Some c) (- 1)) s)\<lparr>sc_cb := (sc_cb s)(t := None)\<rparr>
        else if sc_state s c = EXCEPT \<or> sc_state s c = TERMINATED then set_state c INIT s
        else (set_state c HOLD s)\<lparr>sc_cb := (sc_cb s)(t := None)\<rparr>)"

text \<open>
  One pass of the loop in \<open>idle\<close>: the idle coroutine ends if \<open>stopping()\<close> holds and sleeps
  otherwise.
\<close>

definition idle_step :: "int \<Rightarrow> 'task sched \<Rightarrow> 'task sched" where
  "idle_step t s =
     goto t BackIdle
       (s\<lparr>sc_idle := (sc_idle s)(t := if stopping s then TERMINATED else HOLD)\<rparr>)"

definition after_idle :: "int \<Rightarrow> 'task sched \<Rightarrow> 'task sched" where
  "after_idle t s =
     goto t AtLoop
       (s\<lparr>m_idleThreadCount := m_idleThreadCount s - 1,
          sc_idle := (sc_idle s)(t := if sc_idle s t \<noteq> TERMINATED \<and> sc_idle s t \<noteq> EXCEPT
                                      then HOLD else sc_idle s t)\<rparr>)"

text \<open>
  The next step of worker \<open>t\<close>. \<open>st\<close> is the state in which a running task leaves its coroutine and
  \<open>a\<close> the address of a new coroutine object; only the steps concerned read them.
\<close>

fun worker_step :: "int \<Rightarrow> cort_state \<Rightarrow> addr \<Rightarrow> 'task pc \<Rightarrow> 'task sched \<Rightarrow> 'task sched outcome" where
  "worker_step t st a AtLoop s = scan_step t s"
| "worker_step t st a (Dispatch r) s = dispatch_step t a r s"
| "worker_step t st a (InCort c) s = Inr (goto t (LeaveCort c) (set_state c st s))"
| "worker_step t st a (LeaveCort c) s = Inr (goto t (BackCort c) s)"
| "worker_step t st a (BackCort c) s = Inr (goto t (AfterCort c) (dec_active s))"
| "worker_step t st a (AfterCort c) s = Inr (after_cort t c s)"
| "worker_step t st a (InCb c) s = Inr (goto t (LeaveCb c) (set_state c st s))"
| "worker_step t st a (LeaveCb c) s = Inr (goto t (BackCb c) s)"
| "worker_step t st a (BackCb c) s = Inr (goto t (AfterCb c) (dec_active s))"
| "worker_step t st a (AfterCb c) s = Inr (after_cb t c s)"
| "worker_step t st a InIdle s = Inr (idle_step t s)"
| "worker_step t st a BackIdle s = Inr (after_idle t s)"
| "worker_step t st a Exited s = Inr s"

text \<open>How a task can leave its coroutine: it yields, sleeps, returns or throws.\<close>

definition leaves :: "cort_state \<Rightarrow> bool" where
  "leaves st \<longleftrightarrow> st = READY \<or> st = HOLD \<or> st = TERMINATED \<or> st = EXCEPT"

text \<open>
  The scheduler with its workers and everybody who calls \<open>schedule\<close> or \<open>stop\<close>: \<open>env s x\<close> says
  whether entry \<open>x\<close> may be scheduled in state \<open>s\<close>.
\<close>

inductive sched_step :: "('task sched \<Rightarrow> 'task coe \<Rightarrow> bool) \<Rightarrow> 'task sched \<Rightarrow> 'task sched \<Rightarrow> bool" for env
  where
  worker: "sc_pc s t = Some p \<Longrightarrow> leaves st \<Longrightarrow> a \<notin> sc_objects s \<Longrightarrow>
     worker_step t st a p s = Inr s' \<Longrightarrow> sched_step env s s'"
| client: "env s x \<Longrightarrow> sched_step env s (schedule x s)"
| auto_stop: "sched_step env s (s\<lparr>m_autoStop := True\<rparr>)"
| stop_flag: "sched_step env s (s\<lparr>m_stopping := True\<rparr>)"

text \<open>
  \<open>start\<close> has created the workers \<open>ws\<close>: each is at the top of its loop with a new idle coroutine;
  \<open>objs\<close> are the coroutine objects that exist, none of them running.
\<close>

inductive started :: "'task sched \<Rightarrow> bool" where
  "finite {t. ws t} \<Longrightarrow> (\<And>a. st a \<noteq> EXEC) \<Longrightarrow>
   started \<lparr>m_coroutines = [], m_activeThreadCount = 0, m_idleThreadCount = 0, m_stopping = False,
     m_autoStop = False, sc_state = st, sc_objects = objs,
     sc_pc = (\<lambda>t. if ws t then Some AtLoop else None), sc_idle = (\<lambda>_. INIT), sc_cb = (\<lambda>_. None)\<rparr>"

end
