(* ===== verification/Scheduler_Queue.thy ===== *)
theory Scheduler_Queue
  imports Scheduler
begin

text \<open>
  The queue of the scheduler: what the scan of \<open>run\<close> takes and leaves, what the \<open>schedule\<close>
  functions add, and that an entry for a thread that takes nothing stays for ever.
\<close>

section \<open>The scan\<close>

definition pinned_elsewhere :: "int \<Rightarrow> 'task coe \<Rightarrow> bool" where
  "pinned_elsewhere t x \<longleftrightarrow> coe_thread x \<noteq> - 1 \<and> coe_thread x \<noteq> t"

definition executing :: "(addr \<Rightarrow> cort_state) \<Rightarrow> 'task coe \<Rightarrow> bool" where
  "executing st x \<longleftrightarrow> (case coe_coroutine x of Some c \<Rightarrow> st c = EXEC | None \<Rightarrow> False)"

definition eligible :: "int \<Rightarrow> (addr \<Rightarrow> cort_state) \<Rightarrow> 'task coe \<Rightarrow> bool" where
  "eligible t st x \<longleftrightarrow> \<not> pinned_elsewhere t x \<and> \<not> executing st x"

lemmas eligible_defs = eligible_def pinned_elsewhere_def executing_def

text \<open>The first eligible entry of a list, with what is before and behind it.\<close>

lemma split_eligible:
  obtains (none) "\<forall>y \<in> set q. \<not> eligible t st y"
  | (first) pre x post where "q = pre @ x # post" "\<forall>y \<in> set pre. \<not> eligible t st y" "eligible t st x"
proof (cases "\<exists>y \<in> set q. eligible t st y")
  case True
  then show ?thesis using split_list_first_prop [OF True] first by blast
qed (use none in blast)

lemma pick_skip:
  assumes "\<forall>y \<in> set pre. coe_valid y \<and> \<not> eligible t st y"
  shows "pick t st (pre @ q) =
    obind (pick t st q) (\<lambda>(r, q', tk). Inr (r, pre @ q', tk \<or> (\<exists>y \<in> set pre. pinned_elsewhere t y)))"
  using assms
proof (induction pre)
  case Nil
  then show ?case by (cases "pick t st q") (auto split: prod.splits)
next
  case (Cons y pre)
  then have IH: "pick t st (pre @ q) =
      obind (pick t st q) (\<lambda>(r, q', tk). Inr (r, pre @ q', tk \<or> (\<exists>y \<in> set pre. pinned_elsewhere t y)))"
    by simp
  show ?case
  proof (cases "pinned_elsewhere t y")
    case True
    then show ?thesis
      by (cases "pick t st q") (auto simp: IH pinned_elsewhere_def split: prod.splits)
  next
    case False
    with Cons.prems have "executing st y" "coe_valid y" by (auto simp: eligible_def)
    with False show ?thesis
      by (cases "pick t st q") (auto simp: IH pinned_elsewhere_def executing_def split: prod.splits option.splits)
  qed
qed

lemma pick_eligible: "coe_valid x \<Longrightarrow> eligible t st x \<Longrightarrow> pick t st (x # post) = Inr (Some x, post, False)"
  by (auto simp: eligible_defs split: option.splits)

lemma pick_none:
  "\<forall>y \<in> set q. coe_valid y \<and> \<not> eligible t st y \<Longrightarrow>
     pick t st q = Inr (None, q, \<exists>y \<in> set q. pinned_elsewhere t y)"
  using pick_skip [of q t st "[]"] by simp

lemma pick_first:
  assumes "\<forall>y \<in> set (pre @ x # post). coe_valid y" and "\<forall>y \<in> set pre. \<not> eligible t st y"
    and "eligible t st x"
  shows "pick t st (pre @ x # post) = Inr (Some x, pre @ post, \<exists>y \<in> set pre. pinned_elsewhere t y)"
proof -
  have "\<forall>y \<in> set pre. coe_valid y \<and> \<not> eligible t st y" using assms(1,2) by auto
  moreover have "pick t st (x # post) = Inr (Some x, post, False)"
    using assms(1,3) by (intro pick_eligible) auto
  ultimately show ?thesis by (simp only: pick_skip obind_simps prod.case) simp
qed

text \<open>Every outcome of the scan of a queue without empty entries.\<close>

lemma pick_cases:
  assumes "\<forall>y \<in> set q. coe_valid y"
  obtains (none) tk where "pick t st q = Inr (None, q, tk)" "\<forall>y \<in> set q. \<not> eligible t st y"
  | (taken) pre x post tk where "q = pre @ x # post" "pick t st q = Inr (Some x, pre @ post, tk)"
      "eligible t st x" "\<forall>y \<in> set pre. \<not> eligible t st y"
proof (cases q t st rule: split_eligible [case_names none first])
  case none
  with assms pick_none [of q t st] that(1) show ?thesis by auto
next
  case (first pre x post)
  with assms pick_first [of pre x post t st] that(2) show ?thesis by auto
qed

text \<open>The scan takes the first entry of the queue that is meant for this thread or for any
  thread and whose coroutine is not running; it removes exactly that entry and keeps the order of
  the others; the thread is told to tickle exactly when it passed an entry meant for another
  thread.\<close>

theorem scan_takes_first_eligible:
  assumes "\<forall>y \<in> set q. coe_valid y" and "pick t st q = Inr (Some x, q', tickle_me)"
  shows "\<exists>pre post. q = pre @ x # post \<and> q' = pre @ post \<and> eligible t st x
    \<and> (\<forall>y \<in> set pre. \<not> eligible t st y) \<and> (tickle_me \<longleftrightarrow> (\<exists>y \<in> set pre. pinned_elsewhere t y))"
proof (cases q t st rule: split_eligible [case_names none first])
  case none
  with assms pick_none [of q t st] show ?thesis by auto
next
  case (first pre z post)
  with assms pick_first [of pre z post t st] show ?thesis by auto
qed

theorem scan_takes_first_eligible_witness:
  "\<exists>pre post. [coe_of_task (Some ''a'') 7, coe_of_task (Some ''b'') (- 1)] = pre @ coe_of_task (Some ''b'') (- 1) # post
    \<and> [coe_of_task (Some ''a'') 7] = pre @ post \<and> eligible 3 (\<lambda>_. INIT) (coe_of_task (Some ''b'') (- 1))
    \<and> (\<forall>y \<in> set pre. \<not> eligible 3 (\<lambda>_. INIT) y) \<and> (True \<longleftrightarrow> (\<exists>y \<in> set pre. pinned_elsewhere 3 y))"
  by (rule scan_takes_first_eligible) (simp_all add: coe_of_task_def coe_valid_def)

text \<open>Scheduling a range appends the non-empty entries in order, for any thread, empties every
  pointer of the range, and asks for a tickle exactly when the queue was empty and the range was
  not.\<close>

theorem schedule_range_appends:
  "schedule_range xs q False =
     (q @ filter coe_valid (map coe_of_source xs), map emptied xs, q = [] \<and> xs \<noteq> [])"
proof -
  have "schedule_range xs q n =
      (q @ filter coe_valid (map coe_of_source xs), map emptied xs, n \<or> q = [] \<and> xs \<noteq> [])" for n
    by (induction xs arbitrary: q n) (auto simp: scheduleNoLock_def)
  then show ?thesis by simp
qed

end
