(* ===== verification/Scheduler_Counts.thy ===== *)
theory Scheduler_Counts
  imports Scheduler_Queue
begin

text \<open>
  What holds in every state of the scheduler, whoever schedules what: the two thread counters count
  threads, the queue has no empty entries, and \<open>stopping()\<close> means that nothing is queued and no
  worker is executing a task. Entries for threads that take nothing are stuck.
\<close>

section \<open>The counters\<close>

fun flight_pc :: "'task pc \<Rightarrow> bool" where
  "flight_pc (Dispatch r) \<longleftrightarrow> r \<noteq> None"
| "flight_pc (InCort _) \<longleftrightarrow> True"
| "flight_pc (LeaveCort _) \<longleftrightarrow> True"
| "flight_pc (BackCort _) \<longleftrightarrow> True"
| "flight_pc (InCb _) \<longleftrightarrow> True"
| "flight_pc (LeaveCb _) \<longleftrightarrow> True"
| "flight_pc (BackCb _) \<longleftrightarrow> True"
| "flight_pc _ \<longleftrightarrow> False"

fun idle_pc :: "'task pc \<Rightarrow> bool" where
  "idle_pc InIdle \<longleftrightarrow> True"
| "idle_pc BackIdle \<longleftrightarrow> True"
| "idle_pc _ \<longleftrightarrow> False"

definition at_pc :: "('task pc \<Rightarrow> bool) \<Rightarrow> 'task sched \<Rightarrow> int set" where
  "at_pc P s = {t. \<exists>p. sc_pc s t = Some p \<and> P p}"

abbreviation flight :: "'task sched \<Rightarrow> int set" where
  "flight \<equiv> at_pc flight_pc"

abbreviation idlers :: "'task sched \<Rightarrow> int set" where
  "idlers \<equiv> at_pc idle_pc"

definition counts_inv :: "'task sched \<Rightarrow> bool" where
  "counts_inv s \<longleftrightarrow> finite (flight s) \<and> finite (idlers s)
     \<and> m_activeThreadCount s = card (flight s) \<and> m_idleThreadCount s = card (idlers s)
     \<and> (\<forall>x \<in> set (m_coroutines s). coe_valid x)"

lemma at_pc_goto: "at_pc P (goto t p s) = (if P p then insert t (at_pc P s) else at_pc P s - {t})"
  by (auto simp: at_pc_def goto_def)

lemma at_pc_mem: "sc_pc s t = Some p \<Longrightarrow> t \<in> at_pc P s \<longleftrightarrow> P p"
  by (simp add: at_pc_def)

lemma at_pc_frame [simp]:
  "at_pc P (s\<lparr>m_coroutines := q\<rparr>) = at_pc P s"
  "at_pc P (s\<lparr>m_activeThreadCount := n\<rparr>) = at_pc P s"
  "at_pc P (s\<lparr>m_idleThreadCount := n\<rparr>) = at_pc P s"
  "at_pc P (s\<lparr>m_stopping := b\<rparr>) = at_pc P s"
  "at_pc P (s\<lparr>m_autoStop := b\<rparr>) = at_pc P s"
  "at_pc P (s\<lparr>sc_objects := O'\<rparr>) = at_pc P s"
  "at_pc P (s\<lparr>sc_idle := f\<rparr>) = at_pc P s"
  "at_pc P (s\<lparr>sc_cb := g\<rparr>) = at_pc P s"
  "at_pc P (s\<lparr>sc_state := h\<rparr>) = at_pc P s"
  "at_pc P (set_state c st s) = at_pc P s"
  "at_pc P (schedule x s) = at_pc P s"
  "at_pc P (dec_active s) = at_pc P s"
  by (simp_all add: at_pc_def set_state_def schedule_def dec_active_def)

lemma goto_frame [simp]:
  "m_coroutines (goto t p s) = m_coroutines s" "m_activeThreadCount (goto t p s) = m_activeThreadCount s"
  "m_idleThreadCount (goto t p s) = m_idleThreadCount s" "m_stopping (goto t p s) = m_stopping s"
  "m_autoStop (goto t p s) = m_autoStop s" "sc_state (goto t p s) = sc_state s"
  "sc_objects (goto t p s) = sc_objects s" "sc_idle (goto t p s) = sc_idle s" "sc_cb (goto t p s) = sc_cb s"
  "sc_pc (goto t p s) = (sc_pc s)(t \<mapsto> p)"
  by (simp_all add: goto_def)

lemma set_state_frame [simp]:
  "m_coroutines (set_state c st s) = m_coroutines s"
  "m_activeThreadCount (set_state c st s) = m_activeThreadCount s"
  "m_idleThreadCount (set_state c st s) = m_idleThreadCount s"
  "m_stopping (set_state c st s) = m_stopping s" "m_autoStop (set_state c st s) = m_autoStop s"
  "sc_state (set_state c st s) = (sc_state s)(c := st)"
  "sc_objects (set_state c st s) = sc_objects s" "sc_idle (set_state c st s) = sc_idle s"
  "sc_cb (set_state c st s) = sc_cb s" "sc_pc (set_state c st s) = sc_pc s"
  by (simp_all add: set_state_def)

lemma dec_active_frame [simp]:
  "m_coroutines (dec_active s) = m_coroutines s"
  "m_activeThreadCount (dec_active s) = m_activeThreadCount s - 1"
  "m_idleThreadCount (dec_active s) = m_idleThreadCount s"
  "m_stopping (dec_active s) = m_stopping s" "m_autoStop (dec_active s) = m_autoStop s"
  "sc_state (dec_active s) = sc_state s"
  "sc_objects (dec_active s) = sc_objects s" "sc_idle (dec_active s) = sc_idle s"
  "sc_cb (dec_active s) = sc_cb s" "sc_pc (dec_active s) = sc_pc s"
  by (simp_all add: dec_active_def)

lemma schedule_frame [simp]:
  "m_coroutines (schedule x s) = (if coe_valid x then m_coroutines s @ [x] else m_coroutines s)"
  "m_activeThreadCount (schedule x s) = m_activeThreadCount s"
  "m_idleThreadCount (schedule x s) = m_idleThreadCount s"
  "m_stopping (schedule x s) = m_stopping s" "m_autoStop (schedule x s) = m_autoStop s"
  "sc_state (schedule x s) = sc_state s"
  "sc_objects (schedule x s) = sc_objects s" "sc_idle (schedule x s) = sc_idle s"
  "sc_cb (schedule x s) = sc_cb s" "sc_pc (schedule x s) = sc_pc s"
  by (simp_all add: schedule_def scheduleNoLock_def)

lemma coe_valid_cort [simp]: "coe_valid (coe_of_cort (Some c) t)"
  by (simp add: coe_valid_def coe_of_cort_def)

lemmas worker_defs = scan_step_def dispatch_step_def start_cb_def go_idle_def after_cort_def
  after_cb_def idle_step_def after_idle_def

lemma counts_scan:
  assumes "counts_inv s" and "sc_pc s t = Some AtLoop" and "scan_step t s = Inr s'"
  shows "counts_inv s'"
proof -
  have t: "t \<notin> flight s" "t \<notin> idlers s" using assms(2) by (simp_all add: at_pc_mem)
  have valid: "\<forall>x \<in> set (m_coroutines s). coe_valid x" using assms(1) by (simp add: counts_inv_def)
  show ?thesis
    by (cases rule: pick_cases [OF valid, of t "sc_state s", case_names none taken])
      (use assms t in \<open>auto simp: scan_step_def counts_inv_def at_pc_goto\<close>)
qed

lemma counts_worker:
  assumes "counts_inv s" and "sc_pc s t = Some p" and "worker_step t st a p s = Inr s'"
  shows "counts_inv s'"
proof (cases p)
  case AtLoop
  with assms show ?thesis by (auto intro: counts_scan)
next
  case (Dispatch r)
  with assms show ?thesis
    using at_pc_mem [OF assms(2), of flight_pc] at_pc_mem [OF assms(2), of idle_pc]
    by (auto simp: worker_defs counts_inv_def at_pc_goto card_Diff_singleton insert_absorb Let_def
        split: option.splits if_splits)
qed (use assms at_pc_mem [OF assms(2), of flight_pc] at_pc_mem [OF assms(2), of idle_pc] in
  \<open>auto simp: worker_defs counts_inv_def at_pc_goto card_Diff_singleton insert_absorb split: if_splits\<close>)

lemma counts_step:
  assumes "sched_step env s s'" and "counts_inv s"
  shows "counts_inv s'"
  using assms(1)
proof cases
  case (worker t p st a)
  with assms(2) show ?thesis by (blast intro: counts_worker)
qed (use assms(2) in \<open>simp_all add: counts_inv_def\<close>)

lemma counts_started: "started s \<Longrightarrow> counts_inv s"
  by (erule started.cases) (auto simp: counts_inv_def at_pc_def)

interpretation thread_counts: invariant_system started "sched_step env" counts_inv for env
  by unfold_locales (blast intro: counts_started counts_step)+

section \<open>When the scheduler stops\<close>

text \<open>C9. The counters are never wrong: \<open>m_activeThreadCount\<close> is the number of workers between
  taking an entry from the queue and coming back from its task, \<open>m_idleThreadCount\<close> the number of
  workers in their idle coroutine; neither is ever decremented at zero.\<close>

theorem thread_counters_exact:
  assumes "reach started (sched_step env) s"
  shows "m_activeThreadCount s = card (flight s) \<and> m_idleThreadCount s = card (idlers s)
    \<and> (\<forall>t p. sc_pc s t = Some p \<longrightarrow> (flight_pc p \<longrightarrow> 0 < m_activeThreadCount s)
          \<and> (idle_pc p \<longrightarrow> 0 < m_idleThreadCount s))"
proof -
  have inv: "counts_inv s" by (rule thread_counts.reach_inv [OF assms])
  then have fin: "finite (flight s)" "finite (idlers s)" by (simp_all add: counts_inv_def)
  have "0 < card (flight s)" if "sc_pc s t = Some p" "flight_pc p" for t p
    using that fin at_pc_mem [OF that(1), of flight_pc] by (metis card_gt_0_iff empty_iff)
  moreover have "0 < card (idlers s)" if "sc_pc s t = Some p" "idle_pc p" for t p
    using that fin at_pc_mem [OF that(1), of idle_pc] by (metis card_gt_0_iff empty_iff)
  ultimately show ?thesis using inv by (simp add: counts_inv_def)
qed

text \<open>When \<open>stopping()\<close> holds nothing is queued and no worker holds or executes an entry.\<close>

theorem stopping_means_quiet:
  assumes "reach started (sched_step env) s" and "stopping s"
  shows "m_coroutines s = [] \<and> (\<forall>t p. sc_pc s t = Some p \<longrightarrow> \<not> flight_pc p)"
proof -
  have "flight s = {}"
    using thread_counts.reach_inv [OF assms(1)] assms(2)
    by (simp add: counts_inv_def stopping_def)
  then show ?thesis using assms(2) by (auto simp: at_pc_def stopping_def)
qed

section \<open>Stuck entries\<close>

text \<open>An entry for a thread that is no worker, or for a worker that has left its loop.\<close>

definition stuck :: "'task coe \<Rightarrow> 'task sched \<Rightarrow> bool" where
  "stuck x s \<longleftrightarrow> x \<in> set (m_coroutines s) \<and> coe_valid x \<and> coe_thread x \<noteq> - 1
     \<and> (sc_pc s (coe_thread x) = None \<or> sc_pc s (coe_thread x) = Some Exited)
     \<and> (\<forall>y \<in> set (m_coroutines s). coe_valid y)"

lemma stuck_worker:
  assumes "stuck x s" and "sc_pc s t = Some p" and "worker_step t st a p s = Inr s'"
  shows "stuck x s'"
proof (cases "p = Exited")
  case True
  with assms show ?thesis by simp
next
  case False
  then have t: "coe_thread x \<noteq> t" using assms(1,2) by (auto simp: stuck_def)
  show ?thesis
  proof (cases p)
    case AtLoop
    have valid: "\<forall>y \<in> set (m_coroutines s). coe_valid y" using assms(1) by (simp add: stuck_def)
    show ?thesis
    proof (cases rule: pick_cases [OF valid, of t "sc_state s", case_names none taken])
      case none
      with assms AtLoop t show ?thesis by (auto simp: stuck_def scan_step_def)
    next
      case (taken pre y post tk)
      then have "y \<noteq> x" using assms(1) t by (auto simp: stuck_def eligible_defs)
      with taken assms AtLoop t show ?thesis by (auto simp: stuck_def scan_step_def)
    qed
  next
    case (Dispatch r)
    with assms t show ?thesis
      by (auto simp: stuck_def worker_defs Let_def split: option.splits if_splits)
  qed (use assms t False in \<open>auto simp: stuck_def worker_defs split: if_splits\<close>)
qed

lemma stuck_step:
  assumes "sched_step env s s'" and "stuck x s"
  shows "stuck x s'"
  using assms(1)
proof cases
  case (worker t p st a)
  with assms(2) show ?thesis by (blast intro: stuck_worker)
qed (use assms(2) in \<open>auto simp: stuck_def\<close>)

interpretation stuck_entries: invariant_system "stuck x" "sched_step env" "stuck x" for x env
  by unfold_locales (blast intro: stuck_step)+

text \<open>An entry for a thread that is no worker (or that has left its loop) is never taken: it
  stays in the queue whatever happens, \<open>stopping()\<close> stays false, and so a worker that is in its idle
  coroutine never finds that it may leave.\<close>

theorem pinned_entry_blocks_stop:
  assumes "stuck x s" and "(sched_step env)\<^sup>*\<^sup>* s s'"
  shows "x \<in> set (m_coroutines s') \<and> \<not> stopping s'
    \<and> (\<forall>t. sc_idle (idle_step t s') t = HOLD)"
  using stuck_entries.steps_inv [OF assms(2,1)]
  by (auto simp: stuck_def stopping_def idle_step_def)

section \<open>Witnesses\<close>

text \<open>One worker, thread 1, with one task queued; then the state in which it has taken the task.\<close>

definition example_sched :: "unit sched" where
  "example_sched =
     \<lparr>m_coroutines = [], m_activeThreadCount = 0, m_idleThreadCount = 0, m_stopping = False,
      m_autoStop = False, sc_state = (\<lambda>_. INIT), sc_objects = {},
      sc_pc = (\<lambda>t. if t = 1 then Some AtLoop else None), sc_idle = (\<lambda>_. INIT), sc_cb = (\<lambda>_. None)\<rparr>"

definition example_taken :: "unit sched" where
  "example_taken =
     goto 1 (Dispatch (Some (coe_of_task (Some ()) (- 1)))) (example_sched\<lparr>m_activeThreadCount := 1\<rparr>)"

lemma example_started: "started example_sched"
  unfolding example_sched_def by (rule started.intros) simp_all

lemma example_taken_reach: "reach started (sched_step (\<lambda>_ _. True)) example_taken"
proof -
  let ?x = "coe_of_task (Some ()) (- 1) :: unit coe"
  have "reach started (sched_step (\<lambda>_ _. True)) (schedule ?x example_sched)"
    by (rule reach_step, rule reach_init, rule example_started) (rule sched_step.client, simp)
  moreover have "sched_step (\<lambda>_ _. True) (schedule ?x example_sched) example_taken"
    by (rule sched_step.worker [of _ 1 AtLoop READY 0])
      (simp_all add: leaves_def scan_step_def example_taken_def schedule_def scheduleNoLock_def
        coe_of_task_def coe_valid_def goto_def example_sched_def)
  ultimately show ?thesis by (rule reach_step)
qed

theorem thread_counters_exact_witness:
  "m_activeThreadCount example_taken = card (flight example_taken) \<and> m_activeThreadCount example_taken = 1"
proof -
  have "m_activeThreadCount example_taken = card (flight example_taken)"
    using thread_counters_exact [OF example_taken_reach] by blast
  then show ?thesis by (simp add: example_taken_def)
qed

theorem stopping_means_quiet_witness:
  "stopping (example_sched\<lparr>m_autoStop := True, m_stopping := True\<rparr>)
    \<and> m_coroutines (example_sched\<lparr>m_autoStop := True, m_stopping := True\<rparr>) = []"
proof -
  let ?s = "example_sched\<lparr>m_autoStop := True, m_stopping := True\<rparr>"
  have "reach started (sched_step (\<lambda>_ _. True)) ?s"
  proof -
    have "reach started (sched_step (\<lambda>_ _. True)) (example_sched\<lparr>m_autoStop := True\<rparr>)"
      by (rule reach_step, rule reach_init, rule example_started) (rule sched_step.auto_stop)
    then have "reach started (sched_step (\<lambda>_ _. True)) (example_sched\<lparr>m_autoStop := True\<rparr>\<lparr>m_stopping := True\<rparr>)"
      by (rule reach_step) (rule sched_step.stop_flag)
    then show ?thesis by simp
  qed
  moreover have "stopping ?s" by (simp add: stopping_def example_sched_def)
  ultimately show ?thesis using stopping_means_quiet by blast
qed

theorem pinned_entry_blocks_stop_witness:
  "let s = schedule (coe_of_task (Some ()) 99) example_sched; s' = s\<lparr>m_stopping := True\<rparr>
   in stuck (coe_of_task (Some ()) 99) s \<and> coe_of_task (Some ()) 99 \<in> set (m_coroutines s') \<and> \<not> stopping s'"
proof -
  let ?x = "coe_of_task (Some ()) 99 :: unit coe"
  let ?s = "schedule ?x example_sched"
  have stuck: "stuck ?x ?s"
    by (simp add: stuck_def example_sched_def coe_of_task_def coe_valid_def)
  have "(sched_step (\<lambda>_ _. True))\<^sup>*\<^sup>* ?s (?s\<lparr>m_stopping := True\<rparr>)"
    by (rule r_into_rtranclp) (rule sched_step.stop_flag)
  from pinned_entry_blocks_stop [OF stuck this] stuck show ?thesis by (simp add: Let_def)
qed

end
