(* ===== verification/Scheduler_Exclusive.thy ===== *)
theory Scheduler_Exclusive
  imports Scheduler_Counts
begin

text \<open>
  Which workers may run which coroutines. If nobody schedules a coroutine that is already queued or
  held by a worker, no two workers ever hold the same coroutine and none of the code's assertions
  fails. Without that discipline two workers can run on one coroutine's stack.
\<close>

section \<open>Who holds a coroutine\<close>

fun queued :: "'task coe list \<Rightarrow> addr list" where
  "queued [] = []"
| "queued (x # q) = (case coe_coroutine x of Some c \<Rightarrow> c # queued q | None \<Rightarrow> queued q)"

fun cort_pc :: "'task pc \<Rightarrow> addr option" where
  "cort_pc (Dispatch (Some x)) = coe_coroutine x"
| "cort_pc (InCort c) = Some c"
| "cort_pc (LeaveCort c) = Some c"
| "cort_pc (BackCort c) = Some c"
| "cort_pc (AfterCort c) = Some c"
| "cort_pc _ = None"

fun cb_pc :: "'task pc \<Rightarrow> addr option" where
  "cb_pc (InCb c) = Some c"
| "cb_pc (LeaveCb c) = Some c"
| "cb_pc (BackCb c) = Some c"
| "cb_pc (AfterCb c) = Some c"
| "cb_pc _ = None"

text \<open>A worker holds the coroutine it works on and its \<open>cb_coroutine\<close>.\<close>

definition holds :: "'task sched \<Rightarrow> int \<Rightarrow> addr \<Rightarrow> bool" where
  "holds s t c \<longleftrightarrow> sc_cb s t = Some c \<or> (\<exists>p. sc_pc s t = Some p \<and> cort_pc p = Some c)"

text \<open>
  The discipline of a client: the coroutine exists, is not in the queue and no worker holds it.
\<close>

definition unclaimed :: "'task sched \<Rightarrow> 'task coe \<Rightarrow> bool" where
  "unclaimed s x \<longleftrightarrow>
     (\<forall>c. coe_coroutine x = Some c \<longrightarrow>
        c \<in> sc_objects s \<and> c \<notin> set (queued (m_coroutines s)) \<and> (\<forall>t. \<not> holds s t c))"

section \<open>The invariant\<close>

text \<open>What one worker's position says about its coroutine objects and its idle coroutine.\<close>

definition worker_ok :: "'task sched \<Rightarrow> int \<Rightarrow> bool" where
  "worker_ok s t \<longleftrightarrow>
     (case sc_pc s t of
        None \<Rightarrow> sc_cb s t = None
      | Some p \<Rightarrow>
          (\<forall>c. cort_pc p = Some c \<longrightarrow> sc_cb s t \<noteq> Some c)
          \<and> (\<forall>c. cb_pc p = Some c \<longrightarrow> sc_cb s t = Some c)
          \<and> (\<forall>b. sc_cb s t = Some b \<and> cb_pc p = None \<longrightarrow> sc_state s b = INIT)
          \<and> (\<forall>x. p = Dispatch (Some x) \<longrightarrow> coe_valid x)
          \<and> (sc_idle s t = EXEC \<longleftrightarrow> p = InIdle))"

definition exec_pc :: "'task sched \<Rightarrow> int \<Rightarrow> addr \<Rightarrow> bool" where
  "exec_pc s t c \<longleftrightarrow> sc_pc s t = Some (InCort c) \<or> sc_pc s t = Some (InCb c)"

definition exclusive_inv :: "'task sched \<Rightarrow> bool" where
  "exclusive_inv s \<longleftrightarrow>
     (\<forall>x \<in> set (m_coroutines s). coe_valid x)
     \<and> (\<forall>t. worker_ok s t)
     \<and> (\<forall>t1 t2 c. holds s t1 c \<and> holds s t2 c \<longrightarrow> t1 = t2)
     \<and> (\<forall>t c. holds s t c \<longrightarrow> c \<in> sc_objects s \<and> c \<notin> set (queued (m_coroutines s)))
     \<and> set (queued (m_coroutines s)) \<subseteq> sc_objects s
     \<and> distinct (queued (m_coroutines s))
     \<and> (\<forall>c. sc_state s c = EXEC \<longrightarrow> (\<exists>t. exec_pc s t c))"

lemma queued_append [simp]: "queued (p @ q) = queued p @ queued q"
  by (induction p) (auto split: option.splits)

lemma exclusive_started: "started s \<Longrightarrow> exclusive_inv s"
  by (erule started.cases) (auto simp: exclusive_inv_def worker_ok_def holds_def split: if_splits)

text \<open>No assertion fails in a state of the invariant.\<close>

lemma exclusive_progress:
  assumes "exclusive_inv s" and "sc_pc s t = Some p"
  shows "\<exists>s'. worker_step t st a p s = Inr s'"
proof (cases p)
  case AtLoop
  have valid: "\<forall>y \<in> set (m_coroutines s). coe_valid y" using assms(1) by (simp add: exclusive_inv_def)
  show ?thesis
    by (cases rule: pick_cases [OF valid, of t "sc_state s", case_names none taken])
      (auto simp: AtLoop scan_step_def)
next
  case (Dispatch r)
  have ok: "worker_ok s t" using assms(1) by (simp add: exclusive_inv_def)
  have idle: "sc_idle s t \<noteq> EXEC" and cb: "\<And>b. sc_cb s t = Some b \<Longrightarrow> sc_state s b = INIT"
    using ok assms(2) Dispatch by (auto simp: worker_ok_def)
  have "sc_state s c \<noteq> EXEC" if "r = Some x" "coe_coroutine x = Some c" for x c
  proof
    assume "sc_state s c = EXEC"
    then obtain t' where t': "exec_pc s t' c" using assms(1) by (auto simp: exclusive_inv_def)
    then have "holds s t' c"
      using assms(1) by (auto simp: exclusive_inv_def exec_pc_def holds_def worker_ok_def
          dest!: spec [of _ t'])
    moreover have "holds s t c" using that assms(2) Dispatch by (auto simp: holds_def)
    moreover have "\<forall>t1 t2 c. holds s t1 c \<and> holds s t2 c \<longrightarrow> t1 = t2"
      using assms(1) by (simp add: exclusive_inv_def)
    ultimately have "t' = t" by blast
    with t' assms(2) Dispatch show False by (simp add: exec_pc_def)
  qed
  with idle cb show ?thesis
    by (auto simp: Dispatch dispatch_step_def start_cb_def go_idle_def Let_def split: option.splits)
qed simp_all

text \<open>
  A step of worker \<open>t\<close> keeps the invariant if it leaves the other workers alone, changes only the
  state of coroutines \<open>t\<close> held or that are new, and claims only such coroutines or queued ones.
\<close>

lemma holds_other: "sc_pc s' t' = sc_pc s t' \<Longrightarrow> sc_cb s' t' = sc_cb s t' \<Longrightarrow> holds s' t' c = holds s t' c"
  by (simp add: holds_def)

lemma exclusive_facts:
  assumes "exclusive_inv s"
  shows "\<forall>x \<in> set (m_coroutines s). coe_valid x" "worker_ok s t"
    "holds s t1 c \<Longrightarrow> holds s t2 c \<Longrightarrow> t1 = t2" "holds s t c \<Longrightarrow> c \<in> sc_objects s"
    "holds s t c \<Longrightarrow> c \<notin> set (queued (m_coroutines s))"
    "c \<in> set (queued (m_coroutines s)) \<Longrightarrow> c \<in> sc_objects s" "distinct (queued (m_coroutines s))"
    "sc_state s c = EXEC \<Longrightarrow> \<exists>t. exec_pc s t c"
  using assms unfolding exclusive_inv_def by blast+

lemma exec_holds:
  assumes "worker_ok s t" and "exec_pc s t c"
  shows "holds s t c"
  using assms by (auto simp: exec_pc_def holds_def worker_ok_def)

lemma exclusive_update:
  assumes inv: "exclusive_inv s"
    and others: "\<And>t'. t' \<noteq> t \<Longrightarrow>
      sc_pc s' t' = sc_pc s t' \<and> sc_cb s' t' = sc_cb s t' \<and> sc_idle s' t' = sc_idle s t'"
    and state: "\<And>c. sc_state s' c \<noteq> sc_state s c \<Longrightarrow>
      holds s t c \<or> c \<in> set (queued (m_coroutines s)) \<or> c \<notin> sc_objects s"
    and claims: "\<And>c. holds s' t c \<Longrightarrow> c \<in> sc_objects s' \<and> c \<notin> set (queued (m_coroutines s'))
      \<and> (holds s t c \<or> c \<in> set (queued (m_coroutines s)) \<or> c \<notin> sc_objects s)"
    and objects: "sc_objects s \<subseteq> sc_objects s'"
    and queue: "\<forall>x \<in> set (m_coroutines s'). coe_valid x" "distinct (queued (m_coroutines s'))"
      "\<And>c. c \<in> set (queued (m_coroutines s')) \<Longrightarrow> c \<in> set (queued (m_coroutines s)) \<or> holds s t c"
    and self: "worker_ok s' t"
    and exec: "\<And>c. sc_state s' c = EXEC \<Longrightarrow> sc_state s c \<noteq> EXEC \<or> exec_pc s t c \<Longrightarrow> exec_pc s' t c"
  shows "exclusive_inv s'"
proof -
  note facts = exclusive_facts [OF inv]
  have other_holds: "holds s' t' c = holds s t' c" if "t' \<noteq> t" for t' c
    using others [OF that] by (simp add: holds_def)
  have apart: "\<not> holds s t' c" if "t' \<noteq> t" "holds s' t c" for t' c
    using that claims facts(3,4,5) by blast
  have keeps: "sc_state s' c = sc_state s c" if "t' \<noteq> t" "holds s t' c" for t' c
    using that state facts(3,4,5) by blast
  have "worker_ok s' t'" for t'
  proof (cases "t' = t")
    case False
    have "sc_state s' b = sc_state s b" if "sc_cb s t' = Some b" for b
      using keeps [OF False] that by (simp add: holds_def)
    with facts(2) [of t'] others [OF False] show ?thesis
      by (simp add: worker_ok_def split: option.splits)
  qed (simp add: self)
  moreover have "t1 = t2" if "holds s' t1 c" "holds s' t2 c" for t1 t2 c
    using that apart other_holds facts(3) by metis
  moreover have "c \<in> sc_objects s' \<and> c \<notin> set (queued (m_coroutines s'))" if "holds s' t' c" for t' c
  proof (cases "t' = t")
    case False
    then have "holds s t' c" using that other_holds by simp
    then show ?thesis using facts(3) [of _ c] facts(4,5) queue(3) objects False by blast
  qed (use that claims in blast)
  moreover have "set (queued (m_coroutines s')) \<subseteq> sc_objects s'"
    using queue(3) facts(4,6) objects by blast
  moreover have "\<exists>t'. exec_pc s' t' c" if c: "sc_state s' c = EXEC" for c
  proof (cases "sc_state s c = EXEC")
    case True
    then obtain t' where t': "exec_pc s t' c" using facts(8) by blast
    show ?thesis
    proof (cases "t' = t")
      case True
      with t' c exec show ?thesis by blast
    next
      case False
      with t' others [OF False] show ?thesis by (auto simp: exec_pc_def)
    qed
  qed (use c exec in blast)
  ultimately show ?thesis using queue(1,2) unfolding exclusive_inv_def by blast
qed

lemma holds_at: "sc_pc s t = Some p \<Longrightarrow> holds s t c \<longleftrightarrow> sc_cb s t = Some c \<or> cort_pc p = Some c"
  by (simp add: holds_def)

lemma worker_ok_at:
  "sc_pc s t = Some p \<Longrightarrow> worker_ok s t \<longleftrightarrow>
     (\<forall>c. cort_pc p = Some c \<longrightarrow> sc_cb s t \<noteq> Some c) \<and> (\<forall>c. cb_pc p = Some c \<longrightarrow> sc_cb s t = Some c)
     \<and> (\<forall>b. sc_cb s t = Some b \<and> cb_pc p = None \<longrightarrow> sc_state s b = INIT)
     \<and> (\<forall>x. p = Dispatch (Some x) \<longrightarrow> coe_valid x) \<and> (sc_idle s t = EXEC \<longleftrightarrow> p = InIdle)"
  by (simp add: worker_ok_def)

lemma exec_at: "sc_pc s t = Some p \<Longrightarrow> exec_pc s t c \<longleftrightarrow> p = InCort c \<or> p = InCb c"
  by (simp add: exec_pc_def)

text \<open>What the invariant says of worker \<open>t\<close> at position \<open>p\<close>, for the proofs of its steps.\<close>

lemma exclusive_at:
  assumes "exclusive_inv s" and "sc_pc s t = Some p"
  shows "\<And>c. cort_pc p = Some c \<Longrightarrow> c \<in> sc_objects s \<and> c \<notin> set (queued (m_coroutines s)) \<and> sc_cb s t \<noteq> Some c"
    and "\<And>c. sc_cb s t = Some c \<Longrightarrow> c \<in> sc_objects s \<and> c \<notin> set (queued (m_coroutines s))"
    and "\<And>c. cb_pc p = Some c \<Longrightarrow> sc_cb s t = Some c"
    and "\<And>b. sc_cb s t = Some b \<Longrightarrow> cb_pc p = None \<Longrightarrow> sc_state s b = INIT"
    and "sc_idle s t = EXEC \<longleftrightarrow> p = InIdle"
    and "\<forall>x \<in> set (m_coroutines s). coe_valid x" and "distinct (queued (m_coroutines s))"
    and "\<And>c. c \<in> set (queued (m_coroutines s)) \<Longrightarrow> c \<in> sc_objects s"
proof -
  note facts = exclusive_facts [OF assms(1)]
  have ok: "worker_ok s t" by (rule facts(2))
  have held: "sc_cb s t = Some c \<or> cort_pc p = Some c \<Longrightarrow>
      c \<in> sc_objects s \<and> c \<notin> set (queued (m_coroutines s))" for c
    using facts(4,5) [of t c] assms(2) by (simp add: holds_at)
  show "\<And>c. cort_pc p = Some c \<Longrightarrow> c \<in> sc_objects s \<and> c \<notin> set (queued (m_coroutines s)) \<and> sc_cb s t \<noteq> Some c"
    "\<And>c. sc_cb s t = Some c \<Longrightarrow> c \<in> sc_objects s \<and> c \<notin> set (queued (m_coroutines s))"
    using held ok assms(2) by (simp_all add: worker_ok_at)
  show "\<And>c. cb_pc p = Some c \<Longrightarrow> sc_cb s t = Some c"
    "\<And>b. sc_cb s t = Some b \<Longrightarrow> cb_pc p = None \<Longrightarrow> sc_state s b = INIT"
    "sc_idle s t = EXEC \<longleftrightarrow> p = InIdle"
    using ok assms(2) by (simp_all add: worker_ok_at)
qed (use exclusive_facts(1,6,7) [OF assms(1)] in auto)

lemmas at_simps = holds_at worker_ok_at exec_at

lemma exclusive_scan:
  assumes inv: "exclusive_inv s" and pc: "sc_pc s t = Some AtLoop" and step: "scan_step t s = Inr s'"
  shows "exclusive_inv s'"
proof -
  note at = exclusive_at [OF inv pc]
  show ?thesis
  proof (cases rule: pick_cases [OF at(6), of t "sc_state s", case_names none taken])
    case (none tk)
    then have s': "s' = goto t (Dispatch None) s" using step by (simp add: scan_step_def)
    show ?thesis
      by (rule exclusive_update [OF inv, of t]) (use at(2,4,5,6,7) pc in \<open>auto simp: s' at_simps\<close>)
  next
    case (taken pre x post tk)
    then have s': "s' = goto t (Dispatch (Some x))
        (s\<lparr>m_coroutines := pre @ post, m_activeThreadCount := m_activeThreadCount s + 1\<rparr>)"
      using step by (simp add: scan_step_def)
    have x: "coe_coroutine x = Some c \<Longrightarrow> c \<in> set (queued (m_coroutines s)) \<and> c \<notin> set (queued (pre @ post))" for c
      using at(7) taken(1) by auto
    have sub: "set (queued (pre @ post)) \<subseteq> set (queued (m_coroutines s))" "distinct (queued (pre @ post))"
      using at(7) taken(1) by (auto split: option.splits)
    have ok: "coe_valid x" "\<forall>y \<in> set (pre @ post). coe_valid y" using at(6) taken(1) by auto
    have new: "c \<in> sc_objects s \<and> c \<notin> set (queued (pre @ post)) \<and> sc_cb s t \<noteq> Some c"
      if "coe_coroutine x = Some c" for c
      using x [OF that] at(2) [of c] at(8) [of c] by blast
    show ?thesis
    proof (rule exclusive_update [OF inv, of t])
      fix c
      assume "holds s' t c"
      then have "sc_cb s t = Some c \<or> coe_coroutine x = Some c" by (simp add: s' at_simps)
      then show "c \<in> sc_objects s' \<and> c \<notin> set (queued (m_coroutines s'))
          \<and> (holds s t c \<or> c \<in> set (queued (m_coroutines s)) \<or> c \<notin> sc_objects s)"
        using at(2) [of c] new [of c] x [of c] sub(1) by (auto simp: s' at_simps pc)
    qed (use at(4,5) new sub ok pc in \<open>auto simp: s' at_simps\<close>)
  qed
qed

lemma go_idle_cases:
  assumes "go_idle t b s = Inr s'"
  obtains s1 where "s1 = s \<or> s1 = dec_active s" "sc_idle s t = TERMINATED" "s' = goto t Exited s1"
  | s1 where "s1 = s \<or> s1 = dec_active s" "s' = goto t InIdle
      (s1\<lparr>m_idleThreadCount := m_idleThreadCount s1 + 1, sc_idle := (sc_idle s1)(t := EXEC)\<rparr>)"
proof -
  define s1 where "s1 = (if b then dec_active s else s)"
  have "s1 = s \<or> s1 = dec_active s" "sc_idle s1 = sc_idle s" by (simp_all add: s1_def)
  with assms that(1,2) [of s1] show thesis
    by (auto simp: go_idle_def Let_def simp flip: s1_def split: if_splits)
qed

lemma start_cb_cases:
  assumes "start_cb t a s = Inr s'"
  obtains b where "sc_cb s t = Some b" "s' = goto t (InCb b) (set_state b EXEC s)"
  | "sc_cb s t = None" "s' = goto t (InCb a) (set_state a EXEC
      (s\<lparr>sc_objects := insert a (sc_objects s), sc_cb := (sc_cb s)(t \<mapsto> a)\<rparr>))"
  using assms by (cases "sc_cb s t") (auto simp: start_cb_def split: if_splits)

lemma dispatch_cases:
  assumes "dispatch_step t a r s = Inr s'"
  obtains (cort) x c where "r = Some x" "coe_coroutine x = Some c"
      "s' = goto t (InCort c) (set_state c EXEC s)"
  | (reuse) b where "sc_cb s t = Some b" "s' = goto t (InCb b) (set_state b EXEC s)"
  | (fresh) "sc_cb s t = None" "s' = goto t (InCb a) (set_state a EXEC
      (s\<lparr>sc_objects := insert a (sc_objects s), sc_cb := (sc_cb s)(t \<mapsto> a)\<rparr>))"
  | (leave) s1 where "s1 = s \<or> s1 = dec_active s" "sc_idle s t = TERMINATED" "s' = goto t Exited s1"
  | (idle) s1 where "s1 = s \<or> s1 = dec_active s" "s' = goto t InIdle
      (s1\<lparr>m_idleThreadCount := m_idleThreadCount s1 + 1, sc_idle := (sc_idle s1)(t := EXEC)\<rparr>)"
proof -
  have "(\<exists>x c. r = Some x \<and> coe_coroutine x = Some c \<and> s' = goto t (InCort c) (set_state c EXEC s))
      \<or> start_cb t a s = Inr s' \<or> (\<exists>b. go_idle t b s = Inr s')"
    using assms by (auto simp: dispatch_step_def split: option.splits if_splits)
  then consider (1) x c where "r = Some x" "coe_coroutine x = Some c" "s' = goto t (InCort c) (set_state c EXEC s)"
    | (2) "start_cb t a s = Inr s'" | (3) b where "go_idle t b s = Inr s'" by blast
  then show thesis
  proof cases
    case 1
    then show thesis by (rule that(1))
  next
    case 2
    then show thesis by (rule start_cb_cases) (rule that(2,3), assumption+)+
  next
    case 3
    then show thesis by (rule go_idle_cases) (rule that(4,5), assumption+)+
  qed
qed

lemma exclusive_dispatch:
  assumes inv: "exclusive_inv s" and pc: "sc_pc s t = Some (Dispatch r)" and a: "a \<notin> sc_objects s"
    and step: "dispatch_step t a r s = Inr s'"
  shows "exclusive_inv s'"
proof -
  note at = exclusive_at [OF inv pc]
  from step show ?thesis
  proof (cases rule: dispatch_cases)
    case (cort x c)
    with at show ?thesis
      by (intro exclusive_update [OF inv, of t]) (auto simp: cort(3) at_simps pc split: if_splits)
  next
    case (reuse b)
    with at show ?thesis
      by (intro exclusive_update [OF inv, of t]) (auto simp: reuse(2) at_simps pc split: if_splits)
  next
    case fresh
    with at a show ?thesis
      by (intro exclusive_update [OF inv, of t]) (auto simp: fresh(2) at_simps pc split: if_splits)
  next
    case (leave s1)
    with at show ?thesis
      by (intro exclusive_update [OF inv, of t]) (auto simp: leave(3) at_simps pc)
  next
    case (idle s1)
    with at show ?thesis
      by (intro exclusive_update [OF inv, of t]) (auto simp: idle(2) at_simps pc)
  qed
qed

text \<open>
  The steps behind \<open>Dispatch\<close>: \<open>t\<close> moves from \<open>p\<close> to \<open>p'\<close>, may give up its
  \<open>cb_coroutine\<close>, and may queue the coroutine it held.
\<close>

lemma exclusive_move:
  assumes inv: "exclusive_inv s" and pc: "sc_pc s t = Some p"
    and pc': "sc_pc s' = (sc_pc s)(t \<mapsto> p')"
    and idle: "sc_idle s' = (sc_idle s)(t := i)" "i = EXEC \<longleftrightarrow> p' = InIdle"
    and cb: "sc_cb s' = (sc_cb s)(t := b)" "b = None \<or> b = sc_cb s t"
    and objects: "sc_objects s' = sc_objects s"
    and cort: "cort_pc p' = None \<or> cort_pc p' = cort_pc p" "\<And>c. cb_pc p' = Some c \<Longrightarrow> b = Some c"
    and other: "\<And>r. p' \<noteq> Dispatch r" "\<And>c. p' \<noteq> InCort c" "\<And>c. p' \<noteq> InCb c"
    and state: "\<And>c. sc_state s' c \<noteq> sc_state s c \<Longrightarrow>
      (cort_pc p = Some c \<or> cb_pc p = Some c) \<and> sc_state s' c \<noteq> EXEC"
      "\<And>c. p = InCort c \<or> p = InCb c \<Longrightarrow> sc_state s' c \<noteq> EXEC"
      "\<And>c. b = Some c \<Longrightarrow> cb_pc p' = None \<Longrightarrow> sc_state s' c = INIT"
    and queue: "m_coroutines s' = m_coroutines s
      \<or> (\<exists>c. m_coroutines s' = m_coroutines s @ [coe_of_cort (Some c) (- 1)]
           \<and> (cort_pc p = Some c \<or> cb_pc p = Some c) \<and> b \<noteq> Some c \<and> cort_pc p' = None)"
  shows "exclusive_inv s'"
proof (rule exclusive_update [OF inv, of t])
  note at = exclusive_at [OF inv pc]
  have pct: "sc_pc s' t = Some p'" using pc' by simp
  show "distinct (queued (m_coroutines s'))" "\<forall>x \<in> set (m_coroutines s'). coe_valid x"
    "\<And>c. c \<in> set (queued (m_coroutines s')) \<Longrightarrow> c \<in> set (queued (m_coroutines s)) \<or> holds s t c"
    using queue at(1,2,3,6,7) by (auto simp: at_simps pc coe_of_cort_def coe_valid_def)
  show "c \<in> sc_objects s' \<and> c \<notin> set (queued (m_coroutines s'))
      \<and> (holds s t c \<or> c \<in> set (queued (m_coroutines s)) \<or> c \<notin> sc_objects s)"
    if "holds s' t c" for c
  proof -
    have "b = Some c \<or> cort_pc p' = Some c" using that pct cb(1) by (simp add: at_simps)
    moreover have held: "sc_cb s t = Some c \<or> cort_pc p = Some c"
      using calculation cb(2) cort(1) by auto
    moreover have "c \<in> sc_objects s \<and> c \<notin> set (queued (m_coroutines s))"
      using held at(1,2) [of c] by blast
    moreover have "c \<notin> set (queued (m_coroutines s'))"
    proof -
      from queue consider (same) "m_coroutines s' = m_coroutines s"
        | (new) c' where "m_coroutines s' = m_coroutines s @ [coe_of_cort (Some c') (- 1)]"
            "b \<noteq> Some c'" "cort_pc p' = None" by blast
      then show ?thesis by cases (use calculation in \<open>auto simp: coe_of_cort_def\<close>)
    qed
    ultimately show ?thesis using objects pc by (simp add: holds_at)
  qed
  show "worker_ok s' t"
    unfolding worker_ok_at [OF pct]
  proof (intro conjI allI impI)
    show "sc_cb s' t \<noteq> Some c" if "cort_pc p' = Some c" for c
      using that cb cort(1) at(1) [of c] by auto
    show "sc_cb s' t = Some c" if "cb_pc p' = Some c" for c using cort(2) [OF that] cb(1) by simp
    show "sc_state s' c = INIT" if "sc_cb s' t = Some c \<and> cb_pc p' = None" for c
      using state(3) [of c] that cb(1) by simp
    show "coe_valid x" if "p' = Dispatch (Some x)" for x using that other(1) by blast
    show "sc_idle s' t = EXEC \<longleftrightarrow> p' = InIdle" using idle by simp
  qed
  show "holds s t c \<or> c \<in> set (queued (m_coroutines s)) \<or> c \<notin> sc_objects s"
    if "sc_state s' c \<noteq> sc_state s c" for c
    using state(1) [OF that] at(3) [of c] pc by (auto simp: holds_at)
  show "exec_pc s' t c" if "sc_state s' c = EXEC" "sc_state s c \<noteq> EXEC \<or> exec_pc s t c" for c
    using that state(1,2) [of c] pc by (auto simp: exec_at)
qed (simp_all add: pc' idle(1) cb(1) objects)

lemma exclusive_worker:
  assumes inv: "exclusive_inv s" and pc: "sc_pc s t = Some p" and a: "a \<notin> sc_objects s"
    and st: "leaves st" and step: "worker_step t st a p s = Inr s'"
  shows "exclusive_inv s'"
proof -
  note at = exclusive_at [OF inv pc]
  have st': "st \<noteq> EXEC" using st by (auto simp: leaves_def)
  note move = exclusive_move [OF inv pc]
  show ?thesis
  proof (cases p)
    case AtLoop
    with inv pc step show ?thesis by (auto intro: exclusive_scan)
  next
    case (Dispatch r)
    with inv pc a step show ?thesis by (auto intro: exclusive_dispatch)
  next
    case (InCort c)
    show ?thesis by (rule move [of s' "LeaveCort c" "sc_idle s t" "sc_cb s t"]) (use step at st' InCort in \<open>auto split: if_splits\<close>)
  next
    case (LeaveCort c)
    show ?thesis by (rule move [of s' "BackCort c" "sc_idle s t" "sc_cb s t"]) (use step at LeaveCort in auto)
  next
    case (BackCort c)
    show ?thesis by (rule move [of s' "AfterCort c" "sc_idle s t" "sc_cb s t"]) (use step at BackCort in auto)
  next
    case (AfterCort c)
    show ?thesis
      by (rule move [of s' AtLoop "sc_idle s t" "sc_cb s t"])
        (use step at AfterCort in \<open>auto simp: after_cort_def split: if_splits\<close>)
  next
    case (InCb c)
    show ?thesis by (rule move [of s' "LeaveCb c" "sc_idle s t" "sc_cb s t"]) (use step at st' InCb in \<open>auto split: if_splits\<close>)
  next
    case (LeaveCb c)
    show ?thesis by (rule move [of s' "BackCb c" "sc_idle s t" "sc_cb s t"]) (use step at LeaveCb in auto)
  next
    case (BackCb c)
    show ?thesis by (rule move [of s' "AfterCb c" "sc_idle s t" "sc_cb s t"]) (use step at BackCb in auto)
  next
    case (AfterCb c)
    show ?thesis
      by (rule move [of s' AtLoop "sc_idle s t"
            "if sc_state s c = EXCEPT \<or> sc_state s c = TERMINATED then sc_cb s t else None"])
        (use step at AfterCb in \<open>auto simp: after_cb_def split: if_splits\<close>)
  next
    case InIdle
    show ?thesis
      by (rule move [of s' BackIdle "if stopping s then TERMINATED else HOLD" "sc_cb s t"])
        (use step at InIdle in \<open>auto simp: idle_step_def split: if_splits\<close>)
  next
    case BackIdle
    show ?thesis
      by (rule move [of s' AtLoop "sc_idle s' t" "sc_cb s t"])
        (use step at BackIdle in \<open>auto simp: after_idle_def split: if_splits\<close>)
  next
    case Exited
    with inv step show ?thesis by simp
  qed
qed

text \<open>Who holds what does not depend on the queue and the flags.\<close>

lemma worker_frame [simp]:
  "holds (schedule x s) t c = holds s t c" "worker_ok (schedule x s) t = worker_ok s t"
  "exec_pc (schedule x s) t c = exec_pc s t c"
  "holds (s\<lparr>m_autoStop := b\<rparr>) t c = holds s t c" "worker_ok (s\<lparr>m_autoStop := b\<rparr>) t = worker_ok s t"
  "exec_pc (s\<lparr>m_autoStop := b\<rparr>) t c = exec_pc s t c"
  "holds (s\<lparr>m_stopping := b\<rparr>) t c = holds s t c" "worker_ok (s\<lparr>m_stopping := b\<rparr>) t = worker_ok s t"
  "exec_pc (s\<lparr>m_stopping := b\<rparr>) t c = exec_pc s t c"
  by (simp_all add: holds_def worker_ok_def exec_pc_def split: option.split)

lemma exclusive_client:
  assumes inv: "exclusive_inv s" and x: "unclaimed s x"
  shows "exclusive_inv (schedule x s)"
  unfolding exclusive_inv_def
proof (intro conjI)
  note facts = exclusive_facts [OF inv]
  have c: "c \<in> sc_objects s \<and> c \<notin> set (queued (m_coroutines s)) \<and> (\<forall>t. \<not> holds s t c)"
    if "coe_coroutine x = Some c" for c
    using x that by (simp add: unclaimed_def)
  show "\<forall>t1 t2 c. holds (schedule x s) t1 c \<and> holds (schedule x s) t2 c \<longrightarrow> t1 = t2"
    using facts(3) by simp blast
  show "\<forall>t c. holds (schedule x s) t c \<longrightarrow>
      c \<in> sc_objects (schedule x s) \<and> c \<notin> set (queued (m_coroutines (schedule x s)))"
    using facts(4,5) c by (auto split: option.splits)
  show "\<forall>x' \<in> set (m_coroutines (schedule x s)). coe_valid x'" using facts(1) by auto
  show "\<forall>t. worker_ok (schedule x s) t" using facts(2) by simp
  show "set (queued (m_coroutines (schedule x s))) \<subseteq> sc_objects (schedule x s)"
    using facts(6) c by (auto split: option.splits)
  show "distinct (queued (m_coroutines (schedule x s)))" using facts(7) c by (auto split: option.splits)
  show "\<forall>c. sc_state (schedule x s) c = EXEC \<longrightarrow> (\<exists>t. exec_pc (schedule x s) t c)" using facts(8) by simp
qed

lemma exclusive_step:
  assumes step: "sched_step env s s'" and env: "\<And>s x. env s x \<Longrightarrow> unclaimed s x" and inv: "exclusive_inv s"
  shows "exclusive_inv s'"
  using step
proof cases
  case (worker t p st a)
  show ?thesis by (rule exclusive_worker [OF inv worker(1,3,2,4)])
next
  case (client x)
  show ?thesis unfolding client(1) by (rule exclusive_client [OF inv env [OF client(2)]])
qed (use inv in \<open>simp_all add: exclusive_inv_def\<close>)

interpretation exclusive: invariant_system started "sched_step unclaimed" exclusive_inv
proof unfold_locales
  show "exclusive_inv s" if "started s" for s :: "'a sched" by (rule exclusive_started [OF that])
  show "exclusive_inv s'" if "exclusive_inv s" "sched_step unclaimed s s'" for s s' :: "'a sched"
    by (rule exclusive_step [OF that(2) _ that(1)])
qed

section \<open>One worker per coroutine\<close>

text \<open>C3. If clients schedule only coroutines that are neither queued nor held by a worker, then in
  every reachable state each coroutine is held by at most one worker, none that is held is queued,
  none is queued twice, and a coroutine in state \<open>EXEC\<close> is one that a worker is running.\<close>

theorem one_worker_per_coroutine:
  assumes "reach started (sched_step unclaimed) s"
  shows "(holds s t1 c \<and> holds s t2 c \<longrightarrow> t1 = t2)
    \<and> (holds s t1 c \<longrightarrow> c \<notin> set (queued (m_coroutines s)))
    \<and> distinct (queued (m_coroutines s))
    \<and> (sc_state s c = EXEC \<longrightarrow> (\<exists>t. exec_pc s t c))"
  using exclusive_facts(3,5,7,8) [OF exclusive.reach_inv [OF assms]] by blast

text \<open>C4. Under the same discipline every worker can always take its next step: none of the
  assertions in \<open>run\<close>, \<open>swapIn\<close> and \<open>reset\<close> fails.\<close>

theorem workers_never_fail:
  assumes "reach started (sched_step unclaimed) s" and "sc_pc s t = Some p"
  shows "\<exists>s'. worker_step t st a p s = Inr s'"
  by (rule exclusive_progress [OF exclusive.reach_inv [OF assms(1)] assms(2)])

end
