(* ===== verification/Scheduler_Drain.thy ===== *)
theory Scheduler_Drain
  imports Scheduler_Exclusive
begin

text \<open>
  The workers do not leave work behind: as long as entries are scheduled while some worker is still
  going to scan the queue, workers leave their loops only when the queue is empty. Without the
  clients' discipline things go wrong in the two ways shown at the end.
\<close>

section \<open>What a step leaves alone\<close>

lemma worker_others:
  assumes "worker_step t st a p s = Inr s'" and "t' \<noteq> t"
  shows "sc_pc s' t' = sc_pc s t' \<and> sc_idle s' t' = sc_idle s t'"
proof (cases p)
  case AtLoop
  with assms show ?thesis by (auto simp: scan_step_def obind_Inr_iff)
next
  case (Dispatch r)
  with assms(1) have "dispatch_step t a r s = Inr s'" by simp
  then show ?thesis using assms(2) by (cases rule: dispatch_cases) auto
qed (use assms in \<open>auto simp: worker_defs split: if_splits\<close>)

lemma worker_state:
  assumes inv: "exclusive_inv s" and pc: "sc_pc s t = Some p" and a: "a \<notin> sc_objects s"
    and step: "worker_step t st a p s = Inr s'" and c: "sc_state s' c \<noteq> sc_state s c"
  shows "holds s t c \<or> c \<notin> sc_objects s"
proof (cases p)
  case AtLoop
  with step c show ?thesis by (auto simp: scan_step_def obind_Inr_iff)
next
  case (Dispatch r)
  with step have "dispatch_step t a r s = Inr s'" by simp
  then show ?thesis
    using c a pc Dispatch by (cases rule: dispatch_cases) (auto simp: holds_at split: if_splits)
next
  case (InCb b)
  with exclusive_at(3) [OF inv pc, of b] step c pc show ?thesis by (auto simp: holds_at split: if_splits)
next
  case (AfterCb b)
  with exclusive_at(3) [OF inv pc, of b] step c pc show ?thesis
    by (auto simp: holds_at after_cb_def split: if_splits)
qed (use step c pc in \<open>auto simp: holds_at after_cort_def idle_step_def after_idle_def split: if_splits\<close>)

section \<open>Workers that will scan the queue again\<close>

text \<open>A worker leaves its loop when it finds nothing to run and its idle coroutine has ended.\<close>

definition working :: "'task sched \<Rightarrow> int \<Rightarrow> bool" where
  "working s t \<longleftrightarrow> (\<exists>p. sc_pc s t = Some p \<and> p \<noteq> Exited \<and> \<not> (p = Dispatch None \<and> sc_idle s t = TERMINATED))"

text \<open>An entry that can be run: a task, or a coroutine that has not ended.\<close>

definition live :: "'task sched \<Rightarrow> 'task coe \<Rightarrow> bool" where
  "live s x \<longleftrightarrow> coe_cb x \<noteq> None
     \<or> (\<exists>c. coe_coroutine x = Some c \<and> sc_state s c \<noteq> TERMINATED \<and> sc_state s c \<noteq> EXCEPT)"

text \<open>
  What the clients owe: an unclaimed entry that can be run, for any thread, while some worker is
  going to scan the queue (for instance the one that runs the task that schedules it).
\<close>

definition tended :: "'task sched \<Rightarrow> 'task coe \<Rightarrow> bool" where
  "tended s x \<longleftrightarrow> unclaimed s x \<and> live s x \<and> coe_thread x = - 1 \<and> (\<exists>t. working s t)"

definition drain_inv :: "'task sched \<Rightarrow> bool" where
  "drain_inv s \<longleftrightarrow> exclusive_inv s
     \<and> (\<forall>x \<in> set (m_coroutines s). coe_thread x = - 1 \<and> live s x)
     \<and> (\<forall>t x. sc_pc s t = Some (Dispatch (Some x)) \<longrightarrow> live s x)
     \<and> (m_coroutines s \<noteq> [] \<longrightarrow> (\<exists>t. working s t))"

lemma mem_queued: "c \<in> set (queued q) \<longleftrightarrow> (\<exists>x \<in> set q. coe_coroutine x = Some c)"
  by (induction q) (auto split: option.splits)

lemma working_other:
  assumes "worker_step t st a p s = Inr s'" and "working s t'" and "t' \<noteq> t"
  shows "working s' t'"
  using worker_others [OF assms(1,3)] assms(2) by (simp add: working_def)

lemma drain_queue:
  assumes inv: "exclusive_inv s" and pc: "sc_pc s t = Some p" and a: "a \<notin> sc_objects s"
    and step: "worker_step t st a p s = Inr s'" and live: "live s x"
    and x: "x \<in> set (m_coroutines s) \<or> (\<exists>t'. t' \<noteq> t \<and> sc_pc s t' = Some (Dispatch (Some x)))"
  shows "live s' x"
proof -
  note facts = exclusive_facts [OF inv]
  have "sc_state s' c = sc_state s c" if c: "coe_coroutine x = Some c" for c
  proof (rule ccontr)
    assume "sc_state s' c \<noteq> sc_state s c"
    then have t: "holds s t c \<or> c \<notin> sc_objects s" by (rule worker_state [OF inv pc a step])
    from x show False
    proof
      assume "x \<in> set (m_coroutines s)"
      then have "c \<in> set (queued (m_coroutines s))" using c by (auto simp: mem_queued)
      with t facts(5,6) show False by blast
    next
      assume "\<exists>t'. t' \<noteq> t \<and> sc_pc s t' = Some (Dispatch (Some x))"
      then obtain t' where "t' \<noteq> t" "holds s t' c" using c by (auto simp: holds_def)
      with t facts(3,4) show False by blast
    qed
  qed
  with live show ?thesis by (auto simp: live_def)
qed

lemma queue_growth:
  assumes "worker_step t st a p s = Inr s'" and "x \<in> set (m_coroutines s')"
    and "\<forall>x \<in> set (m_coroutines s). coe_valid x"
  shows "x \<in> set (m_coroutines s) \<or> (coe_thread x = - 1 \<and> live s' x)"
proof (cases p)
  case AtLoop
  show ?thesis
    by (cases rule: pick_cases [OF assms(3), of t "sc_state s", case_names none taken])
      (use assms(1,2) AtLoop in \<open>auto simp: scan_step_def\<close>)
next
  case (Dispatch r)
  with assms(1) have "dispatch_step t a r s = Inr s'" by simp
  then show ?thesis using assms(2) by (cases rule: dispatch_cases) auto
qed (use assms(1,2) in \<open>auto simp: after_cort_def after_cb_def idle_step_def after_idle_def
      coe_of_cort_def live_def split: if_splits\<close>)

lemma dispatch_entry:
  assumes "worker_step t st a p s = Inr s'" and "sc_pc s' t = Some (Dispatch (Some x))"
    and "\<forall>x \<in> set (m_coroutines s). coe_valid x" and "p \<noteq> Exited"
  shows "x \<in> set (m_coroutines s) \<and> sc_state s' = sc_state s"
proof (cases p)
  case AtLoop
  show ?thesis
    by (cases rule: pick_cases [OF assms(3), of t "sc_state s", case_names none taken])
      (use assms(1,2) AtLoop in \<open>auto simp: scan_step_def\<close>)
next
  case (Dispatch r)
  with assms(1) have "dispatch_step t a r s = Inr s'" by simp
  then show ?thesis using assms(2) by (cases rule: dispatch_cases) auto
qed (use assms(1,2,4) in \<open>auto simp: after_cort_def after_cb_def idle_step_def after_idle_def split: if_splits\<close>)

text \<open>An entry that can be run is run.\<close>

lemma dispatch_live:
  assumes "dispatch_step t a (Some x) s = Inr s'" and "live s x"
  shows "working s' t"
  using assms by (auto simp: dispatch_step_def live_def start_cb_def working_def split: option.splits if_splits)

lemma drain_working:
  assumes drain: "drain_inv s" and pc: "sc_pc s t = Some p" and step: "worker_step t st a p s = Inr s'"
    and queue: "m_coroutines s' \<noteq> []"
  shows "\<exists>t'. working s' t'"
proof (cases p)
  case AtLoop
  have inv: "exclusive_inv s" using drain by (simp add: drain_inv_def)
  note at = exclusive_at [OF inv pc]
  show ?thesis
  proof (cases rule: pick_cases [OF at(6), of t "sc_state s", case_names none taken])
    case (none tk)
    then have s': "s' = goto t (Dispatch None) s" using step AtLoop by (simp add: scan_step_def)
    with queue obtain x where x: "x \<in> set (m_coroutines s)" by (cases "m_coroutines s") auto
    then have "coe_thread x = - 1" "\<not> eligible t (sc_state s) x" using drain none(2) by (auto simp: drain_inv_def)
    then obtain c where "sc_state s c = EXEC" by (auto simp: eligible_defs split: option.splits)
    then obtain t' where t': "exec_pc s t' c" using exclusive_facts(8) [OF inv] by blast
    then have "t' \<noteq> t" using pc AtLoop by (auto simp: exec_at)
    with t' have "working s' t'" by (auto simp: s' working_def exec_pc_def)
    then show ?thesis ..
  next
    case (taken pre x post tk)
    then have "working s' t" using step AtLoop by (auto simp: scan_step_def working_def)
    then show ?thesis ..
  qed
next
  case (Dispatch r)
  then have disp: "dispatch_step t a r s = Inr s'" using step by simp
  show ?thesis
  proof (cases r)
    case (Some x)
    then have "live s x" using drain pc Dispatch by (auto simp: drain_inv_def)
    with disp Some show ?thesis using dispatch_live by blast
  next
    case None
    have "m_coroutines s = m_coroutines s'" using disp by (cases rule: dispatch_cases) auto
    with drain queue obtain t' where t': "working s t'" by (auto simp: drain_inv_def)
    show ?thesis
    proof (cases "t' = t")
      case True
      with t' pc Dispatch None have "sc_idle s t \<noteq> TERMINATED" by (auto simp: working_def)
      with disp None have "working s' t"
        by (auto simp: dispatch_step_def go_idle_def working_def split: if_splits)
      then show ?thesis ..
    qed (use working_other [OF step t'] in blast)
  qed
next
  case Exited
  with step drain queue show ?thesis by (auto simp: drain_inv_def)
qed (use step in \<open>auto simp: working_def after_cort_def after_cb_def idle_step_def after_idle_def
      intro!: exI [of _ t] split: if_splits\<close>)

lemma drain_worker:
  assumes drain: "drain_inv s" and pc: "sc_pc s t = Some p" and a: "a \<notin> sc_objects s"
    and st: "leaves st" and step: "worker_step t st a p s = Inr s'"
  shows "drain_inv s'"
  unfolding drain_inv_def
proof (intro conjI ballI allI impI)
  have inv: "exclusive_inv s" using drain by (simp add: drain_inv_def)
  note valid = exclusive_facts(1) [OF inv]
  note live = drain_queue [OF inv pc a step]
  show "exclusive_inv s'" by (rule exclusive_worker [OF inv pc a st step])
  show "coe_thread x = - 1" "live s' x" if "x \<in> set (m_coroutines s')" for x
    using queue_growth [OF step that valid] drain live [of x] by (auto simp: drain_inv_def)
  show "live s' x" if pc': "sc_pc s' t' = Some (Dispatch (Some x))" for t' x
  proof (cases "t' = t")
    case True
    show ?thesis
    proof (cases "p = Exited")
      case False
      with dispatch_entry [OF step _ valid] True pc' drain show ?thesis by (auto simp: drain_inv_def live_def)
    qed (use step pc' drain in \<open>auto simp: drain_inv_def\<close>)
  next
    case False
    then have pct: "sc_pc s t' = Some (Dispatch (Some x))" using pc' worker_others [OF step] by simp
    then have "live s x" using drain by (simp add: drain_inv_def)
    then show ?thesis by (rule live) (use pct False in blast)
  qed
  show "\<exists>t'. working s' t'" if "m_coroutines s' \<noteq> []" by (rule drain_working [OF drain pc step that])
qed

lemma drain_frame [simp]:
  "live (schedule x s) y = live s y" "working (schedule x s) t = working s t"
  "live (s\<lparr>m_autoStop := b\<rparr>) y = live s y" "working (s\<lparr>m_autoStop := b\<rparr>) t = working s t"
  "live (s\<lparr>m_stopping := b\<rparr>) y = live s y" "working (s\<lparr>m_stopping := b\<rparr>) t = working s t"
  by (simp_all add: live_def working_def)

lemma drain_step:
  assumes step: "sched_step tended s s'" and drain: "drain_inv s"
  shows "drain_inv s'"
proof -
  have "exclusive_inv s'"
    by (rule exclusive_step [OF step]) (use drain in \<open>auto simp: tended_def drain_inv_def\<close>)
  from step show ?thesis
  proof cases
    case (worker t p st a)
    show ?thesis by (rule drain_worker [OF drain worker(1,3,2,4)])
  next
    case (client x)
    with drain \<open>exclusive_inv s'\<close> show ?thesis by (auto simp: drain_inv_def tended_def)
  qed (use drain \<open>exclusive_inv s'\<close> in \<open>auto simp: drain_inv_def\<close>)
qed

lemma drain_started: "started s \<Longrightarrow> drain_inv s"
  by (frule exclusive_started, erule started.cases) (auto simp: drain_inv_def split: if_splits)

interpretation drain: invariant_system started "sched_step tended" drain_inv
proof unfold_locales
  show "drain_inv s" if "started s" for s :: "'a sched" by (rule drain_started [OF that])
  show "drain_inv s'" if "drain_inv s" "sched_step tended s s'" for s s' :: "'a sched"
    by (rule drain_step [OF that(2,1)])
qed

text \<open>No work is left behind: if clients schedule unclaimed entries for any thread while some
  worker is still going to scan the queue, then whenever the queue has an entry some worker is
  still going to scan it. So when all workers have left their loops the queue is empty.\<close>

theorem no_work_left_behind:
  assumes "reach started (sched_step tended) s" and "\<forall>t p. sc_pc s t = Some p \<longrightarrow> p = Exited"
  shows "m_coroutines s = []"
  using drain.reach_inv [OF assms(1)] assms(2) by (auto simp: drain_inv_def working_def)

section \<open>Runs\<close>

text \<open>One step of worker \<open>t\<close>, whose task leaves in state \<open>st\<close>; nothing happens when it has none.\<close>

definition advance :: "int \<Rightarrow> cort_state \<Rightarrow> addr \<Rightarrow> 'task sched \<Rightarrow> 'task sched" where
  "advance t st a s =
     (case sc_pc s t of
        None \<Rightarrow> s
      | Some p \<Rightarrow> (case worker_step t st a p s of Inl _ \<Rightarrow> s | Inr s' \<Rightarrow> s'))"

lemma reach_advance:
  "reach started (sched_step env) s \<Longrightarrow> leaves st \<Longrightarrow> a \<notin> sc_objects s \<Longrightarrow>
     reach started (sched_step env) (advance t st a s)"
  by (auto simp: advance_def split: option.split sum.split intro: reach_step sched_step.worker)

lemma reach_client:
  "reach started (sched_step env) s \<Longrightarrow> env s x \<Longrightarrow> reach started (sched_step env) (schedule x s)"
  by (rule reach_step [of _ _ s]) (auto intro: sched_step.client)

text \<open>Workers 1 and 2, and the coroutine at address 0.\<close>

definition pair_sched :: "unit sched" where
  "pair_sched =
     \<lparr>m_coroutines = [], m_activeThreadCount = 0, m_idleThreadCount = 0, m_stopping = False,
      m_autoStop = False, sc_state = (\<lambda>_. INIT), sc_objects = {0},
      sc_pc = (\<lambda>t. if t = 1 \<or> t = 2 then Some AtLoop else None), sc_idle = (\<lambda>_. INIT), sc_cb = (\<lambda>_. None)\<rparr>"

lemma pair_reach: "reach started (sched_step env) pair_sched"
proof (rule reach_init)
  have "finite {t :: int. t = 1 \<or> t = 2}" by simp
  then show "started pair_sched" unfolding pair_sched_def by (rule started.intros) simp
qed

abbreviation entry0 :: "unit coe" where
  "entry0 \<equiv> coe_of_cort (Some 0) (- 1)"

lemmas run_simps = advance_def worker_defs pair_sched_def coe_of_cort_def goto_def set_state_def
  schedule_def scheduleNoLock_def dec_active_def coe_valid_def leaves_def

text \<open>Worker 1 has taken coroutine 0 and is running it.\<close>

definition pair_running :: "unit sched" where
  "pair_running = advance 1 HOLD 9 (advance 1 HOLD 9 (schedule entry0 pair_sched))"

lemma pair_running_eq:
  "pair_running = pair_sched\<lparr>m_activeThreadCount := 1, sc_state := (\<lambda>_. INIT)(0 := EXEC),
     sc_pc := (sc_pc pair_sched)(1 \<mapsto> InCort 0)\<rparr>"
  by (simp add: pair_running_def run_simps)

lemma pair_running_reach:
  assumes "env pair_sched entry0"
  shows "reach started (sched_step env) pair_running"
  unfolding pair_running_def
  by (intro reach_advance reach_client pair_reach assms) (simp_all add: run_simps)

end
