(* ===== verification/Scheduler_Races.thy ===== *)
theory Scheduler_Races
  imports Scheduler_Drain
begin

text \<open>
  Runs of the scheduler: the witnesses of its theorems, and the three runs that show what the code
  does not exclude (a coroutine that schedules itself, and \<open>stopping()\<close> holding too early).
\<close>

section \<open>Witnesses\<close>

lemma pair_tended: "tended pair_sched entry0"
  by (auto simp: tended_def unclaimed_def live_def working_def holds_def pair_sched_def coe_of_cort_def)

lemma pair_unclaimed: "unclaimed pair_sched entry0"
  using pair_tended by (simp add: tended_def)

theorem one_worker_per_coroutine_witness:
  "holds pair_running 1 0 \<and> \<not> holds pair_running 2 0 \<and> sc_state pair_running 0 = EXEC"
proof -
  have one: "holds pair_running 1 0"
    by (simp add: holds_def pair_running_eq)
  have "holds pair_running 1 0 \<and> holds pair_running 2 0 \<longrightarrow> (1 :: int) = 2"
    by (rule conjunct1 [OF one_worker_per_coroutine [OF pair_running_reach [of unclaimed, OF pair_unclaimed]]])
  with one have "\<not> holds pair_running 2 0" by simp
  with one show ?thesis by (simp add: pair_running_eq)
qed

theorem workers_never_fail_witness:
  "sc_pc pair_running 1 = Some (InCort 0) \<and> (\<exists>s'. worker_step 1 READY 9 (InCort 0) pair_running = Inr s')"
proof -
  have pc: "sc_pc pair_running 1 = Some (InCort 0)" by (simp add: pair_running_eq)
  then show ?thesis
    using workers_never_fail [OF pair_running_reach [of unclaimed, OF pair_unclaimed] pc] by blast
qed

text \<open>One worker; \<open>stop\<close> has set both flags, and the worker has left its loop.\<close>

definition lone_exited :: "unit sched" where
  "lone_exited =
     (let go = advance 1 HOLD 9
      in go (go (go (go (go (go (example_sched\<lparr>m_autoStop := True\<rparr>\<lparr>m_stopping := True\<rparr>)))))))"

theorem no_work_left_behind_witness:
  "sc_pc lone_exited 1 = Some Exited \<and> m_coroutines lone_exited = []"
proof -
  have "reach started (sched_step tended) (example_sched\<lparr>m_autoStop := True\<rparr>)"
    by (rule reach_step, rule reach_init, rule example_started) (rule sched_step.auto_stop)
  then have flags: "reach started (sched_step tended) (example_sched\<lparr>m_autoStop := True\<rparr>\<lparr>m_stopping := True\<rparr>)"
    by (rule reach_step) (rule sched_step.stop_flag)
  have "reach started (sched_step tended) lone_exited"
    unfolding lone_exited_def Let_def
    by (intro reach_advance flags) (simp_all add: run_simps example_sched_def stopping_def)
  moreover have eq: "sc_pc lone_exited = (\<lambda>t. if t = 1 then Some Exited else None)"
    by (simp add: lone_exited_def Let_def run_simps example_sched_def stopping_def fun_eq_iff)
  moreover from eq have "\<forall>t p. sc_pc lone_exited t = Some p \<longrightarrow> p = Exited"
    by (simp split: if_splits)
  ultimately have "m_coroutines lone_exited = []" using no_work_left_behind by blast
  with eq show ?thesis by simp
qed

section \<open>A coroutine that schedules itself\<close>

text \<open>
  A running coroutine may put itself into the queue and then sleep, so that it is run again. The
  queue entry becomes eligible as soon as the coroutine has left state \<open>EXEC\<close>, before its thread has
  left its stack.
\<close>

definition self_scheduled :: "'task sched \<Rightarrow> 'task coe \<Rightarrow> bool" where
  "self_scheduled s x \<longleftrightarrow> unclaimed s x \<or> (\<exists>t c. exec_pc s t c \<and> x = coe_of_cort (Some c) (- 1))"

definition on_stack :: "'task sched \<Rightarrow> int \<Rightarrow> addr \<Rightarrow> bool" where
  "on_stack s t c \<longleftrightarrow> sc_pc s t \<in> {Some (InCort c), Some (LeaveCort c), Some (InCb c), Some (LeaveCb c)}"

lemma running_self:
  "reach started (sched_step self_scheduled) (schedule entry0 pair_running)"
  by (intro reach_client pair_running_reach)
    (auto simp: self_scheduled_def pair_unclaimed exec_pc_def pair_running_eq)

text \<open>C38. A coroutine that schedules itself and then sleeps can be started by a second worker while
  the first is still on its stack, between setting the coroutine's state and saving its registers:
  the check of \<open>EXEC\<close> in the scan does not exclude that two threads execute on one stack.\<close>

theorem self_scheduling_shares_stack:
  "\<exists>s :: unit sched. reach started (sched_step self_scheduled) s \<and> on_stack s 1 0 \<and> on_stack s 2 0"
proof -
  let ?s = "advance 2 HOLD 9 (advance 2 HOLD 9 (advance 1 HOLD 9 (schedule entry0 pair_running)))"
  have "reach started (sched_step self_scheduled) ?s"
    by (intro reach_advance running_self) (simp_all add: pair_running_eq run_simps)
  moreover have "on_stack ?s 1 0 \<and> on_stack ?s 2 0"
    by (simp add: on_stack_def pair_running_eq run_simps)
  ultimately show ?thesis by blast
qed

text \<open>A coroutine that is queued twice (it schedules itself twice and sleeps) can be taken by two
  workers one after the other; the second one's \<open>swapIn\<close> then fails its assertion and the process
  aborts.\<close>

theorem double_scheduling_aborts:
  "\<exists>s :: unit sched. reach started (sched_step self_scheduled) s
     \<and> sc_pc s 1 = Some (Dispatch (Some entry0))
     \<and> worker_step 1 HOLD 9 (Dispatch (Some entry0)) s = Inl (Assertion ''m_state != EXEC'')"
proof -
  let ?q = "schedule entry0 (schedule entry0 pair_running)"
  let ?s1 = "advance 1 HOLD 9 (advance 1 HOLD 9 (advance 1 HOLD 9 (advance 1 HOLD 9 ?q)))"
  let ?s = "advance 2 HOLD 9 (advance 1 HOLD 9 (advance 2 HOLD 9 ?s1))"
  have q: "reach started (sched_step self_scheduled) ?q"
    by (rule reach_client [OF running_self])
      (auto simp: self_scheduled_def exec_pc_def pair_running_eq)
  have s1: "reach started (sched_step self_scheduled) ?s1"
    by (intro reach_advance q) (simp_all add: pair_running_eq run_simps)
  have "reach started (sched_step self_scheduled) ?s"
    by (intro reach_advance s1) (simp_all add: pair_running_eq run_simps)
  moreover have "sc_pc ?s 1 = Some (Dispatch (Some entry0))"
    by (simp add: pair_running_eq run_simps)
  moreover have "sc_state ?s 0 = EXEC" by (simp add: pair_running_eq run_simps)
  then have "worker_step 1 HOLD 9 (Dispatch (Some entry0)) ?s = Inl (Assertion ''m_state != EXEC'')"
    by (simp add: dispatch_step_def coe_of_cort_def)
  ultimately show ?thesis by blast
qed

section \<open>Leaving early\<close>

text \<open>\<open>stopping()\<close> can hold, and a worker leave its loop because of it, while another worker is
  about to queue a coroutine that has yielded: the active count is decremented before the coroutine
  is put back. (The yielded coroutine is not lost: the worker that queued it scans again.)\<close>

theorem stopping_holds_too_early:
  "\<exists>s s' :: unit sched. reach started (sched_step tended) s \<and> stopping s \<and> sc_pc s 2 = Some Exited
     \<and> worker_step 1 HOLD 9 (AfterCort 0) s = Inr s' \<and> sc_pc s 1 = Some (AfterCort 0)
     \<and> m_coroutines s' = [entry0] \<and> \<not> stopping s'"
proof -
  let ?r = "advance 1 READY 9 (advance 1 READY 9 (advance 1 READY 9 pair_running))"
  let ?f = "?r\<lparr>m_autoStop := True\<rparr>\<lparr>m_stopping := True\<rparr>"
  let ?s3 = "advance 2 HOLD 9 (advance 2 HOLD 9 (advance 2 HOLD 9 ?f))"
  let ?s = "advance 2 HOLD 9 (advance 2 HOLD 9 (advance 2 HOLD 9 ?s3))"
  have r: "reach started (sched_step tended) ?r"
    by (intro reach_advance pair_running_reach pair_tended) (simp_all add: pair_running_eq run_simps)
  have "reach started (sched_step tended) (?r\<lparr>m_autoStop := True\<rparr>)"
    by (rule reach_step [OF r]) (rule sched_step.auto_stop)
  then have f: "reach started (sched_step tended) ?f"
    by (rule reach_step) (rule sched_step.stop_flag)
  have s3: "reach started (sched_step tended) ?s3"
    by (intro reach_advance f) (simp_all add: pair_running_eq run_simps stopping_def)
  have "reach started (sched_step tended) ?s"
    by (intro reach_advance s3) (simp_all add: pair_running_eq run_simps stopping_def)
  moreover have "stopping ?s \<and> sc_pc ?s 2 = Some Exited \<and> sc_pc ?s 1 = Some (AfterCort 0)
      \<and> worker_step 1 HOLD 9 (AfterCort 0) ?s = Inr (after_cort 1 0 ?s)
      \<and> m_coroutines (after_cort 1 0 ?s) = [entry0] \<and> \<not> stopping (after_cort 1 0 ?s)"
    by (simp add: pair_running_eq run_simps stopping_def)
  ultimately show ?thesis by blast
qed

end
