(* ===== verification/Coroutine_Switch.thy ===== *)
theory Coroutine_Switch
  imports Coroutine
begin

text \<open>
  How coroutines are switched by a scheduler's thread: the operations a thread performs on the
  coroutines it manages, the invariant that ties states, contexts and the running stack
  together, and what goes wrong when a coroutine is switched into from another coroutine.
\<close>

section \<open>Starting a thread\<close>

definition empty_machine :: "'task cmachine" where
  "empty_machine =
     \<lparr>corts = (\<lambda>_. None), ctxs = (\<lambda>_. Unset), s_coroutine_id = 0, s_coroutine_count = 0,
      t_coroutine = None, t_threadCoroutine = None, t_main = None, running = Native,
      entered = (\<lambda>_. None)\<rparr>"

text \<open>
  A worker thread in \<open>Scheduler::run\<close> (\<open>t_coroutine = Coroutine::GetCurrent().get()\<close>): the
  thread's own coroutine at \<open>tc\<close> is the scheduler coroutine.
\<close>

definition worker_start :: "addr \<Rightarrow> 'task cmachine" where
  "worker_start tc = (case GetCurrent tc empty_machine of (c, m) \<Rightarrow> m\<lparr>t_main := Some c\<rparr>)"

text \<open>
  The caller's thread under \<open>use_caller\<close>: the constructor of \<open>Scheduler\<close> makes the root
  coroutine at \<open>rc\<close> the scheduler coroutine, \<open>stop\<close> switches to it with \<open>call\<close>.
\<close>

definition root_start :: "32 word \<Rightarrow> addr \<Rightarrow> addr \<Rightarrow> 'task \<Rightarrow> 'task cmachine" where
  "root_start dflt tc rc run =
     (case GetCurrent tc empty_machine of (c, m) \<Rightarrow>
        snd (call_cort rc ((new_cort dflt rc (Some run) 0 True m)\<lparr>t_main := Some rc\<rparr>)))"

section \<open>The operations of a scheduler's thread\<close>

datatype 'task cort_op =
    Create addr "'task option" "32 word"
  | SwapIn addr
  | Yields
  | Sleeps
  | Finishes bool
  | Reset addr "'task option"
  | Destroy addr

fun run_op :: "32 word \<Rightarrow> 'task cort_op \<Rightarrow> ('task cmachine, unit) eff" where
  "run_op dflt (Create a cb sz) m = (Inr (), new_cort dflt a cb sz False m)"
| "run_op dflt (SwapIn a) m = swapIn a m"
| "run_op dflt Yields m = Yield 0 m"
| "run_op dflt Sleeps m = Sleep 0 m"
| "run_op dflt (Finishes returned) m = finish 0 returned m"
| "run_op dflt (Reset a cb) m = reset_cort a cb m"
| "run_op dflt (Destroy a) m = delete_cort a m"

definition managed :: "'task cmachine \<Rightarrow> addr \<Rightarrow> bool" where
  "managed m a \<longleftrightarrow> corts m a \<noteq> None \<and> t_main m \<noteq> Some a \<and> t_threadCoroutine m \<noteq> Some a"

text \<open>The stack of the scheduler coroutine.\<close>

definition main_stack :: "'task cmachine \<Rightarrow> stack" where
  "main_stack m = (case t_main m of
     Some mc \<Rightarrow> if c_stack (cget m mc) then Stack mc else Native | None \<Rightarrow> Native)"

text \<open>
  When \<open>Scheduler::run\<close> and the tasks perform an operation: a coroutine is entered from the
  scheduler coroutine only, in state \<open>INIT\<close>, \<open>READY\<close> or \<open>HOLD\<close>; it yields, sleeps or ends while
  it runs; it is reset or destroyed when it has not started or has ended.
\<close>

fun allowed :: "'task cort_op \<Rightarrow> 'task cmachine \<Rightarrow> bool" where
  "allowed (Create a cb sz) m \<longleftrightarrow> corts m a = None"
| "allowed (SwapIn a) m \<longleftrightarrow>
     managed m a \<and> running m = main_stack m \<and> getState m a \<in> {INIT, READY, HOLD}"
| "allowed Yields m \<longleftrightarrow> running m \<noteq> main_stack m"
| "allowed Sleeps m \<longleftrightarrow> running m \<noteq> main_stack m"
| "allowed (Finishes returned) m \<longleftrightarrow> running m \<noteq> main_stack m"
| "allowed (Reset a cb) m \<longleftrightarrow> managed m a \<and> getState m a \<in> {INIT, TERMINATED, EXCEPT}"
| "allowed (Destroy a) m \<longleftrightarrow> managed m a \<and> getState m a \<in> {INIT, TERMINATED, EXCEPT}"

inductive cort_step :: "32 word \<Rightarrow> 'task cmachine \<Rightarrow> 'task cmachine \<Rightarrow> bool" for dflt where
  op: "allowed x m \<Longrightarrow> run_op dflt x m = (r, m') \<Longrightarrow> cort_step dflt m m'"

inductive thread_start :: "'task cmachine \<Rightarrow> bool" where
  worker: "thread_start (worker_start tc)"
| root: "tc \<noteq> rc \<Longrightarrow> thread_start (root_start dflt tc rc run)"

section \<open>The invariant\<close>

text \<open>What a managed coroutine's context holds, by its state.\<close>

fun context_ok :: "addr \<Rightarrow> cort_state \<Rightarrow> ucontext \<Rightarrow> entry option \<Rightarrow> bool" where
  "context_ok a INIT c e \<longleftrightarrow> c = Start MainFunc a"
| "context_ok a READY c e \<longleftrightarrow> c = Resume (Stack a) \<and> e = Some MainFunc"
| "context_ok a HOLD c e \<longleftrightarrow> c = Resume (Stack a) \<and> e = Some MainFunc"
| "context_ok a EXEC c e \<longleftrightarrow> e = Some MainFunc"
| "context_ok a TERMINATED c e \<longleftrightarrow> c = Finished a"
| "context_ok a EXCEPT c e \<longleftrightarrow> c = Finished a"

definition managed_ok :: "'task cmachine \<Rightarrow> addr \<Rightarrow> bool" where
  "managed_ok m a \<longleftrightarrow> c_stack (cget m a) \<and> (getState m a = EXEC \<longleftrightarrow> running m = Stack a)
     \<and> context_ok a (getState m a) (ctxs m a) (entered m a)"

text \<open>
  The scheduler coroutine \<open>mc\<close> is in state \<open>EXEC\<close>; either it runs itself, or the managed
  coroutine \<open>cur\<close> runs on its own stack and the scheduler coroutine's context holds the point
  where its execution was suspended.
\<close>

definition switch_at :: "'task cmachine \<Rightarrow> addr \<Rightarrow> addr \<Rightarrow> bool" where
  "switch_at m mc cur \<longleftrightarrow>
     t_main m = Some mc \<and> t_coroutine m = Some cur \<and> corts m mc \<noteq> None \<and> getState m mc = EXEC
     \<and> (cur = mc \<and> running m = main_stack m
        \<or> managed m cur \<and> running m = Stack cur \<and> ctxs m mc = Resume (main_stack m))
     \<and> (\<forall>a. managed m a \<longrightarrow> managed_ok m a)"

definition switch_inv :: "'task cmachine \<Rightarrow> bool" where
  "switch_inv m \<longleftrightarrow> (\<exists>mc cur. switch_at m mc cur)"

lemmas switch_defs = switch_at_def managed_ok_def managed_def main_stack_def getState_def cget_def

lemmas op_defs = swapIn_def swapOut_def swapcontext_def Yield_def Sleep_def finish_def task_end_def
  reset_cort_def delete_cort_def new_cort_def GetCurrent_def SetCurrent_def setState_def cupd_def
  call_cort_def back_cort_def new_main_def

lemma switch_at_start:
  "switch_at (worker_start tc) tc tc"
  "tc \<noteq> rc \<Longrightarrow> switch_at (root_start dflt tc rc run) rc rc"
  by (auto simp: switch_defs op_defs worker_start_def root_start_def empty_machine_def)

lemma switch_at_running_main:
  "switch_at m mc cur \<Longrightarrow> running m = main_stack m \<longleftrightarrow> cur = mc"
  by (auto simp: switch_defs split: if_splits)

lemma switch_at_create:
  "switch_at m mc cur \<Longrightarrow> corts m a = None \<Longrightarrow> switch_at (new_cort dflt a cb sz False m) mc cur"
  by (auto simp: switch_defs new_cort_def split: if_splits)

lemma switch_at_swapIn:
  assumes "switch_at m mc cur" and "allowed (SwapIn a) m"
  shows "\<exists>m'. swapIn a m = (Inr (), m') \<and> switch_at m' mc a"
proof -
  have "cur = mc" using assms switch_at_running_main by auto
  moreover have "managed m a" and "getState m a \<in> {INIT, READY, HOLD}" using assms(2) by auto
  moreover have "context_ok a (getState m a) (ctxs m a) (entered m a)"
    using assms(1) \<open>managed m a\<close> by (simp add: switch_at_def managed_ok_def)
  ultimately have "ctxs m a = Start MainFunc a \<or> ctxs m a = Resume (Stack a) \<and> entered m a = Some MainFunc"
    by auto
  then show ?thesis
    using assms(1) \<open>cur = mc\<close> \<open>managed m a\<close> \<open>getState m a \<in> {INIT, READY, HOLD}\<close>
    by (elim disjE) (auto simp: switch_defs op_defs Let_def)
qed

lemma switch_at_suspend:
  assumes "switch_at m mc cur" and "running m \<noteq> main_stack m"
  shows "\<exists>m'. Yield f m = (Inr (), m') \<and> switch_at m' mc mc"
    and "\<exists>m'. Sleep f m = (Inr (), m') \<and> switch_at m' mc mc"
    and "\<exists>m'. finish f returned m = (Inr (), m') \<and> switch_at m' mc mc"
proof -
  have run: "managed m cur" "running m = Stack cur" "ctxs m mc = Resume (main_stack m)" "cur \<noteq> mc"
    using assms by (auto simp: switch_at_def managed_def)
  then have entered: "entered m cur = Some MainFunc"
    using assms(1) by (auto simp: switch_at_def managed_ok_def dest!: spec [of _ cur])
  show "\<exists>m'. Yield f m = (Inr (), m') \<and> switch_at m' mc mc"
    using assms run entered by (auto simp: switch_defs op_defs Let_def)
  show "\<exists>m'. Sleep f m = (Inr (), m') \<and> switch_at m' mc mc"
    using assms run entered by (auto simp: switch_defs op_defs Let_def)
  show "\<exists>m'. finish f returned m = (Inr (), m') \<and> switch_at m' mc mc"
    using assms run entered by (auto simp: switch_defs op_defs Let_def)
qed

lemma switch_at_reset:
  assumes "switch_at m mc cur" and "allowed (Reset a cb) m"
  shows "\<exists>m'. reset_cort a cb m = (Inr (), m') \<and> switch_at m' mc cur"
  using assms by (auto simp: switch_defs op_defs Let_def)

lemma switch_at_destroy:
  assumes "switch_at m mc cur" and "allowed (Destroy a) m"
  shows "\<exists>m'. delete_cort a m = (Inr (), m') \<and> switch_at m' mc cur"
  using assms by (auto simp: switch_defs op_defs Let_def)

lemma switch_at_run_op:
  assumes "switch_at m mc cur" and "allowed x m"
  shows "\<exists>m' cur'. run_op dflt x m = (Inr (), m') \<and> switch_at m' mc cur'"
proof (cases x)
  case (Create a cb sz)
  with assms show ?thesis by (auto intro: switch_at_create)
next
  case (SwapIn a)
  with assms switch_at_swapIn show ?thesis by fastforce
next
  case Yields
  with assms switch_at_suspend(1) show ?thesis by fastforce
next
  case Sleeps
  with assms switch_at_suspend(2) show ?thesis by fastforce
next
  case (Finishes returned)
  with assms switch_at_suspend(3) show ?thesis by fastforce
next
  case (Reset a cb)
  with assms switch_at_reset show ?thesis by fastforce
next
  case (Destroy a)
  with assms switch_at_destroy show ?thesis by fastforce
qed

lemma switch_inv_step: "switch_inv m \<Longrightarrow> cort_step dflt m m' \<Longrightarrow> switch_inv m'"
  unfolding switch_inv_def
  by (erule cort_step.cases) (metis Pair_inject switch_at_run_op)

lemma switch_inv_start: "thread_start m \<Longrightarrow> switch_inv m"
  unfolding switch_inv_def by (auto elim!: thread_start.cases intro: switch_at_start)

interpretation switching: invariant_system thread_start "cort_step dflt" switch_inv for dflt
  by unfold_locales (auto intro: switch_inv_start switch_inv_step)

section \<open>Properties\<close>

text \<open>A worker thread on the stack of its first coroutine, for the witnesses.\<close>

definition example_machine :: "unit cmachine" where
  "example_machine = snd (swapIn 7 (new_cort 1024 7 (Some ()) 0 False (worker_start 1)))"

lemmas example_start = worker_start_def empty_machine_def op_defs getState_def cget_def

lemma example_simps [simp]:
  "running example_machine = Stack 7" "main_stack example_machine = Native"
  "t_coroutine example_machine = Some 7" "t_main example_machine = Some 1"
  "managed example_machine 7" "getState example_machine 7 = EXEC"
  "c_cb (cget example_machine 7) = Some ()" "ctxs example_machine 1 = Resume Native"
  by (simp_all add: example_machine_def example_start main_stack_def managed_def)

lemma example_reach: "reach thread_start (cort_step 1024) example_machine"
proof -
  let ?m0 = "worker_start 1 :: unit cmachine"
  let ?m1 = "new_cort 1024 7 (Some ()) 0 False ?m0"
  have "reach thread_start (cort_step 1024) ?m0"
    by (intro reach_init worker)
  moreover have "cort_step 1024 ?m0 ?m1"
    by (rule cort_step.op [of "Create 7 (Some ()) 0"]) (simp_all add: example_start)
  moreover have "cort_step 1024 ?m1 example_machine"
    by (rule cort_step.op [of "SwapIn 7" _ _ "Inr ()"])
      (simp_all add: example_start main_stack_def managed_def example_machine_def)
  ultimately show ?thesis by (meson reach_step)
qed

text \<open>No assertion of the coroutine code fails and no null pointer is used on a scheduler's
  thread: in every state the thread can reach, every operation the scheduler and the tasks perform
  there succeeds.\<close>

theorem scheduled_switches_succeed:
  assumes "reach thread_start (cort_step dflt) m" and "allowed x m"
  shows "\<exists>m'. run_op dflt x m = (Inr (), m')"
  using switching.reach_inv [OF assms(1)] switch_at_run_op [OF _ assms(2)]
  unfolding switch_inv_def by blast

theorem scheduled_switches_succeed_witness:
  "\<exists>m'. run_op 1024 Sleeps example_machine = (Inr (), m')"
  by (rule scheduled_switches_succeed [OF example_reach]) (simp add: example_simps)

text \<open>At most one managed coroutine of a thread is in state \<open>EXEC\<close>: it is the one whose stack
  is running and the one \<open>GetCurrent\<close> returns.\<close>

theorem one_executing:
  assumes "reach thread_start (cort_step dflt) m"
    and "managed m a" and "getState m a = EXEC"
  shows "running m = Stack a \<and> t_coroutine m = Some a
    \<and> (\<forall>b. managed m b \<and> getState m b = EXEC \<longrightarrow> b = a)"
proof -
  obtain mc cur where s: "switch_at m mc cur"
    using switching.reach_inv [OF assms(1)] unfolding switch_inv_def by blast
  then have all: "managed m b \<Longrightarrow> getState m b = EXEC \<Longrightarrow> running m = Stack b" for b
    by (auto simp: switch_at_def managed_ok_def)
  moreover have "running m \<noteq> main_stack m"
    using all [OF assms(2,3)] assms(2) s by (auto simp: switch_defs split: if_splits)
  then have "running m = Stack cur" "t_coroutine m = Some cur"
    using s by (auto simp: switch_at_def)
  ultimately show ?thesis using assms(2,3) by auto
qed

text \<open>Control comes back: when the running task yields, sleeps or ends, the scheduler coroutine
  continues on its own stack and is the current coroutine again, and the task's coroutine is left in
  state \<open>READY\<close>, \<open>HOLD\<close>, or \<open>TERM\<close> or \<open>EXCEPT\<close>.\<close>

theorem suspension_returns_to_main:
  assumes "reach thread_start (cort_step dflt) m" and "running m \<noteq> main_stack m"
    and "t_coroutine m = Some cur" and "x \<in> {Yields, Sleeps, Finishes returned}"
  shows "\<exists>m'. run_op dflt x m = (Inr (), m') \<and> running m' = main_stack m \<and> t_coroutine m' = t_main m
    \<and> getState m' cur = (if x = Yields then READY else if x = Sleeps then HOLD
        else if returned \<and> c_cb (cget m cur) \<noteq> None then TERMINATED else EXCEPT)"
proof -
  obtain mc c where s: "switch_at m mc c"
    using switching.reach_inv [OF assms(1)] unfolding switch_inv_def by blast
  then have run: "c = cur" "managed m cur" "ctxs m mc = Resume (main_stack m)" "mc \<noteq> cur"
      "entered m cur = Some MainFunc" "t_main m = Some mc" "getState m cur = EXEC"
    using assms(2,3) by (auto simp: switch_at_def managed_def managed_ok_def dest!: spec [of _ c])
  show ?thesis
    using run assms(3,4) by (auto simp: op_defs managed_def getState_def cget_def main_stack_def Let_def)
qed


theorem one_executing_witness:
  "running example_machine = Stack 7 \<and> t_coroutine example_machine = Some 7
    \<and> (\<forall>b. \<not> (managed example_machine b \<and> getState example_machine b = EXEC \<and> b \<noteq> 7))"
proof -
  have "managed example_machine 7" "getState example_machine 7 = EXEC" by simp_all
  from one_executing [OF example_reach this] show ?thesis by blast
qed

theorem suspension_returns_to_main_witness:
  "\<exists>m'. run_op 1024 Yields example_machine = (Inr (), m') \<and> running m' = Native
    \<and> t_coroutine m' = Some 1 \<and> getState m' 7 = READY"
  using suspension_returns_to_main [OF example_reach, of 7 Yields True] by auto

section \<open>Identifiers and the count\<close>

definition count_inv :: "'task cmachine \<Rightarrow> bool" where
  "count_inv m \<longleftrightarrow> switch_inv m \<and> finite (dom (corts m))
     \<and> s_coroutine_count m = of_nat (card (dom (corts m)))"

text \<open>What the switching operations leave alone.\<close>

lemma run_op_frame:
  assumes "switch_inv m" and "allowed x m" and "run_op dflt x m = (r, m')"
    and "case x of Create _ _ _ \<Rightarrow> False | Destroy _ \<Rightarrow> False | _ \<Rightarrow> True"
  shows "dom (corts m') = dom (corts m) \<and> s_coroutine_count m' = s_coroutine_count m
    \<and> s_coroutine_id m' = s_coroutine_id m
    \<and> (\<forall>a \<in> dom (corts m). c_id (cget m' a) = c_id (cget m a))"
proof -
  obtain mc cur where "switch_at m mc cur" using assms(1) unfolding switch_inv_def by blast
  then have c: "t_coroutine m = Some cur" "t_main m = Some mc" by (auto simp: switch_at_def)
  have sc: "swapcontext frm save to m1 = (r, m') \<Longrightarrow> corts m' = corts m1
      \<and> s_coroutine_count m' = s_coroutine_count m1 \<and> s_coroutine_id m' = s_coroutine_id m1"
    for frm save to and m1 :: "'a cmachine"
    by (auto simp: swapcontext_def Let_def split: ucontext.splits)
  show ?thesis
  proof (cases x)
    case (SwapIn a)
    with assms(2,3) c show ?thesis
      by (auto simp: swapIn_def SetCurrent_def setState_def cupd_def Let_def cget_def split: if_splits dest!: sc)
  next
    case Yields
    with assms(3) c show ?thesis
      by (auto simp: Yield_def GetCurrent_def swapOut_def SetCurrent_def setState_def cupd_def Let_def cget_def split: if_splits dest!: sc)
  next
    case Sleeps
    with assms(3) c show ?thesis
      by (auto simp: Sleep_def GetCurrent_def swapOut_def SetCurrent_def setState_def cupd_def Let_def cget_def split: if_splits dest!: sc)
  next
    case (Finishes returned)
    with assms(3) c show ?thesis
      by (auto simp: finish_def GetCurrent_def swapOut_def back_cort_def task_end_def SetCurrent_def setState_def
          cupd_def Let_def cget_def split: if_splits option.splits entry.splits dest!: sc)
  next
    case (Reset a cb)
    with assms(2,3) show ?thesis
      by (auto simp: reset_cort_def cupd_def cget_def Let_def split: if_splits)
  qed (use assms(4) in simp_all)
qed

lemma count_inv_step: "count_inv m \<Longrightarrow> cort_step dflt m m' \<Longrightarrow> count_inv m'"
proof -
  assume inv: "count_inv m" and step: "cort_step dflt m m'"
  from step obtain x r where x: "allowed x m" "run_op dflt x m = (r, m')"
    by (auto elim: cort_step.cases)
  have sw: "switch_inv m'"
    using inv step switch_inv_step unfolding count_inv_def by blast
  show ?thesis
  proof (cases "case x of Create _ _ _ \<Rightarrow> False | Destroy _ \<Rightarrow> False | _ \<Rightarrow> True")
    case True
    with run_op_frame [OF _ x] inv sw show ?thesis by (simp add: count_inv_def)
  next
    case False
    then consider a cb sz where "x = Create a cb sz" | a where "x = Destroy a"
      by (cases x) auto
    then show ?thesis
    proof cases
      case 1
      with x have "corts m a = None" "m' = new_cort dflt a cb sz False m" by auto
      then show ?thesis
        using inv sw by (auto simp: count_inv_def new_cort_def domIff)
    next
      case 2
      with x have a: "managed m a" "getState m a \<in> {INIT, TERMINATED, EXCEPT}"
          "delete_cort a m = (r, m')" by auto
      have "c_stack (cget m a)"
        using inv a(1) by (auto simp: count_inv_def switch_inv_def switch_at_def managed_ok_def)
      with a have "dom (corts m') = dom (corts m) - {a}" "a \<in> dom (corts m)"
          "s_coroutine_count m' = s_coroutine_count m - 1"
        by (auto simp: delete_cort_def getState_def managed_def Let_def split: if_splits)
      moreover from calculation inv have "card (dom (corts m)) = Suc (card (dom (corts m) - {a}))"
        by (metis card_Suc_Diff1 count_inv_def)
      ultimately show ?thesis
        using inv sw by (simp add: count_inv_def)
    qed
  qed
qed

lemma count_inv_start: "thread_start m \<Longrightarrow> count_inv m"
  using switch_inv_start [of m]
  by (auto simp: count_inv_def worker_start_def root_start_def empty_machine_def op_defs getState_def cget_def
      elim!: thread_start.cases)

interpretation counting: invariant_system thread_start "cort_step dflt" count_inv for dflt
  by unfold_locales (auto intro: count_inv_start count_inv_step)

text \<open>\<open>TotalCoroutines\<close> is the number of coroutine objects that exist (modulo the counter's
  width), through every creation, switch, reset and destruction.\<close>

theorem TotalCoroutines_counts:
  assumes "reach thread_start (cort_step dflt) m"
  shows "finite (dom (corts m)) \<and> TotalCoroutines m = of_nat (card (dom (corts m)))"
  using counting.reach_inv [OF assms] by (simp add: count_inv_def TotalCoroutines_def)

theorem TotalCoroutines_counts_witness:
  "finite (dom (corts example_machine)) \<and>
   TotalCoroutines example_machine = of_nat (card (dom (corts example_machine)))"
  by (rule TotalCoroutines_counts [OF example_reach])

text \<open>
  Identifiers are given out by a 64-bit counter that is incremented before it is used, so they are
  distinct as long as the counter has not wrapped.
\<close>

definition ids_inv :: "'task cmachine \<Rightarrow> bool" where
  "ids_inv m \<longleftrightarrow> switch_inv m \<and> (\<forall>a \<in> dom (corts m). c_id (cget m a) \<le> s_coroutine_id m)
     \<and> inj_on (\<lambda>a. c_id (cget m a)) (dom (corts m))"

definition unwrapped_step :: "32 word \<Rightarrow> 'task cmachine \<Rightarrow> 'task cmachine \<Rightarrow> bool" where
  "unwrapped_step dflt m m' \<longleftrightarrow> cort_step dflt m m' \<and> s_coroutine_id m \<noteq> - 1"

lemma word_le_plus1:
  fixes x y :: "64 word"
  assumes "x \<le> y" and "y \<noteq> - 1"
  shows "x < y + 1"
proof -
  have "1 + y \<noteq> 0" using assms(2) by (simp add: eq_neg_iff_add_eq_0 add.commute)
  then have "unat (1 + y) = Suc (unat y)" by (rule unatSuc)
  with assms(1) show ?thesis by (simp add: word_le_nat_alt word_less_nat_alt add.commute)
qed

lemma ids_inv_step: "ids_inv m \<Longrightarrow> unwrapped_step dflt m m' \<Longrightarrow> ids_inv m'"
proof -
  assume inv: "ids_inv m" and "unwrapped_step dflt m m'"
  then have step: "cort_step dflt m m'" and nowrap: "s_coroutine_id m \<noteq> - 1"
    by (auto simp: unwrapped_step_def)
  from step obtain x r where x: "allowed x m" "run_op dflt x m = (r, m')"
    by (auto elim: cort_step.cases)
  have sw: "switch_inv m'"
    using inv step switch_inv_step unfolding ids_inv_def by blast
  show ?thesis
  proof (cases "case x of Create _ _ _ \<Rightarrow> False | Destroy _ \<Rightarrow> False | _ \<Rightarrow> True")
    case True
    with run_op_frame [OF _ x] inv sw show ?thesis
      by (simp add: ids_inv_def inj_on_def)
  next
    case False
    then consider a cb sz where "x = Create a cb sz" | a where "x = Destroy a"
      by (cases x) auto
    then show ?thesis
    proof cases
      case 1
      with x have a: "corts m a = None" "m' = new_cort dflt a cb sz False m" by auto
      have old: "b \<in> dom (corts m) \<Longrightarrow> c_id (cget m b) < s_coroutine_id m + 1" for b
        using inv nowrap by (auto simp: ids_inv_def intro: word_le_plus1)
      have new: "dom (corts m') = insert a (dom (corts m))" "c_id (cget m' a) = s_coroutine_id m + 1"
        "s_coroutine_id m' = s_coroutine_id m + 1"
        "\<And>b. b \<in> dom (corts m) \<Longrightarrow> c_id (cget m' b) = c_id (cget m b)"
        using a by (auto simp: new_cort_def cget_def domIff)
      have fresh: "b \<in> dom (corts m) \<Longrightarrow> c_id (cget m b) \<noteq> s_coroutine_id m + 1
          \<and> s_coroutine_id m + 1 \<noteq> c_id (cget m b)" for b
        using old by fastforce
      show ?thesis
        unfolding ids_inv_def inj_on_def new(1)
        using inv sw fresh old new(2-4) by (auto simp: ids_inv_def inj_on_def less_imp_le)
    next
      case 2
      with x have a: "managed m a" "getState m a \<in> {INIT, TERMINATED, EXCEPT}"
          "delete_cort a m = (r, m')" by auto
      have "c_stack (cget m a)"
        using inv a(1) by (auto simp: ids_inv_def switch_inv_def switch_at_def managed_ok_def)
      with a have "dom (corts m') = dom (corts m) - {a}" "s_coroutine_id m' = s_coroutine_id m"
          "\<And>b. b \<noteq> a \<Longrightarrow> cget m' b = cget m b"
        by (auto simp: delete_cort_def getState_def cget_def Let_def split: if_splits)
      then show ?thesis
        using inv sw unfolding ids_inv_def inj_on_def by auto
    qed
  qed
qed

lemma ids_inv_start: "thread_start m \<Longrightarrow> ids_inv m"
  using switch_inv_start [of m]
  by (auto simp: ids_inv_def inj_on_def worker_start_def root_start_def empty_machine_def op_defs
      getState_def cget_def split: if_splits elim!: thread_start.cases)

interpretation numbering: invariant_system thread_start "unwrapped_step dflt" ids_inv for dflt
  by unfold_locales (auto intro: ids_inv_start ids_inv_step)

text \<open>As long as the 64-bit counter has not wrapped, two coroutine objects of a thread that
  exist at the same time never have the same identifier.\<close>

theorem coroutine_ids_distinct:
  assumes "reach thread_start (unwrapped_step dflt) m"
    and "corts m a \<noteq> None" and "corts m b \<noteq> None" and "a \<noteq> b"
  shows "c_id (cget m a) \<noteq> c_id (cget m b)"
  using numbering.reach_inv [OF assms(1)] assms(2-4) by (auto simp: ids_inv_def inj_on_def)

theorem coroutine_ids_distinct_witness:
  "c_id (cget (root_start 1024 1 2 ()) 1) \<noteq> c_id (cget (root_start 1024 1 2 ()) 2)"
proof (rule coroutine_ids_distinct [where dflt = 0])
  show "reach thread_start (unwrapped_step 0) (root_start 1024 1 2 ())"
    by (intro reach_init root) simp
qed (simp_all add: root_start_def empty_machine_def op_defs getState_def cget_def)

end
