(* ===== verification/Coroutine_Refinement.thy ===== *)
theory Coroutine_Refinement
  imports Coroutine_Switch Scheduler
begin

text \<open>
  An abstract specification of a thread's coroutines: for each coroutine its state and its task, and
  which one runs. Contexts, stacks, the current pointer and the scheduler coroutine are what it hides.
  The operations of a scheduler's thread refine it, and the steps of \<open>Scheduler::run\<close> follow it.
\<close>

section \<open>The specification\<close>

text \<open>The coroutines, and the one that runs; \<open>None\<close> is the scheduler coroutine.\<close>

type_synonym 'task spec = "(addr \<Rightarrow> (cort_state \<times> 'task option) option) \<times> addr option"

text \<open>The running coroutine suspends or ends in a state and with what is left of its task.\<close>

fun leave :: "(('task option) \<Rightarrow> cort_state \<times> 'task option) \<Rightarrow> 'task spec \<Rightarrow> 'task spec" where
  "leave f (sts, Some c) = (sts(c \<mapsto> f (snd (the (sts c)))), None)"
| "leave f (sts, None) = (sts, None)"

fun spec_op :: "'task cort_op \<Rightarrow> 'task spec \<Rightarrow> 'task spec" where
  "spec_op (Create a cb sz) (sts, cur) = (sts(a \<mapsto> (INIT, cb)), cur)"
| "spec_op (SwapIn a) (sts, cur) = (sts(a \<mapsto> (EXEC, snd (the (sts a)))), Some a)"
| "spec_op Yields s = leave (\<lambda>cb. (READY, cb)) s"
| "spec_op Sleeps s = leave (\<lambda>cb. (HOLD, cb)) s"
| "spec_op (Finishes returned) s =
     leave (\<lambda>cb. if returned \<and> cb \<noteq> None then (TERMINATED, None) else (EXCEPT, cb)) s"
| "spec_op (Reset a cb) (sts, cur) = (sts(a \<mapsto> (INIT, cb)), cur)"
| "spec_op (Destroy a) (sts, cur) = (sts(a := None), cur)"

text \<open>What a thread's machine shows of it.\<close>

definition spec_of :: "'task cmachine \<Rightarrow> 'task spec" where
  "spec_of m =
     ((\<lambda>a. if managed m a then Some (getState m a, c_cb (cget m a)) else None),
      if running m = main_stack m then None else t_coroutine m)"

section \<open>Refinement\<close>

lemma spec_of_eqI:
  assumes "\<And>a. fst (spec_of m) a = fst s a" and "snd (spec_of m) = snd s"
  shows "spec_of m = s"
  using assms by (cases s) (auto simp: spec_of_def)

text \<open>The running coroutine of a machine in which one runs.\<close>

lemma switch_at_running:
  assumes "switch_at m mc cur" and "running m \<noteq> main_stack m"
  shows "t_coroutine m = Some cur" "t_main m = Some mc" "managed m cur" "mc \<noteq> cur" "running m = Stack cur"
    "entered m cur = Some MainFunc" "ctxs m mc = Resume (main_stack m)" "corts m mc \<noteq> None" "corts m cur \<noteq> None"
  using assms by (auto simp: switch_at_def managed_def managed_ok_def dest!: spec [of _ cur])

text \<open>The thread's own coroutine exists.\<close>

definition thread_cort_ok :: "'task cmachine \<Rightarrow> bool" where
  "thread_cort_ok m \<longleftrightarrow> (\<forall>tc. t_threadCoroutine m = Some tc \<longrightarrow> corts m tc \<noteq> None)"

lemma swapcontext_frame:
  "swapcontext f save to m = (r, m') \<Longrightarrow> corts m' = corts m \<and> t_threadCoroutine m' = t_threadCoroutine m"
  by (auto simp: swapcontext_def Let_def split: ucontext.splits)

lemma swapOut_frame:
  "swapOut a save m = (r, m') \<Longrightarrow> corts m' = corts m \<and> t_threadCoroutine m' = t_threadCoroutine m"
  by (auto simp: swapOut_def SetCurrent_def Let_def split: option.splits dest: swapcontext_frame)

lemma back_cort_frame:
  "back_cort a save m = (r, m') \<Longrightarrow> corts m' = corts m \<and> t_threadCoroutine m' = t_threadCoroutine m"
  by (auto simp: back_cort_def SetCurrent_def Let_def split: option.splits dest: swapcontext_frame)

lemma cupd_frame [simp]:
  "corts (cupd a f m) c = None \<longleftrightarrow> corts m c = None" "t_threadCoroutine (cupd a f m) = t_threadCoroutine m"
  by (simp_all add: cupd_def)

lemma swapIn_frame:
  assumes "swapIn a m = (r, m')"
  shows "t_threadCoroutine m' = t_threadCoroutine m \<and> (\<forall>c. corts m' c = None \<longleftrightarrow> corts m c = None)"
proof (cases "getState (SetCurrent (Some a) m) a = EXEC \<or> t_main m = None")
  case True
  then show ?thesis using assms
    by (auto simp: swapIn_def setState_def SetCurrent_def cupd_def Let_def split: if_splits)
next
  case False
  then obtain mc where "swapcontext mc (Resume (running m)) a (setState a EXEC (SetCurrent (Some a) m)) = (r, m')"
    using assms by (auto simp: swapIn_def setState_def SetCurrent_def cupd_def Let_def)
  from swapcontext_frame [OF this] show ?thesis by (simp add: setState_def SetCurrent_def)
qed

lemma suspend_frame:
  assumes "t_coroutine m = Some cur"
  shows "Yield f m = (r, m') \<Longrightarrow> t_threadCoroutine m' = t_threadCoroutine m \<and> (\<forall>c. corts m' c = None \<longleftrightarrow> corts m c = None)"
    and "Sleep f m = (r, m') \<Longrightarrow> t_threadCoroutine m' = t_threadCoroutine m \<and> (\<forall>c. corts m' c = None \<longleftrightarrow> corts m c = None)"
    and "finish f returned m = (r, m') \<Longrightarrow>
      t_threadCoroutine m' = t_threadCoroutine m \<and> (\<forall>c. corts m' c = None \<longleftrightarrow> corts m c = None)"
  using assms
  by (auto simp: Yield_def Sleep_def finish_def task_end_def GetCurrent_def setState_def Let_def
      split: option.splits entry.splits if_splits dest!: swapOut_frame back_cort_frame)

lemma run_op_thread_cort:
  assumes at: "switch_at m mc cur" and allowed: "allowed x m" and run: "run_op dflt x m = (r, m')"
  shows "t_threadCoroutine m' = t_threadCoroutine m
    \<and> (\<forall>a. corts m a \<noteq> None \<and> \<not> managed m a \<longrightarrow> corts m' a \<noteq> None)"
proof (cases x)
  case (Create a cb sz)
  with run show ?thesis by (auto simp: new_cort_def)
next
  case (SwapIn a)
  with run swapIn_frame [of a m r m'] show ?thesis by simp
next
  case (Reset a cb)
  with run show ?thesis by (auto simp: reset_cort_def cupd_def Let_def split: if_splits)
next
  case (Destroy a)
  with run allowed show ?thesis by (auto simp: delete_cort_def SetCurrent_def Let_def split: if_splits)
qed (use run at suspend_frame [where m = m and cur = cur and r = r and m' = m'] in \<open>auto simp: switch_at_def\<close>)

definition refine_inv :: "'task cmachine \<Rightarrow> bool" where
  "refine_inv m \<longleftrightarrow> switch_inv m \<and> thread_cort_ok m"

interpretation refining: invariant_system thread_start "cort_step dflt" refine_inv for dflt
proof unfold_locales
  show "refine_inv m" if "thread_start m" for m :: "'a cmachine"
    using that switch_inv_start [OF that]
    by (auto simp: refine_inv_def thread_cort_ok_def example_start root_start_def split: if_splits elim!: thread_start.cases)
  show "refine_inv m'" if inv: "refine_inv m" and step: "cort_step dflt m m'" for m m' :: "'a cmachine"
  proof -
    obtain mc cur where at: "switch_at m mc cur" using inv unfolding refine_inv_def switch_inv_def by blast
    from step obtain x r where "allowed x m" "run_op dflt x m = (r, m')" by cases
    from run_op_thread_cort [OF at this] have "thread_cort_ok m'"
      using inv unfolding refine_inv_def thread_cort_ok_def managed_def by metis
    with switch_inv_step inv step show ?thesis unfolding refine_inv_def by blast
  qed
qed

lemma spec_create:
  assumes "switch_at m mc cur" and "corts m a = None" and "t_threadCoroutine m \<noteq> Some a"
  shows "spec_of (new_cort dflt a cb sz False m) = spec_op (Create a cb sz) (spec_of m)"
  using assms by (auto simp: spec_of_def switch_defs new_cort_def fun_eq_iff split: if_splits)

lemma spec_swapIn:
  assumes "switch_at m mc cur" and "allowed (SwapIn a) m"
  shows "\<exists>m'. swapIn a m = (Inr (), m') \<and> spec_of m' = spec_op (SwapIn a) (spec_of m)"
proof -
  obtain m' where m': "swapIn a m = (Inr (), m')" "switch_at m' mc a"
    using switch_at_swapIn [OF assms] by blast
  have a: "managed m a" "getState m a \<noteq> EXEC" using assms(2) by auto
  have main: "mc \<noteq> a" using a assms(1) by (auto simp: managed_def switch_at_def)
  have "managed m' = managed m" "t_coroutine m' = Some a"
    "\<forall>b. corts m' b = (if b = a then map_option (\<lambda>c. c\<lparr>c_state := EXEC\<rparr>) (corts m a) else corts m b)"
    using m'(1) a assms(1)
    by (auto simp: op_defs managed_def switch_at_def getState_def fun_eq_iff Let_def split: ucontext.splits if_splits)
  moreover have "running m' \<noteq> main_stack m'"
    using switch_at_running_main [OF m'(2)] main by simp
  ultimately show ?thesis
    using m'(1) a by (intro exI [of _ m']) (auto simp: spec_of_def fun_eq_iff getState_def cget_def managed_def)
qed

lemma spec_leave:
  assumes "switch_at m mc cur" and "running m \<noteq> main_stack m"
  shows "\<exists>m'. Yield f m = (Inr (), m') \<and> spec_of m' = spec_op Yields (spec_of m)"
    and "\<exists>m'. Sleep f m = (Inr (), m') \<and> spec_of m' = spec_op Sleeps (spec_of m)"
    and "\<exists>m'. finish f returned m = (Inr (), m') \<and> spec_of m' = spec_op (Finishes returned) (spec_of m)"
proof -
  note run = switch_at_running [OF assms]
  have main: "main_stack m = (if c_stack (cget m mc) then Stack mc else Native)" using run by (simp add: main_stack_def)
  show "\<exists>m'. Yield f m = (Inr (), m') \<and> spec_of m' = spec_op Yields (spec_of m)"
    using run main assms(2) by (auto simp: op_defs spec_of_def main_stack_def managed_def getState_def cget_def fun_eq_iff Let_def)
  show "\<exists>m'. Sleep f m = (Inr (), m') \<and> spec_of m' = spec_op Sleeps (spec_of m)"
    using run main assms(2) by (auto simp: op_defs spec_of_def main_stack_def managed_def getState_def cget_def fun_eq_iff Let_def)
  show "\<exists>m'. finish f returned m = (Inr (), m') \<and> spec_of m' = spec_op (Finishes returned) (spec_of m)"
    using run main assms(2) by (auto simp: op_defs spec_of_def main_stack_def managed_def getState_def cget_def fun_eq_iff Let_def)
qed

lemma spec_reset:
  assumes "switch_at m mc cur" and "allowed (Reset a cb) m"
  shows "\<exists>m'. reset_cort a cb m = (Inr (), m') \<and> spec_of m' = spec_op (Reset a cb) (spec_of m)"
  using assms by (auto simp: spec_of_def switch_defs op_defs fun_eq_iff Let_def split: if_splits)

lemma spec_destroy:
  assumes "switch_at m mc cur" and "allowed (Destroy a) m"
  shows "\<exists>m'. delete_cort a m = (Inr (), m') \<and> spec_of m' = spec_op (Destroy a) (spec_of m)"
  using assms by (auto simp: spec_of_def switch_defs op_defs fun_eq_iff Let_def split: if_splits)

lemma spec_run_op:
  assumes "switch_at m mc cur" and "thread_cort_ok m" and "allowed x m"
  shows "\<exists>m'. run_op dflt x m = (Inr (), m') \<and> spec_of m' = spec_op x (spec_of m)"
proof (cases x)
  case (Create a cb sz)
  with assms show ?thesis using spec_create [of m mc cur a] by (cases "t_threadCoroutine m = Some a") (auto simp: thread_cort_ok_def)
next
  case (SwapIn a)
  with assms spec_swapIn show ?thesis by fastforce
next
  case Yields
  with assms spec_leave(1) show ?thesis by fastforce
next
  case Sleeps
  with assms spec_leave(2) show ?thesis by fastforce
next
  case (Finishes returned)
  with assms spec_leave(3) show ?thesis by fastforce
next
  case (Reset a cb)
  with assms spec_reset show ?thesis by fastforce
next
  case (Destroy a)
  with assms spec_destroy show ?thesis by fastforce
qed

text \<open>A scheduler's thread refines the specification: in every state it can reach, every operation the
  scheduler and the tasks perform succeeds and does to the coroutines' states, to their tasks and to
  which one runs exactly what the specification says, and nothing to any other coroutine. So a
  switch in or out never loses a coroutine, runs another one, or comes back to the wrong place.\<close>

theorem coroutines_refine_states:
  assumes "reach thread_start (cort_step dflt) m" and "allowed x m"
  shows "\<exists>m'. run_op dflt x m = (Inr (), m') \<and> spec_of m' = spec_op x (spec_of m)"
  using refining.reach_inv [OF assms(1)] spec_run_op [OF _ _ assms(2)]
  unfolding refine_inv_def switch_inv_def by blast

theorem coroutines_refine_states_witness:
  "\<exists>m'. run_op 1024 (Finishes True) example_machine = (Inr (), m')
     \<and> spec_of m' = ((\<lambda>a. if a = 7 then Some (TERMINATED, None) else None), None)"
proof -
  have all: "managed example_machine a \<longleftrightarrow> a = 7" for a
    by (auto simp: example_machine_def example_start managed_def)
  have "spec_of example_machine = ((\<lambda>a. if a = 7 then Some (EXEC, Some ()) else None), Some 7)"
    by (simp add: spec_of_def all fun_eq_iff)
  with coroutines_refine_states [OF example_reach, of "Finishes True"] show ?thesis
    by (simp add: fun_upd_def cong: if_cong)
qed

section \<open>The operations of run()\<close>

text \<open>When an operation may be performed, in terms of the specification.\<close>

fun spec_allowed :: "'task cort_op \<Rightarrow> 'task spec \<Rightarrow> bool" where
  "spec_allowed (Create a cb sz) (sts, cur) \<longleftrightarrow> sts a = None"
| "spec_allowed (SwapIn a) (sts, cur) \<longleftrightarrow> cur = None \<and> map_option fst (sts a) \<in> Some ` {INIT, READY, HOLD}"
| "spec_allowed Yields (sts, cur) \<longleftrightarrow> cur \<noteq> None"
| "spec_allowed Sleeps (sts, cur) \<longleftrightarrow> cur \<noteq> None"
| "spec_allowed (Finishes returned) (sts, cur) \<longleftrightarrow> cur \<noteq> None"
| "spec_allowed (Reset a cb) (sts, cur) \<longleftrightarrow> map_option fst (sts a) \<in> Some ` {INIT, TERMINATED, EXCEPT}"
| "spec_allowed (Destroy a) (sts, cur) \<longleftrightarrow> map_option fst (sts a) \<in> Some ` {INIT, TERMINATED, EXCEPT}"

lemma spec_allowed_allowed:
  "switch_at m mc cur \<Longrightarrow> spec_allowed x (spec_of m) \<Longrightarrow> (\<forall>a cb sz. x \<noteq> Create a cb sz) \<Longrightarrow> allowed x m"
  by (cases x) (auto simp: spec_of_def switch_at_def split: if_splits)

text \<open>Performing a list of operations; \<open>None\<close> if one is not allowed.\<close>

fun spec_run :: "'task cort_op list \<Rightarrow> 'task spec \<Rightarrow> 'task spec option" where
  "spec_run [] sp = Some sp"
| "spec_run (x # xs) sp = (if spec_allowed x sp then spec_run xs (spec_op x sp) else None)"

text \<open>How a task leaves its coroutine in a state, and what a step of a worker does to coroutines.\<close>

fun leave_op :: "cort_state \<Rightarrow> 'task cort_op" where
  "leave_op READY = Yields"
| "leave_op HOLD = Sleeps"
| "leave_op TERMINATED = Finishes True"
| "leave_op _ = Finishes False"

definition cb_ops :: "int \<Rightarrow> addr \<Rightarrow> 'task option \<Rightarrow> 'task sched \<Rightarrow> 'task cort_op list" where
  "cb_ops t a cb s =
     (if cb = None then []
      else case sc_cb s t of Some b \<Rightarrow> [Reset b cb, SwapIn b] | None \<Rightarrow> [Create a cb 0, SwapIn a])"

fun run_ops :: "int \<Rightarrow> cort_state \<Rightarrow> addr \<Rightarrow> 'task pc \<Rightarrow> 'task sched \<Rightarrow> 'task cort_op list" where
  "run_ops t st a (Dispatch (Some x)) s =
     (case coe_coroutine x of
        Some c \<Rightarrow> if sc_state s c \<noteq> TERMINATED \<and> sc_state s c \<noteq> EXCEPT then [SwapIn c] else cb_ops t a (coe_cb x) s
      | None \<Rightarrow> cb_ops t a (coe_cb x) s)"
| "run_ops t st a (InCort c) s = [leave_op st]"
| "run_ops t st a (InCb c) s = [leave_op st]"
| "run_ops t st a (AfterCb c) s = (if sc_state s c = EXCEPT \<or> sc_state s c = TERMINATED then [Reset c None] else [])"
| "run_ops t st a _ s = []"

text \<open>Which coroutine a worker runs, and when the specification describes the worker's thread.\<close>

fun on_cort :: "'task pc \<Rightarrow> addr option" where
  "on_cort (InCort c) = Some c"
| "on_cort (InCb c) = Some c"
| "on_cort _ = None"

definition agrees :: "'task spec \<Rightarrow> int \<Rightarrow> 'task sched \<Rightarrow> bool" where
  "agrees sp t s \<longleftrightarrow> (\<forall>c q. fst sp c = Some q \<longrightarrow> fst q = sc_state s c)
     \<and> (\<exists>p. sc_pc s t = Some p \<and> snd sp = on_cort p)"

text \<open>The coroutines a worker is concerned with at a place in its loop.\<close>

fun concerned :: "int \<Rightarrow> 'task pc \<Rightarrow> 'task sched \<Rightarrow> addr set" where
  "concerned t (Dispatch (Some x)) s = set_option (coe_coroutine x) \<union> set_option (sc_cb s t)"
| "concerned t (InCort c) s = {c}"
| "concerned t (InCb c) s = {c}"
| "concerned t (AfterCort c) s = {c}"
| "concerned t (AfterCb c) s = {c}"
| "concerned t _ s = {}"

lemma agrees_state:
  assumes "agrees sp t s" and "fst sp c \<noteq> None"
  obtains cb where "fst sp c = Some (sc_state s c, cb)"
  using assms that by (cases "fst sp c") (auto simp: agrees_def)

lemma agreesI:
  assumes "sc_pc s' t = Some p" and "on_cort p = cur" and "\<And>c q. sts c = Some q \<Longrightarrow> fst q = sc_state s' c"
  shows "agrees (sts, cur) t s'"
  using assms by (auto simp: agrees_def)

lemma sched_frame [simp]:
  "sc_state (goto t p s) = sc_state s" "sc_pc (goto t p s) t = Some p" "sc_state (schedule x s) = sc_state s"
  "sc_state (dec_active s) = sc_state s" "sc_state (set_state c st s) = (sc_state s)(c := st)"
  by (simp_all add: goto_def schedule_def dec_active_def set_state_def)

text \<open>The three things a step does: it enters a coroutine, it leaves one, or it changes no state.\<close>

lemma performs_nothing:
  assumes "agrees sp t s" and "sc_pc s t = Some p" and "on_cort p = None"
    and "sc_pc s' t = Some p'" and "on_cort p' = None" and "sc_state s' = sc_state s"
  shows "\<exists>sp'. spec_run [] sp = Some sp' \<and> agrees sp' t s'"
  using assms by (auto simp: agrees_def)

lemma performs_swapIn:
  assumes sp: "agrees sp t s" "snd sp = None" and c: "fst sp c \<noteq> None"
    and st: "sc_state s c \<noteq> EXEC" "sc_state s c \<noteq> TERMINATED" "sc_state s c \<noteq> EXCEPT"
    and s': "sc_pc s' t = Some p'" "on_cort p' = Some c" "sc_state s' = (sc_state s)(c := EXEC)"
  shows "\<exists>sp'. spec_run [SwapIn c] sp = Some sp' \<and> agrees sp' t s'"
proof -
  obtain sts where sts: "sp = (sts, None)" using sp(2) by (cases sp) simp
  obtain cb where cb: "sts c = Some (sc_state s c, cb)" using agrees_state [OF sp(1) c] sts by auto
  have "sc_state s c \<in> {INIT, READY, HOLD}" using st by (cases "sc_state s c") auto
  then have "spec_run [SwapIn c] sp = Some (sts(c \<mapsto> (EXEC, cb)), Some c)" by (simp add: sts cb)
  moreover have "agrees (sts(c \<mapsto> (EXEC, cb)), Some c) t s'"
    by (rule agreesI [OF s'(1,2)]) (use sp(1) sts s'(3) in \<open>auto simp: agrees_def split: if_splits\<close>)
  ultimately show ?thesis by blast
qed

lemma performs_leave:
  assumes sp: "agrees sp t s" "snd sp = Some c" and c: "fst sp c \<noteq> None"
    and st: "leaves st" "st = TERMINATED \<longrightarrow> snd (the (fst sp c)) \<noteq> None"
    and s': "sc_pc s' t = Some p'" "on_cort p' = None" "sc_state s' = (sc_state s)(c := st)"
  shows "\<exists>sp'. spec_run [leave_op st] sp = Some sp' \<and> agrees sp' t s'"
proof -
  obtain sts where sts: "sp = (sts, Some c)" using sp(2) by (cases sp) simp
  obtain cb where cb: "sts c = Some (sc_state s c, cb)" using agrees_state [OF sp(1) c] sts by auto
  have "\<exists>cb'. spec_run [leave_op st] sp = Some (sts(c \<mapsto> (st, cb')), None)"
    using st by (auto simp: leaves_def sts cb)
  moreover have "agrees (sts(c \<mapsto> (st, cb')), None) t s'" for cb'
    by (rule agreesI [OF s'(1,2)]) (use sp(1) sts s'(3) in \<open>auto simp: agrees_def split: if_splits\<close>)
  ultimately show ?thesis by blast
qed

lemma performs_cb:
  assumes sp: "agrees sp t s" "snd sp = None" and known: "\<forall>b. sc_cb s t = Some b \<longrightarrow> fst sp b \<noteq> None"
    and new: "fst sp a = None" and cb: "cb \<noteq> None" and step: "start_cb t a s = Inr s'"
  shows "\<exists>sp'. spec_run (cb_ops t a cb s) sp = Some sp' \<and> agrees sp' t s'"
proof -
  obtain sts where sts: "sp = (sts, None)" using sp(2) by (cases sp) simp
  show ?thesis
  proof (cases "sc_cb s t")
    case None
    then have "spec_run (cb_ops t a cb s) sp = Some (sts(a \<mapsto> (EXEC, cb)), Some a)"
      using cb new sts by (auto simp: cb_ops_def)
    moreover have "agrees (sts(a \<mapsto> (EXEC, cb)), Some a) t s'"
      by (rule agreesI [of _ _ "InCb a"]) (use None step sp(1) sts in \<open>auto simp: start_cb_def agrees_def split: if_splits\<close>)
    ultimately show ?thesis by blast
  next
    case (Some b)
    have b: "sc_state s b = INIT \<or> sc_state s b = TERMINATED \<or> sc_state s b = EXCEPT"
      "s' = goto t (InCb b) (set_state b EXEC s)"
      using step Some by (auto simp: start_cb_def split: if_splits)
    obtain cb0 where "sts b = Some (sc_state s b, cb0)"
      using agrees_state [OF sp(1)] known Some sts by (metis fst_conv)
    then have "spec_run (cb_ops t a cb s) sp = Some (sts(b \<mapsto> (EXEC, cb)), Some b)"
      using cb sts Some b(1) by (auto simp: cb_ops_def)
    moreover have "agrees (sts(b \<mapsto> (EXEC, cb)), Some b) t s'"
      by (rule agreesI [of _ _ "InCb b"]) (use b(2) sp(1) sts in \<open>auto simp: agrees_def split: if_splits\<close>)
    ultimately show ?thesis by blast
  qed
qed

lemma performs_idle:
  assumes "agrees sp t s" and "snd sp = None" and "go_idle t b s = Inr s'"
  shows "\<exists>sp'. spec_run [] sp = Some sp' \<and> agrees sp' t s'"
  using assms by (auto simp: go_idle_def agrees_def Let_def split: if_splits)

text \<open>What \<open>run()\<close> does to coroutines are operations of the specification, and it performs each
  only where it is allowed: a worker's step from any place of its loop takes a description of its thread
  to one that agrees with the next state, if the coroutine that has left the worker's stack is still in
  the state it left in and no empty task returns.\<close>

theorem run_performs_operations:
  assumes sp: "agrees sp t s" and pc: "sc_pc s t = Some p" and step: "worker_step t st a p s = Inr s'"
    and st: "leaves st" "st = TERMINATED \<longrightarrow> (\<forall>c \<in> concerned t p s. snd (the (fst sp c)) \<noteq> None)"
    and known: "\<forall>c \<in> concerned t p s. fst sp c \<noteq> None" and new: "fst sp a = None"
    and left: "\<forall>c. p = AfterCort c \<or> p = AfterCb c \<longrightarrow> leaves (sc_state s c)"
  shows "\<exists>sp'. spec_run (run_ops t st a p s) sp = Some sp' \<and> agrees sp' t s'"
proof (cases p)
  case AtLoop
  with step have "\<exists>r. sc_pc s' t = Some (Dispatch r) \<and> sc_state s' = sc_state s"
    by (auto simp: scan_step_def obind_def split: sum.splits prod.splits)
  with AtLoop show ?thesis using performs_nothing [OF sp pc, of s'] by auto
next
  case (Dispatch r)
  have main: "snd sp = None" using sp pc Dispatch by (auto simp: agrees_def)
  show ?thesis
  proof (cases r)
    case None
    with Dispatch step show ?thesis using performs_idle [OF sp main] by (simp add: dispatch_step_def)
  next
    case (Some x)
    let ?rest = "if coe_cb x \<noteq> None then start_cb t a s else go_idle t True s"
    have cbs: "\<forall>b. sc_cb s t = Some b \<longrightarrow> fst sp b \<noteq> None" using known Dispatch Some by auto
    have rest: "\<exists>sp'. spec_run (cb_ops t a (coe_cb x) s) sp = Some sp' \<and> agrees sp' t s'" if "?rest = Inr s'"
      using that performs_idle [OF sp main, of True s'] performs_cb [OF sp main cbs new, of "coe_cb x" s']
      by (cases "coe_cb x") (auto simp: cb_ops_def)
    show ?thesis
    proof (cases "coe_coroutine x")
      case None
      with Dispatch Some step rest show ?thesis by (simp add: dispatch_step_def)
    next
      case (Some c)
      show ?thesis
      proof (cases "sc_state s c \<noteq> TERMINATED \<and> sc_state s c \<noteq> EXCEPT")
        case True
        with step Dispatch \<open>r = Some x\<close> Some
        have "sc_state s c \<noteq> EXEC" "s' = goto t (InCort c) (set_state c EXEC s)"
          by (auto simp: dispatch_step_def split: if_splits)
        with True Dispatch \<open>r = Some x\<close> Some show ?thesis
          using performs_swapIn [OF sp main, of c s' "InCort c"] known by auto
      next
        case False
        with step Dispatch \<open>r = Some x\<close> Some rest show ?thesis by (auto simp: dispatch_step_def)
      qed
    qed
  qed
next
  case (InCort c)
  have "snd sp = Some c" using sp pc InCort by (auto simp: agrees_def)
  then have "\<exists>sp'. spec_run [leave_op st] sp = Some sp' \<and> agrees sp' t s'"
    by (rule performs_leave [OF sp _ _ st(1), of c s' "LeaveCort c"]) (use InCort step known st(2) in auto)
  then show ?thesis by (simp only: InCort run_ops.simps)
next
  case (InCb c)
  have "snd sp = Some c" using sp pc InCb by (auto simp: agrees_def)
  then have "\<exists>sp'. spec_run [leave_op st] sp = Some sp' \<and> agrees sp' t s'"
    by (rule performs_leave [OF sp _ _ st(1), of c s' "LeaveCb c"]) (use InCb step known st(2) in auto)
  then show ?thesis by (simp only: InCb run_ops.simps)
next
  case (AfterCort c)
  with step left have "sc_pc s' t = Some AtLoop" "sc_state s' = sc_state s"
    by (auto simp: after_cort_def leaves_def fun_eq_iff)
  with AfterCort show ?thesis using performs_nothing [OF sp pc, of s' AtLoop] by auto
next
  case (AfterCb c)
  show ?thesis
  proof (cases "sc_state s c = EXCEPT \<or> sc_state s c = TERMINATED")
    case False
    with AfterCb step left have "sc_pc s' t = Some AtLoop" "sc_state s' = sc_state s"
      by (auto simp: after_cb_def leaves_def fun_eq_iff goto_def schedule_def set_state_def)
    with AfterCb False show ?thesis using performs_nothing [OF sp pc, of s' AtLoop] by auto
  next
    case True
    obtain sts where sts: "sp = (sts, None)" using sp pc AfterCb by (cases sp) (auto simp: agrees_def)
    obtain cb where "sts c = Some (sc_state s c, cb)" using agrees_state [OF sp, of c] known AfterCb sts by auto
    with True AfterCb have "spec_run (run_ops t st a p s) sp = Some (sts(c \<mapsto> (INIT, None)), None)" by (auto simp: sts)
    moreover have "agrees (sts(c \<mapsto> (INIT, None)), None) t s'"
      by (rule agreesI [of _ _ AtLoop])
        (use True AfterCb step sp sts in \<open>auto simp: after_cb_def agrees_def split: if_splits\<close>)
    ultimately show ?thesis by blast
  qed
qed (use sp step performs_nothing [OF sp pc, of s'] in \<open>auto simp: idle_step_def after_idle_def goto_def dec_active_def\<close>)

text \<open>A worker with the id 5 whose coroutine 7 is about to yield.\<close>

definition about_to_yield :: "unit sched" where
  "about_to_yield = \<lparr>m_coroutines = [], m_activeThreadCount = 1, m_idleThreadCount = 0, m_stopping = False,
     m_autoStop = False, sc_state = (\<lambda>_. EXEC), sc_objects = {7}, sc_pc = [5 \<mapsto> InCort 7], sc_idle = (\<lambda>_. INIT),
     sc_cb = (\<lambda>_. None)\<rparr>"

theorem run_performs_operations_witness:
  "agrees ([7 \<mapsto> (READY, Some ())], None) 5 (goto 5 (LeaveCort 7) (set_state 7 READY about_to_yield))"
proof -
  let ?sp = "([7 \<mapsto> (EXEC, Some ())], Some 7) :: unit spec"
  have "agrees ?sp 5 about_to_yield" "sc_pc about_to_yield 5 = Some (InCort 7)"
    by (simp_all add: agrees_def about_to_yield_def)
  from run_performs_operations [OF this, of READY 8 "goto 5 (LeaveCort 7) (set_state 7 READY about_to_yield)"]
  show ?thesis by (simp add: leaves_def)
qed

end
