(* ===== verification/Fair_Runs.thy ===== *)
theory Fair_Runs
  imports Prelude
begin

text \<open>
  Infinite runs in which every worker that is alive moves again and again, and the rule by which such
  a run comes to a goal: some worker, whenever it moves, brings the goal nearer.
\<close>

definition fair_run :: "('s \<Rightarrow> 's \<Rightarrow> bool) \<Rightarrow> ('w \<Rightarrow> 's \<Rightarrow> 's \<Rightarrow> bool) \<Rightarrow> ('w \<Rightarrow> 's \<Rightarrow> bool) \<Rightarrow> (nat \<Rightarrow> 's) \<Rightarrow> bool" where
  "fair_run step moves alive run \<longleftrightarrow> (\<forall>n. step (run n) (run (Suc n)))
     \<and> (\<forall>n w. alive w (run n) \<longrightarrow> (\<exists>m \<ge> n. moves w (run m) (run (Suc m))))"

lemma fair_runD:
  assumes "fair_run step moves alive run"
  shows "step (run n) (run (Suc n))" "alive w (run n) \<Longrightarrow> \<exists>m \<ge> n. moves w (run m) (run (Suc m))"
  using assms by (simp_all add: fair_run_def)

text \<open>While \<open>P\<close> holds, no step leads away from \<open>Q\<close>, and each move of \<open>w\<close> leads nearer to it.\<close>

locale helpful_worker =
  fixes step :: "'s \<Rightarrow> 's \<Rightarrow> bool" and moves :: "'w \<Rightarrow> 's \<Rightarrow> 's \<Rightarrow> bool" and alive :: "'w \<Rightarrow> 's \<Rightarrow> bool"
    and w :: 'w and P :: "'s \<Rightarrow> bool" and Q :: "'s \<Rightarrow> bool" and f :: "'s \<Rightarrow> nat"
  assumes helper: "P s \<Longrightarrow> alive w s"
    and others: "P s \<Longrightarrow> step s s' \<Longrightarrow> Q s' \<or> P s' \<and> f s' \<le> f s"
    and helps: "P s \<Longrightarrow> step s s' \<Longrightarrow> moves w s s' \<Longrightarrow> Q s' \<or> f s' < f s"
begin

lemma stays:
  assumes run: "fair_run step moves alive run" and P: "P (run n)"
  shows "(\<exists>j \<ge> n. Q (run j)) \<or> P (run (n + i)) \<and> f (run (n + i)) \<le> f (run n)"
proof (induction i)
  case (Suc i)
  show ?case
  proof (cases "\<exists>j \<ge> n. Q (run j)")
    case False
    with Suc have i: "P (run (n + i))" "f (run (n + i)) \<le> f (run n)" by auto
    from others [OF i(1) fair_runD(1) [OF run]] have "P (run (Suc (n + i))) \<and> f (run (Suc (n + i))) \<le> f (run (n + i))"
      using False by (meson le_add1 le_SucI)
    with i(2) show ?thesis by simp
  qed simp
qed (use P in simp)

lemma leads_to:
  assumes run: "fair_run step moves alive run" and "P (run n)"
  shows "\<exists>m \<ge> n. Q (run m)"
  using assms(2)
proof (induction "f (run n)" arbitrary: n rule: less_induct)
  case less
  obtain m where m: "n \<le> m" "moves w (run m) (run (Suc m))"
    using fair_runD(2) [OF run helper [OF less.prems]] by blast
  show ?case
  proof (cases "\<exists>j \<ge> n. Q (run j)")
    case False
    with stays [OF run less.prems, of "m - n"] m(1) have P: "P (run m)" "f (run m) \<le> f (run n)" by auto
    note step = fair_runD(1) [OF run, of m]
    have not: "\<not> Q (run (Suc m))" using False m(1) by (meson le_SucI)
    with others [OF P(1) step] have "P (run (Suc m))" by blast
    moreover have "f (run (Suc m)) < f (run n)" using helps [OF P(1) step m(2)] not P(2) by simp
    ultimately have "\<exists>j \<ge> Suc m. Q (run j)" using less.hyps by blast
    with m(1) show ?thesis by (meson Suc_leD le_trans)
  qed
qed

end

end
