(* ===== verification/Scheduler_Liveness.thy ===== *)
theory Scheduler_Liveness
  imports Scheduler_Drain Coroutine_Refinement Fair_Runs
begin

text \<open>
  The workers of a scheduler in fair runs: each worker moves again and again, whatever it does and
  whatever clients do in between. Entries do not starve, and after \<open>stop\<close> the workers leave their loops.
\<close>

section \<open>Fair runs of the scheduler\<close>

text \<open>A step of worker \<open>t\<close>; a task that leaves its coroutine in it does so in one of the states \<open>how\<close>.\<close>

definition worker_moves :: "(cort_state \<Rightarrow> bool) \<Rightarrow> int \<Rightarrow> 'task sched \<Rightarrow> 'task sched \<Rightarrow> bool" where
  "worker_moves how t s s' \<longleftrightarrow>
     (\<exists>p st a. sc_pc s t = Some p \<and> how st \<and> a \<notin> sc_objects s \<and> worker_step t st a p s = Inr s')"

abbreviation employed :: "int \<Rightarrow> 'task sched \<Rightarrow> bool" where
  "employed t s \<equiv> sc_pc s t \<noteq> None"

abbreviation fair_workers :: "(nat \<Rightarrow> 'task sched) \<Rightarrow> bool" where
  "fair_workers \<equiv> fair_run (sched_step tended) (worker_moves leaves) employed"

lemma drain_run:
  assumes "reach started (sched_step tended) (run 0)" and "fair_workers run"
  shows "drain_inv (run n)"
proof (induction n)
  case 0
  show ?case by (rule drain.reach_inv [OF assms(1)])
next
  case (Suc n)
  show ?case by (rule drain_step [OF fair_runD(1) [OF assms(2)] Suc])
qed

lemma sched_others:
  assumes "sched_step env s s'"
  shows "worker_moves leaves t s s' \<or> (sc_pc s' t = sc_pc s t \<and> sc_idle s' t = sc_idle s t)"
  using assms
proof cases
  case (worker u p st a)
  then show ?thesis
    using worker_others [OF worker(4), of t] by (cases "t = u") (auto simp: worker_moves_def)
qed auto

section \<open>The place of an entry in the queue\<close>

definition pos :: "'a \<Rightarrow> 'a list \<Rightarrow> nat" where
  "pos x q = length (takeWhile (\<lambda>y. y \<noteq> x) q)"

lemma pos_append: "x \<in> set q \<Longrightarrow> pos x (q @ zs) = pos x q"
  by (simp add: pos_def)

lemma pos_less: "x \<notin> set pre \<Longrightarrow> x \<noteq> y \<Longrightarrow> pos x (pre @ post) < pos x (pre @ y # post)"
  by (induction pre) (auto simp: pos_def)

definition taken :: "'task coe \<Rightarrow> 'task sched \<Rightarrow> bool" where
  "taken x s \<longleftrightarrow> (\<exists>t. sc_pc s t = Some (Dispatch (Some x)))"

lemma queued_eligible:
  assumes "drain_inv s" and "x \<in> set (m_coroutines s)"
  shows "eligible t (sc_state s) x"
proof -
  have inv: "exclusive_inv s" using assms(1) by (simp add: drain_inv_def)
  note facts = exclusive_facts [OF inv]
  have "sc_state s c \<noteq> EXEC" if c: "coe_coroutine x = Some c" for c
  proof
    assume "sc_state s c = EXEC"
    then obtain u where "holds s u c" using facts(8) exec_holds [OF facts(2)] by blast
    moreover have "c \<in> set (queued (m_coroutines s))" using assms(2) c by (auto simp: mem_queued)
    ultimately show False using facts(5) by blast
  qed
  with assms show ?thesis by (auto simp: eligible_defs drain_inv_def split: option.split)
qed

text \<open>A scan takes the entry or one in front of it.\<close>

lemma scan_takes:
  assumes drain: "drain_inv s" and x: "x \<in> set (m_coroutines s)" and scan: "scan_step t s = Inr s'"
  shows "taken x s' \<or> x \<in> set (m_coroutines s') \<and> pos x (m_coroutines s') < pos x (m_coroutines s)"
proof -
  have valid: "\<forall>y \<in> set (m_coroutines s). coe_valid y" using drain by (simp add: drain_inv_def exclusive_inv_def)
  note el = queued_eligible [OF drain x, of t]
  show ?thesis
  proof (cases rule: pick_cases [OF valid, of t "sc_state s", case_names none taken])
    case (none tk)
    with el x show ?thesis by blast
  next
    case (taken pre y post tk)
    then have s': "sc_pc s' t = Some (Dispatch (Some y))" "m_coroutines s' = pre @ post"
      using scan by (auto simp: scan_step_def)
    have "x \<notin> set pre" using taken(4) el by blast
    with s' taken(1) x pos_less [of x pre y post] show ?thesis by (cases "x = y") (auto simp: taken_def)
  qed
qed

lemma queue_step:
  assumes "worker_step t st a p s = Inr s'" and "p \<noteq> AtLoop"
  shows "\<exists>zs. m_coroutines s' = m_coroutines s @ zs"
proof (cases p)
  case (Dispatch r)
  with assms(1) have "dispatch_step t a r s = Inr s'" by simp
  then show ?thesis by (cases rule: dispatch_cases) auto
qed (use assms in \<open>auto simp: after_cort_def after_cb_def idle_step_def after_idle_def\<close>)

lemma pos_step:
  assumes drain: "drain_inv s" and x: "x \<in> set (m_coroutines s)" and step: "sched_step tended s s'"
  shows "taken x s' \<or> x \<in> set (m_coroutines s') \<and> pos x (m_coroutines s') \<le> pos x (m_coroutines s)"
  using step
proof cases
  case (worker t p st a)
  show ?thesis
  proof (cases "p = AtLoop")
    case True
    with worker(4) scan_takes [OF drain x, of t s'] show ?thesis by auto
  next
    case False
    with queue_step [OF worker(4)] x pos_append [OF x] show ?thesis by auto
  qed
qed (use x in \<open>auto simp: pos_append\<close>)

section \<open>Entries do not starve\<close>

text \<open>How many moves a worker is away from its next scan.\<close>

fun scan_dist :: "'task pc \<Rightarrow> nat" where
  "scan_dist (Dispatch (Some _)) = 5"
| "scan_dist (InCort _) = 4"
| "scan_dist (LeaveCort _) = 3"
| "scan_dist (BackCort _) = 2"
| "scan_dist (AfterCort _) = 1"
| "scan_dist (InCb _) = 4"
| "scan_dist (LeaveCb _) = 3"
| "scan_dist (BackCb _) = 2"
| "scan_dist (AfterCb _) = 1"
| "scan_dist (Dispatch None) = 3"
| "scan_dist InIdle = 2"
| "scan_dist BackIdle = 1"
| "scan_dist AtLoop = 0"
| "scan_dist Exited = 0"

definition worker_dist :: "int \<Rightarrow> 'task sched \<Rightarrow> nat" where
  "worker_dist t s = (case sc_pc s t of None \<Rightarrow> 0 | Some p \<Rightarrow> scan_dist p)"

lemma scan_closer:
  assumes drain: "drain_inv s" and w: "working s t" and pc: "sc_pc s t = Some p" and "p \<noteq> AtLoop"
    and step: "worker_step t st a p s = Inr s'"
  shows "working s' t \<and> worker_dist t s' < worker_dist t s"
proof (cases p)
  case (Dispatch r)
  then have disp: "dispatch_step t a r s = Inr s'" using step by simp
  have "r = Some x \<Longrightarrow> live s x" for x using drain pc Dispatch by (simp add: drain_inv_def)
  moreover have "r = None \<Longrightarrow> sc_idle s t \<noteq> TERMINATED" using w pc Dispatch by (simp add: working_def)
  ultimately show ?thesis
    using disp Dispatch pc by (auto simp: dispatch_step_def live_def start_cb_def go_idle_def working_def worker_dist_def
        split: option.splits if_splits)
qed (use assms in \<open>auto simp: working_def worker_dist_def after_cort_def after_cb_def idle_step_def after_idle_def\<close>)

interpretation scan: helpful_worker "sched_step tended" "worker_moves leaves" employed t
  "\<lambda>s. drain_inv s \<and> working s t \<and> x \<in> set (m_coroutines s) \<and> pos x (m_coroutines s) = k"
  "\<lambda>s. taken x s \<or> x \<in> set (m_coroutines s) \<and> pos x (m_coroutines s) < k" "worker_dist t" for t x k
proof unfold_locales
  fix s s' :: "'a sched"
  assume P: "drain_inv s \<and> working s t \<and> x \<in> set (m_coroutines s) \<and> pos x (m_coroutines s) = k"
  then show "employed t s" by (auto simp: working_def)
  assume step: "sched_step tended s s'"
  note drain = conjunct1 [OF P]
  have drain': "drain_inv s'" by (rule drain_step [OF step drain])
  note at = pos_step [OF drain _ step, of x]
  let ?Q = "taken x s' \<or> x \<in> set (m_coroutines s') \<and> pos x (m_coroutines s') < k"
  have move: "?Q \<or> working s' t \<and> worker_dist t s' < worker_dist t s" if move: "worker_moves leaves t s s'"
  proof -
    obtain p st a where p: "sc_pc s t = Some p" "worker_step t st a p s = Inr s'"
      using move by (auto simp: worker_moves_def)
    show ?thesis
    proof (cases "p = AtLoop")
      case True
      with p(2) scan_takes [OF drain, of x t s'] P show ?thesis by auto
    next
      case False
      with scan_closer [OF drain _ p(1) _ p(2)] P show ?thesis by blast
    qed
  qed
  then show "?Q \<or> worker_dist t s' < worker_dist t s" if "worker_moves leaves t s s'" using that by blast
  have "?Q \<or> working s' t \<and> worker_dist t s' \<le> worker_dist t s"
    using sched_others [OF step, of t] move P by (force simp: working_def worker_dist_def)
  with at P drain' show "?Q \<or> (drain_inv s' \<and> working s' t \<and> x \<in> set (m_coroutines s')
      \<and> pos x (m_coroutines s') = k) \<and> worker_dist t s' \<le> worker_dist t s" by force
qed

lemma entries_are_taken:
  assumes reach: "reach started (sched_step tended) (run 0)" and fair: "fair_workers run"
    and "x \<in> set (m_coroutines (run n))"
  shows "\<exists>m \<ge> n. taken x (run m)"
  using assms(3)
proof (induction "pos x (m_coroutines (run n))" arbitrary: n rule: less_induct)
  case less
  have drain: "drain_inv (run n)" by (rule drain_run [OF reach fair])
  with less.prems obtain t where t: "working (run n) t" by (auto simp: drain_inv_def)
  obtain m where m: "n \<le> m" "taken x (run m) \<or> x \<in> set (m_coroutines (run m))
      \<and> pos x (m_coroutines (run m)) < pos x (m_coroutines (run n))"
    using scan.leads_to [OF fair, of n t x "pos x (m_coroutines (run n))"] drain t less.prems by blast
  with less.hyps [of m] show ?case by (meson le_trans)
qed

text \<open>
  The step in which worker \<open>t\<close> starts the entry it has taken, with what the step does to the coroutines
  (\<open>run_ops\<close>): it switches to the entry's coroutine; or it gives the entry's task to a coroutine, the
  thread's \<open>cb_coroutine\<close> by \<open>reset\<close> or a new one by the constructor, and switches to that one.
\<close>

definition starts_entry :: "int \<Rightarrow> 'task coe \<Rightarrow> 'task sched \<Rightarrow> 'task sched \<Rightarrow> bool" where
  "starts_entry t x s s' \<longleftrightarrow> sc_pc s t = Some (Dispatch (Some x))
     \<and> (\<exists>c st a. a \<notin> sc_objects s \<and> worker_step t st a (Dispatch (Some x)) s = Inr s' \<and> sc_state s' c = EXEC
          \<and> (coe_coroutine x = Some c \<and> sc_pc s' t = Some (InCort c)
               \<and> run_ops t st a (Dispatch (Some x)) s = [SwapIn c]
             \<or> (\<exists>k. coe_cb x = Some k \<and> sc_pc s' t = Some (InCb c)
               \<and> (run_ops t st a (Dispatch (Some x)) s = [Reset c (Some k), SwapIn c]
                  \<or> c = a \<and> run_ops t st a (Dispatch (Some x)) s = [Create c (Some k) 0, SwapIn c]))))"

lemma start_cb_runs:
  assumes "start_cb t a s = Inr s'"
  shows "\<exists>c. sc_pc s' t = Some (InCb c) \<and> sc_state s' c = EXEC
    \<and> (cb_ops t a (Some k) s = [Reset c (Some k), SwapIn c] \<or> c = a \<and> cb_ops t a (Some k) s = [Create c (Some k) 0, SwapIn c])"
  using assms by (auto simp: start_cb_def cb_ops_def split: option.splits if_splits)

lemma dispatch_runs:
  assumes pc: "sc_pc s t = Some (Dispatch (Some x))" and new: "a \<notin> sc_objects s"
    and step: "worker_step t st a (Dispatch (Some x)) s = Inr s'" and live: "live s x"
  shows "starts_entry t x s s'"
proof (cases "\<exists>c. coe_coroutine x = Some c \<and> sc_state s c \<noteq> TERMINATED \<and> sc_state s c \<noteq> EXCEPT")
  case True
  then obtain c where c: "coe_coroutine x = Some c" "sc_state s c \<noteq> TERMINATED" "sc_state s c \<noteq> EXCEPT" by blast
  with step have "sc_pc s' t = Some (InCort c)" "sc_state s' c = EXEC"
    by (auto simp: dispatch_step_def split: if_splits)
  moreover have "run_ops t st a (Dispatch (Some x)) s = [SwapIn c]" using c by simp
  ultimately show ?thesis unfolding starts_entry_def using pc new step c(1) by blast
next
  case False
  with live obtain k where k: "coe_cb x = Some k" by (auto simp: live_def)
  have "start_cb t a s = Inr s'" and ops: "run_ops t st a (Dispatch (Some x)) s = cb_ops t a (Some k) s"
    using step False k by (auto simp: dispatch_step_def split: option.splits if_splits)
  from start_cb_runs [OF this(1), of k] obtain c where "sc_pc s' t = Some (InCb c)" "sc_state s' c = EXEC"
    "run_ops t st a (Dispatch (Some x)) s = [Reset c (Some k), SwapIn c]
      \<or> c = a \<and> run_ops t st a (Dispatch (Some x)) s = [Create c (Some k) 0, SwapIn c]"
    unfolding ops by blast
  then show ?thesis unfolding starts_entry_def using pc new step k by blast
qed

interpretation dispatched: helpful_worker "sched_step tended" "worker_moves leaves" employed t
  "\<lambda>s. sc_pc s t = Some (Dispatch (Some x))" "\<lambda>s. sc_pc s t \<noteq> Some (Dispatch (Some x))" "\<lambda>_. 0" for t x
proof unfold_locales
  fix s s' :: "'a sched"
  assume P: "sc_pc s t = Some (Dispatch (Some x))"
  then show "employed t s" by simp
  show "sc_pc s' t \<noteq> Some (Dispatch (Some x)) \<or> sc_pc s' t = Some (Dispatch (Some x)) \<and> 0 \<le> (0 :: nat)" by simp
  assume "worker_moves leaves t s s'"
  with P obtain st a where "dispatch_step t a (Some x) s = Inr s'" by (auto simp: worker_moves_def)
  then have "sc_pc s' t \<noteq> Some (Dispatch (Some x))" by (cases rule: dispatch_cases) auto
  then show "sc_pc s' t \<noteq> Some (Dispatch (Some x)) \<or> 0 < (0 :: nat)" by blast
qed

text \<open>C1. Entries do not starve. In every run of the scheduler from its start in which each worker makes its
  next step at some time, whatever tasks yield and whatever clients schedule in between, every entry of the
  queue is taken by a worker, which then starts it: it switches to the entry's coroutine, or it gives exactly
  the entry's task to a coroutine (the thread's own one, reset, or a new one) and switches to that. The
  clients' condition: each entry that is scheduled has a task or a coroutine that has not ended, is meant for
  any thread, its coroutine is not in the queue or with a worker already, and some worker is still going to
  scan the queue.\<close>

theorem entries_do_not_starve:
  assumes "reach started (sched_step tended) (run 0)" and "fair_workers run" and "x \<in> set (m_coroutines (run n))"
  shows "\<exists>m \<ge> n. \<exists>t. sc_pc (run m) t = Some (Dispatch (Some x)) \<and> (\<exists>k \<ge> m. starts_entry t x (run k) (run (Suc k)))"
proof -
  obtain m t where m: "n \<le> m" "sc_pc (run m) t = Some (Dispatch (Some x))"
    using entries_are_taken [OF assms] by (auto simp: taken_def)
  obtain j where j: "j \<ge> m" "sc_pc (run j) t \<noteq> Some (Dispatch (Some x))"
    using dispatched.leads_to [OF assms(2) m(2)] by blast
  have "\<exists>k \<ge> m. sc_pc (run k) t = Some (Dispatch (Some x)) \<and> sc_pc (run (Suc k)) t \<noteq> Some (Dispatch (Some x))"
    using j
  proof (induction j rule: dec_induct)
    case base
    with m(2) show ?case by simp
  next
    case (step i)
    then show ?case by blast
  qed
  then obtain k where k: "m \<le> k" "sc_pc (run k) t = Some (Dispatch (Some x))"
    "sc_pc (run (Suc k)) t \<noteq> Some (Dispatch (Some x))" by blast
  have "worker_moves leaves t (run k) (run (Suc k))"
    using sched_others [OF fair_runD(1) [OF assms(2), of k], of t] k(2,3) by auto
  moreover have "live (run k) x" using drain_run [OF assms(1,2), of k] k(2) by (auto simp: drain_inv_def)
  ultimately have "starts_entry t x (run k) (run (Suc k))"
    using dispatch_runs [OF k(2)] k(2) unfolding worker_moves_def by auto
  with m k(1) show ?thesis by blast
qed

section \<open>The work that is left\<close>

text \<open>A task that ends or sleeps, but does not yield.\<close>

definition ends :: "cort_state \<Rightarrow> bool" where
  "ends st \<longleftrightarrow> leaves st \<and> st \<noteq> READY"

text \<open>How many moves are left for a worker before it is idle, with the scans for the coroutines that
  have yielded and are not yet in the queue again.\<close>

definition again :: "'task sched \<Rightarrow> addr \<Rightarrow> nat" where
  "again s c = (if sc_state s c = READY then 7 else 0)"

fun weight :: "'task sched \<Rightarrow> 'task pc \<Rightarrow> nat" where
  "weight s (Dispatch (Some _)) = 6"
| "weight s (InCort _) = 5"
| "weight s (LeaveCort c) = 4 + again s c"
| "weight s (BackCort c) = 3 + again s c"
| "weight s (AfterCort c) = 2 + again s c"
| "weight s (InCb _) = 5"
| "weight s (LeaveCb c) = 4 + again s c"
| "weight s (BackCb c) = 3 + again s c"
| "weight s (AfterCb c) = 2 + again s c"
| "weight s _ = 0"

definition worker_weight :: "'task sched \<Rightarrow> int \<Rightarrow> nat" where
  "worker_weight s t = (case sc_pc s t of None \<Rightarrow> 0 | Some p \<Rightarrow> weight s p)"

definition work :: "'task sched \<Rightarrow> nat" where
  "work s = 7 * length (m_coroutines s) + (\<Sum>t \<in> dom (sc_pc s). worker_weight s t)"

lemma move_employed:
  assumes "sc_pc s t = Some p" and "worker_step t st a p s = Inr s'"
  shows "\<exists>p'. sc_pc s' t = Some p'"
proof (cases p)
  case (Dispatch r)
  with assms(2) have "dispatch_step t a r s = Inr s'" by simp
  then show ?thesis by (cases rule: dispatch_cases) auto
qed (use assms in \<open>auto simp: scan_step_def obind_Inr_iff after_cort_def after_cb_def idle_step_def after_idle_def\<close>)

lemma move_dom:
  assumes "sc_pc s t = Some p" and "worker_step t st a p s = Inr s'"
  shows "dom (sc_pc s') = dom (sc_pc s)"
proof -
  have "sc_pc s' u = None \<longleftrightarrow> sc_pc s u = None" for u
    using worker_others [OF assms(2), of u] move_employed [OF assms] assms(1) by (cases "u = t") auto
  then show ?thesis by (auto simp: dom_def)
qed

lemma sched_dom: "sched_step env s s' \<Longrightarrow> dom (sc_pc s') = dom (sc_pc s)"
  by (erule sched_step.cases) (simp_all add: move_dom)

interpretation workforce: invariant_system started "sched_step env" "\<lambda>s. finite (dom (sc_pc s))" for env
proof unfold_locales
  show "finite (dom (sc_pc s))" if "started s" for s :: "'a sched"
    using that by (auto elim!: started.cases simp: dom_def)
qed (simp add: sched_dom)

text \<open>A move of one worker changes the weight of no other.\<close>

lemma weight_other:
  assumes inv: "exclusive_inv s" and pc: "sc_pc s t = Some p" and a: "a \<notin> sc_objects s"
    and step: "worker_step t st a p s = Inr s'" and u: "u \<noteq> t"
  shows "worker_weight s' u = worker_weight s u"
proof -
  note facts = exclusive_facts [OF inv]
  have same: "sc_state s' c = sc_state s c" if "holds s u c" for c
    using worker_state [OF inv pc a step, of c] facts(3,4) that u by blast
  have pc': "sc_pc s' u = sc_pc s u" using worker_others [OF step u] by blast
  show ?thesis
  proof (cases "sc_pc s u")
    case (Some q)
    have "cort_pc q = Some c \<or> cb_pc q = Some c \<Longrightarrow> holds s u c" for c
      using facts(2) [of u] Some by (auto simp: worker_ok_at holds_at)
    with same have "weight s' q = weight s q" by (cases "(s, q)" rule: weight.cases) (auto simp: again_def)
    with Some pc' show ?thesis by (simp add: worker_weight_def)
  qed (simp add: worker_weight_def pc')
qed

lemma weight_own:
  assumes inv: "exclusive_inv s" and pc: "sc_pc s t = Some p" and "ends st" and step: "worker_step t st a p s = Inr s'"
  shows "7 * length (m_coroutines s') + worker_weight s' t \<le> 7 * length (m_coroutines s) + worker_weight s t
    \<and> (0 < worker_weight s t \<longrightarrow>
         7 * length (m_coroutines s') + worker_weight s' t < 7 * length (m_coroutines s) + worker_weight s t)"
proof (cases p)
  case AtLoop
  have valid: "\<forall>y \<in> set (m_coroutines s). coe_valid y" using inv by (simp add: exclusive_inv_def)
  show ?thesis
    by (cases rule: pick_cases [OF valid, of t "sc_state s", case_names none taken])
      (use step AtLoop pc in \<open>auto simp: scan_step_def worker_weight_def\<close>)
next
  case (Dispatch r)
  then have disp: "dispatch_step t a r s = Inr s'" using step by simp
  show ?thesis
  proof (cases r)
    case None
    with disp pc Dispatch show ?thesis
      by (auto simp: dispatch_step_def go_idle_def worker_weight_def split: if_splits)
  next
    case (Some x)
    with disp pc Dispatch show ?thesis by (cases rule: dispatch_cases) (auto simp: worker_weight_def)
  qed
qed (use assms in \<open>auto simp: worker_weight_def again_def ends_def after_cort_def after_cb_def idle_step_def after_idle_def\<close>)

lemma work_move:
  assumes drain: "drain_inv s" and fin: "finite (dom (sc_pc s))" and move: "worker_moves ends t s s'"
  shows "work s' \<le> work s \<and> (0 < worker_weight s t \<longrightarrow> work s' < work s)"
proof -
  have inv: "exclusive_inv s" using drain by (simp add: drain_inv_def)
  obtain p st a where p: "sc_pc s t = Some p" "ends st" "a \<notin> sc_objects s" "worker_step t st a p s = Inr s'"
    using move by (auto simp: worker_moves_def)
  have t: "t \<in> dom (sc_pc s)" using p(1) by blast
  have dom: "dom (sc_pc s') = dom (sc_pc s)" by (rule move_dom [OF p(1,4)])
  have rest: "(\<Sum>u \<in> dom (sc_pc s) - {t}. worker_weight s' u) = (\<Sum>u \<in> dom (sc_pc s) - {t}. worker_weight s u)"
    by (rule sum.cong) (use weight_other [OF inv p(1,3,4)] in auto)
  show ?thesis
    unfolding work_def dom sum.remove [OF fin t] rest using weight_own [OF inv p(1,2,4)] by auto
qed

section \<open>The workers leave their loops\<close>

text \<open>Nobody but the workers moves, and no task yields.\<close>

abbreviation quiet_step :: "'task sched \<Rightarrow> 'task sched \<Rightarrow> bool" where
  "quiet_step s s' \<equiv> \<exists>t. worker_moves ends t s s'"

abbreviation quiet_run :: "(nat \<Rightarrow> 'task sched) \<Rightarrow> bool" where
  "quiet_run \<equiv> fair_run quiet_step (worker_moves ends) employed"

lemma ends_leaves: "worker_moves ends t s s' \<Longrightarrow> worker_moves leaves t s s'"
  by (auto simp: worker_moves_def ends_def)

lemma quiet_sched: "quiet_step s s' \<Longrightarrow> sched_step env s s'"
  by (auto simp: worker_moves_def ends_def intro: sched_step.worker)

lemma quiet_fair: "quiet_run run \<Longrightarrow> fair_workers run"
  unfolding fair_run_def by (meson quiet_sched ends_leaves)

lemma quiet_reach:
  assumes "reach started (sched_step tended) (run 0)" and "quiet_run run"
  shows "reach started (sched_step tended) (run n)"
proof (induction n)
  case (Suc n)
  show ?case by (rule reach_step [OF Suc quiet_sched [OF fair_runD(1) [OF assms(2)]]])
qed (rule assms(1))

text \<open>A worker that still has something to do gets it done.\<close>

interpretation busy: helpful_worker quiet_step "worker_moves ends" employed t
  "\<lambda>s. drain_inv s \<and> finite (dom (sc_pc s)) \<and> 0 < worker_weight s t \<and> work s = k" "\<lambda>s. work s < k" "\<lambda>_. 0" for t k
proof unfold_locales
  fix s s' :: "'a sched"
  assume P: "drain_inv s \<and> finite (dom (sc_pc s)) \<and> 0 < worker_weight s t \<and> work s = k"
  then show "employed t s" by (auto simp: worker_weight_def split: option.splits)
  show "work s' < k \<or> 0 < (0 :: nat)" if "worker_moves ends t s s'"
    using work_move [OF _ _ that] P by auto
  assume step: "quiet_step s s'"
  then obtain u where u: "worker_moves ends u s s'" ..
  note work = work_move [OF _ _ u]
  have "worker_weight s' t = worker_weight s t" if "u \<noteq> t"
    using u that P weight_other [of s u _ _ _ s' t] by (fastforce simp: worker_moves_def drain_inv_def)
  moreover have "drain_inv s'" "finite (dom (sc_pc s'))"
    using drain_step [OF quiet_sched [OF step]] sched_dom [OF quiet_sched [OF step]] P by auto
  ultimately show "work s' < k \<or> (drain_inv s' \<and> finite (dom (sc_pc s')) \<and> 0 < worker_weight s' t \<and> work s' = k)
      \<and> 0 \<le> (0 :: nat)"
    using work P by (cases "u = t") force+
qed

text \<open>\<open>stop\<close> is not taken back.\<close>

lemma stop_flags_worker:
  assumes "worker_step t st a p s = Inr s'"
  shows "m_autoStop s' = m_autoStop s" "m_stopping s' = m_stopping s"
proof -
  have "m_autoStop s' = m_autoStop s \<and> m_stopping s' = m_stopping s"
  proof (cases p)
    case (Dispatch r)
    with assms have "dispatch_step t a r s = Inr s'" by simp
    then show ?thesis by (cases rule: dispatch_cases) auto
  qed (use assms in \<open>auto simp: scan_step_def obind_Inr_iff after_cort_def after_cb_def idle_step_def after_idle_def split: if_splits\<close>)
  then show "m_autoStop s' = m_autoStop s" "m_stopping s' = m_stopping s" by blast+
qed

lemma stop_flags_stay:
  "sched_step env s s' \<Longrightarrow> m_autoStop s \<and> m_stopping s \<Longrightarrow> m_autoStop s' \<and> m_stopping s'"
  by (erule sched_step.cases) (simp_all add: stop_flags_worker)

text \<open>Nothing is left to do.\<close>

fun resting :: "'task pc \<Rightarrow> bool" where
  "resting AtLoop \<longleftrightarrow> True"
| "resting (Dispatch r) \<longleftrightarrow> r = None"
| "resting InIdle \<longleftrightarrow> True"
| "resting BackIdle \<longleftrightarrow> True"
| "resting Exited \<longleftrightarrow> True"
| "resting _ \<longleftrightarrow> False"

lemma weight_resting: "weight s p = 0 \<longleftrightarrow> resting p"
  by (cases "(s, p)" rule: weight.cases) auto

definition settled :: "'task sched \<Rightarrow> bool" where
  "settled s \<longleftrightarrow> stopping s \<and> (\<forall>t p. sc_pc s t = Some p \<longrightarrow> resting p)"

lemma work_ends:
  assumes reach: "reach started (sched_step tended) (run 0)" and quiet: "quiet_run run"
    and flags: "m_autoStop (run 0)" "m_stopping (run 0)"
  shows "\<exists>n. settled (run n)"
proof -
  note reached = quiet_reach [OF reach quiet]
  note drain = drain_run [OF reach quiet_fair [OF quiet]]
  have fin: "finite (dom (sc_pc (run n)))" for n by (rule workforce.reach_inv [OF reached])
  obtain n where least: "\<And>m. work (run n) \<le> work (run m)"
    using ex_has_least_nat [of "\<lambda>_. True" 0 "\<lambda>n. work (run n)"] by auto
  have down: "work (run (n + i)) \<le> work (run n)" for i
  proof (induction i)
    case (Suc i)
    obtain t where "worker_moves ends t (run (n + i)) (run (Suc (n + i)))" using fair_runD(1) [OF quiet] by blast
    with work_move [OF drain fin] Suc show ?case by fastforce
  qed simp
  have idle: "worker_weight (run m) t = 0" if "n \<le> m" for m t
  proof (rule ccontr)
    assume "worker_weight (run m) t \<noteq> 0"
    then obtain j where "work (run j) < work (run m)"
      using busy.leads_to [OF quiet, of m t "work (run m)"] drain fin by blast
    with least [of j] down [of "m - n"] that show False by simp
  qed
  have "m_coroutines (run n) = []"
  proof (rule ccontr)
    assume "m_coroutines (run n) \<noteq> []"
    then obtain x where "x \<in> set (m_coroutines (run n))" by (cases "m_coroutines (run n)") auto
    then obtain m t where "n \<le> m" "sc_pc (run m) t = Some (Dispatch (Some x))"
      using entries_are_taken [OF reach quiet_fair [OF quiet]] unfolding taken_def by blast
    with idle [of m t] show False by (simp add: worker_weight_def)
  qed
  moreover have rest: "resting p" if "sc_pc (run n) t = Some p" for t p
    using idle [of n t] that by (simp add: worker_weight_def weight_resting)
  moreover have "flight (run n) = {}"
  proof -
    have "\<not> flight_pc p" if "sc_pc (run n) t = Some p" for t p using rest [OF that] by (cases p) auto
    then show ?thesis by (auto simp: at_pc_def)
  qed
  moreover have "m_autoStop (run m) \<and> m_stopping (run m)" for m
  proof (induction m)
    case (Suc m)
    then show ?case using stop_flags_stay [OF quiet_sched [OF fair_runD(1) [OF quiet]]] by blast
  qed (use flags in simp)
  ultimately show ?thesis
    using thread_counts.reach_inv [OF reached, of n] by (auto simp: settled_def stopping_def counts_inv_def)
qed

text \<open>How many moves a worker then is away from its end.\<close>

fun exit_pc :: "bool \<Rightarrow> 'task pc \<Rightarrow> nat" where
  "exit_pc idle_ended AtLoop = (if idle_ended then 2 else 6)"
| "exit_pc idle_ended (Dispatch _) = (if idle_ended then 1 else 5)"
| "exit_pc idle_ended InIdle = 4"
| "exit_pc idle_ended BackIdle = (if idle_ended then 3 else 7)"
| "exit_pc idle_ended _ = 0"

definition exit_dist :: "int \<Rightarrow> 'task sched \<Rightarrow> nat" where
  "exit_dist t s = (case sc_pc s t of None \<Rightarrow> 0 | Some p \<Rightarrow> exit_pc (sc_idle s t = TERMINATED) p)"

lemma settled_move:
  assumes settled: "settled s" and move: "worker_moves ends t s s'"
  shows "settled s'" "\<And>u. u \<noteq> t \<Longrightarrow> exit_dist u s' = exit_dist u s" "employed u s' \<longleftrightarrow> employed u s"
    "sc_pc s' t = Some Exited \<or> exit_dist t s' < exit_dist t s"
    "sc_pc s u = Some Exited \<Longrightarrow> sc_pc s' u = Some Exited"
proof -
  obtain p st a where p: "sc_pc s t = Some p" "worker_step t st a p s = Inr s'" using move by (auto simp: worker_moves_def)
  have r: "resting p" using settled p(1) by (simp add: settled_def)
  note others = worker_others [OF p(2)]
  have "settled s' \<and> (sc_pc s' t = Some Exited \<or> exit_dist t s' < exit_dist t s)"
    using r p settled
    by (cases p) (auto simp: settled_def stopping_def scan_step_def dispatch_step_def go_idle_def idle_step_def after_idle_def
        exit_dist_def split: if_splits)
  then show "settled s'" "sc_pc s' t = Some Exited \<or> exit_dist t s' < exit_dist t s" by blast+
  show "u \<noteq> t \<Longrightarrow> exit_dist u s' = exit_dist u s" for u using others [of u] by (simp add: exit_dist_def split: option.split)
  show "employed u s' \<longleftrightarrow> employed u s" using move_dom [OF p] by auto
  show "sc_pc s u = Some Exited \<Longrightarrow> sc_pc s' u = Some Exited" using others [of u] p by (cases "u = t") auto
qed

interpretation exit: helpful_worker quiet_step "worker_moves ends" employed t
  "\<lambda>s. settled s \<and> employed t s" "\<lambda>s. sc_pc s t = Some Exited" "exit_dist t" for t
proof unfold_locales
  fix s s' :: "'a sched"
  assume P: "settled s \<and> employed t s"
  then show "employed t s" ..
  show "sc_pc s' t = Some Exited \<or> exit_dist t s' < exit_dist t s" if "worker_moves ends t s s'"
    by (rule settled_move(4) [OF conjunct1 [OF P] that])
  assume "quiet_step s s'"
  then obtain u where "worker_moves ends u s s'" ..
  note move = settled_move [OF conjunct1 [OF P] this]
  show "sc_pc s' t = Some Exited \<or> (settled s' \<and> employed t s') \<and> exit_dist t s' \<le> exit_dist t s"
    using move(1,2,4) move(3) [of t] P by (cases "u = t") auto
qed

lemma settled_stays:
  assumes quiet: "quiet_run run" and "settled (run n)"
  shows "settled (run (n + i))" "dom (sc_pc (run (n + i))) = dom (sc_pc (run n))"
    "sc_pc (run n) t = Some Exited \<Longrightarrow> sc_pc (run (n + i)) t = Some Exited"
proof -
  have "settled (run (n + i)) \<and> dom (sc_pc (run (n + i))) = dom (sc_pc (run n))
    \<and> (sc_pc (run n) t = Some Exited \<longrightarrow> sc_pc (run (n + i)) t = Some Exited)" (is "?stays i")
  proof (induction i)
    case (Suc i)
    obtain u where u: "worker_moves ends u (run (n + i)) (run (Suc (n + i)))" using fair_runD(1) [OF quiet] by blast
    have "dom (sc_pc (run (Suc (n + i)))) = dom (sc_pc (run (n + i)))"
      by (rule sched_dom [OF quiet_sched [OF fair_runD(1) [OF quiet]]])
    with Suc settled_move(1,5) [OF _ u] show ?case by auto
  qed (use assms(2) in simp)
  then show "settled (run (n + i))" "dom (sc_pc (run (n + i))) = dom (sc_pc (run n))"
    "sc_pc (run n) t = Some Exited \<Longrightarrow> sc_pc (run (n + i)) t = Some Exited" by blast+
qed

lemma all_exit:
  assumes quiet: "quiet_run run" and settled: "settled (run n)" and "finite D" and "D \<subseteq> dom (sc_pc (run n))"
  shows "\<exists>m \<ge> n. \<forall>t \<in> D. sc_pc (run m) t = Some Exited"
  using assms(3,4)
proof (induction D)
  case (insert t D)
  then obtain m where m: "n \<le> m" "\<forall>t \<in> D. sc_pc (run m) t = Some Exited" by blast
  have at_m: "settled (run m)" "employed t (run m)"
    using settled_stays(1,2) [OF quiet settled, of "m - n"] m(1) insert.prems by auto
  with exit.leads_to [OF quiet, of m t] obtain j where j: "m \<le> j" "sc_pc (run j) t = Some Exited" by blast
  moreover have "\<forall>u \<in> D. sc_pc (run j) u = Some Exited"
    using settled_stays(3) [OF quiet at_m(1), of _ "j - m"] m(2) j(1) by simp
  ultimately show ?case using m(1) by (intro exI [of _ j]) auto
qed auto

text \<open>C2. Stopping ends the workers, if clients have scheduled only what the workers can take: the state in
  which both flags of \<open>stop\<close> are set is reached from the start by steps of the workers, settings of the
  flags, and calls of \<open>schedule\<close> with entries meant for any thread (\<open>-1\<close>), that have a task or a coroutine
  that has not ended, whose coroutine is neither in the queue nor with a worker, and while some worker is
  still going to scan the queue. From there on nobody schedules anything more and tasks that run end or
  sleep (they do not yield). Then in every run in which each worker makes its next step at some time there
  comes a point from which on all workers have left their loops, the queue is empty and no worker counts as
  active: the threads that \<open>stop\<close> joins come to their end, with all work done. (An entry for a thread that
  does not exist keeps them for ever: \<open>pinned_entry_blocks_stop\<close>.)\<close>

theorem stopping_ends_the_workers:
  assumes reach: "reach started (sched_step tended) (run 0)" and flags: "m_autoStop (run 0)" "m_stopping (run 0)"
    and quiet: "quiet_run run"
  shows "\<exists>n. \<forall>m \<ge> n. m_coroutines (run m) = [] \<and> m_activeThreadCount (run m) = 0
    \<and> (\<forall>t p. sc_pc (run m) t = Some p \<longrightarrow> p = Exited)"
proof -
  obtain n where n: "settled (run n)" using work_ends [OF reach quiet flags] by blast
  obtain m where m: "n \<le> m" "\<forall>t \<in> dom (sc_pc (run n)). sc_pc (run m) t = Some Exited"
    using all_exit [OF quiet n workforce.reach_inv [OF quiet_reach [OF reach quiet]]] by blast
  have "m_coroutines (run j) = [] \<and> m_activeThreadCount (run j) = 0 \<and> (\<forall>t p. sc_pc (run j) t = Some p \<longrightarrow> p = Exited)"
    if "m \<le> j" for j
  proof -
    have at_m: "settled (run m)" "dom (sc_pc (run m)) = dom (sc_pc (run n))"
      using settled_stays(1,2) [OF quiet n, of "m - n"] m(1) by simp_all
    note at_j = settled_stays [where i = "j - m", OF quiet at_m(1)]
    have "p = Exited" if "sc_pc (run j) t = Some p" for t p
      using at_j(2) at_j(3) [of t] m(2) at_m(2) that \<open>m \<le> j\<close> by (metis domI le_add_diff_inverse option.inject)
    with at_j(1) \<open>m \<le> j\<close> show ?thesis by (simp add: settled_def stopping_def)
  qed
  then show ?thesis by blast
qed

section \<open>A fair run\<close>

text \<open>One worker with one task in the queue, after \<open>stop\<close> has set its flags; a new coroutine object of
  step \<open>n\<close> gets the address \<open>n\<close>.\<close>

definition solo_entry :: "unit coe" where
  "solo_entry = coe_of_task (Some ()) (- 1)"

primrec solo :: "nat \<Rightarrow> unit sched" where
  "solo 0 = schedule solo_entry example_sched\<lparr>m_autoStop := True, m_stopping := True\<rparr>"
| "solo (Suc n) = advance 1 TERMINATED n (solo n)"

lemma move_objects:
  assumes "worker_step t st a p s = Inr s'"
  shows "sc_objects s' \<subseteq> insert a (sc_objects s)"
proof (cases p)
  case (Dispatch r)
  with assms have "dispatch_step t a r s = Inr s'" by simp
  then show ?thesis by (cases rule: dispatch_cases) auto
qed (use assms in \<open>auto simp: scan_step_def obind_Inr_iff after_cort_def after_cb_def idle_step_def after_idle_def split: if_splits\<close>)

lemma solo_start: "reach started (sched_step tended) (solo 0)"
proof -
  have "tended example_sched solo_entry"
    by (auto simp: tended_def unclaimed_def live_def working_def solo_entry_def coe_of_task_def example_sched_def
        intro!: exI [of _ 1])
  then have "reach started (sched_step tended) (schedule solo_entry example_sched)"
    by (intro reach_client reach_init example_started)
  then have "reach started (sched_step tended) ((schedule solo_entry example_sched)\<lparr>m_autoStop := True\<rparr>\<lparr>m_stopping := True\<rparr>)"
    by (rule reach_step [OF reach_step]) (rule sched_step.auto_stop, rule sched_step.stop_flag)
  then show ?thesis by simp
qed

lemma solo_moves:
  "reach started (sched_step tended) (solo n) \<and> dom (sc_pc (solo n)) = {1} \<and> sc_objects (solo n) \<subseteq> {..<n}
     \<and> worker_moves ends 1 (solo n) (solo (Suc n))"
proof -
  have move: "worker_moves ends 1 (solo n) (solo (Suc n)) \<and> dom (sc_pc (solo (Suc n))) = {1}
      \<and> sc_objects (solo (Suc n)) \<subseteq> {..<Suc n}"
    if reach: "reach started (sched_step tended) (solo n)" and dom: "dom (sc_pc (solo n)) = {1}" and objs: "sc_objects (solo n) \<subseteq> {..<n}" for n
  proof -
    obtain p where p: "sc_pc (solo n) 1 = Some p" using dom by auto
    have "exclusive_inv (solo n)" using drain.reach_inv [OF reach] by (simp add: drain_inv_def)
    from exclusive_progress [OF this p] obtain s' where s': "worker_step 1 TERMINATED n p (solo n) = Inr s'" by blast
    then have "solo (Suc n) = s'" using p by (simp add: advance_def)
    moreover have "n \<notin> sc_objects (solo n)" using objs by auto
    ultimately show ?thesis
      using p s' move_dom [OF p s'] move_objects [OF s'] dom objs
      by (auto simp: worker_moves_def ends_def leaves_def less_Suc_eq simp del: worker_step.simps intro!: exI [of _ TERMINATED])
  qed
  have "reach started (sched_step tended) (solo n) \<and> dom (sc_pc (solo n)) = {1} \<and> sc_objects (solo n) \<subseteq> {..<n}"
  proof (induction n)
    case 0
    show ?case using solo_start by (auto simp: example_sched_def split: if_splits)
  next
    case (Suc n)
    with move [of n] reach_step [of started "sched_step tended" "solo n"] quiet_sched [of "solo n"] show ?case by blast
  qed
  with move [of n] show ?thesis by blast
qed

lemma solo_quiet: "quiet_run solo"
  unfolding fair_run_def using solo_moves by (metis domI insertE empty_iff not_None_eq order_refl)

theorem entries_do_not_starve_witness:
  "\<exists>m t. sc_pc (solo m) t = Some (Dispatch (Some solo_entry)) \<and> (\<exists>k \<ge> m. starts_entry t solo_entry (solo k) (solo (Suc k)))"
proof -
  have "solo_entry \<in> set (m_coroutines (solo 0))" by (simp add: example_sched_def solo_entry_def coe_of_task_def coe_valid_def)
  from entries_do_not_starve [OF solo_start quiet_fair [OF solo_quiet] this] show ?thesis by blast
qed

theorem stopping_ends_the_workers_witness:
  "\<exists>n. m_coroutines (solo n) = [] \<and> sc_pc (solo n) 1 = Some Exited"
proof -
  obtain n where n: "m_coroutines (solo n) = []" "\<forall>t p. sc_pc (solo n) t = Some p \<longrightarrow> p = Exited"
    using stopping_ends_the_workers [OF solo_start _ _ solo_quiet] by auto
  moreover have "sc_pc (solo n) 1 \<noteq> None" using solo_moves [of n] by auto
  ultimately show ?thesis by blast
qed

end
