(* ===== verification/Coroutine_Limits.thy ===== *)
theory Coroutine_Limits
  imports Coroutine_Switch
begin

text \<open>
  Where the coroutine operations stop working: switching into a coroutine from another coroutine
  instead of from the scheduler coroutine, and calling a coroutine whose task has ended.
\<close>

section \<open>Nested switches\<close>

text \<open>Any operation on objects that exist, with no regard to the scheduler's discipline.\<close>

fun on_live :: "'task cort_op \<Rightarrow> 'task cmachine \<Rightarrow> bool" where
  "on_live (Create a cb sz) m \<longleftrightarrow> corts m a = None"
| "on_live (SwapIn a) m \<longleftrightarrow> corts m a \<noteq> None"
| "on_live (Reset a cb) m \<longleftrightarrow> corts m a \<noteq> None"
| "on_live (Destroy a) m \<longleftrightarrow> corts m a \<noteq> None"
| "on_live _ m \<longleftrightarrow> True"

inductive any_step :: "32 word \<Rightarrow> 'task cmachine \<Rightarrow> 'task cmachine \<Rightarrow> bool" for dflt where
  "on_live x m \<Longrightarrow> run_op dflt x m = (r, m') \<Longrightarrow> any_step dflt m m'"

text \<open>No context leads back to the thread's own stack, and it is not running.\<close>

definition lost :: "'task cmachine \<Rightarrow> bool" where
  "lost m \<longleftrightarrow> running m \<noteq> Native \<and> (\<forall>a. ctxs m a \<noteq> Resume Native)"

lemma lost_swapcontext:
  "lost m \<Longrightarrow> save \<noteq> Resume Native \<Longrightarrow> swapcontext frm save to m = (r, m') \<Longrightarrow> lost m'"
  by (auto simp: lost_def swapcontext_def Let_def split: ucontext.splits if_splits)

lemma lost_frame [simp]:
  "lost (SetCurrent p m) = lost m" "lost (setState a st m) = lost m" "lost (cupd a f m) = lost m"
  "running (SetCurrent p m) = running m" "running (setState a st m) = running m"
  "running (cupd a f m) = running m"
  by (simp_all add: lost_def SetCurrent_def setState_def cupd_def)

lemma lost_GetCurrent: "lost m \<Longrightarrow> GetCurrent a m = (c, m') \<Longrightarrow> lost m' \<and> running m' = running m"
  by (auto simp: lost_def GetCurrent_def new_main_def SetCurrent_def split: option.splits if_splits)

lemma lost_running: "lost m \<Longrightarrow> running m \<noteq> Native"
  by (simp add: lost_def)

lemma lost_switches:
  "lost m \<Longrightarrow> swapIn a m = (r, m') \<Longrightarrow> lost m'"
  "lost m \<Longrightarrow> save \<noteq> Resume Native \<Longrightarrow> swapOut a save m = (r, m') \<Longrightarrow> lost m'"
  "lost m \<Longrightarrow> save \<noteq> Resume Native \<Longrightarrow> back_cort a save m = (r, m') \<Longrightarrow> lost m'"
  by (auto simp: swapIn_def swapOut_def back_cort_def Let_def
      split: if_splits option.splits dest: lost_running elim!: lost_swapcontext [rotated 2])

lemma lost_swapOut_running: "lost m \<Longrightarrow> swapOut a (Resume (running m)) m = (r, m') \<Longrightarrow> lost m'"
  by (rule lost_switches(2)) (auto dest: lost_running)

lemma lost_suspend:
  assumes "lost m"
  shows "Yield a m = (r, m') \<Longrightarrow> lost m'" and "Sleep a m = (r, m') \<Longrightarrow> lost m'"
    and "finish a returned m = (r, m') \<Longrightarrow> lost m'"
proof -
  obtain c g where g: "GetCurrent a m = (c, g)" by (cases "GetCurrent a m")
  with assms have "lost g" by (auto dest: lost_GetCurrent)
  then have st: "lost (setState c st g)" for st by simp
  show "Yield a m = (r, m') \<Longrightarrow> lost m'"
    using lost_swapOut_running [OF st, of c] by (simp add: Yield_def g)
  show "Sleep a m = (r, m') \<Longrightarrow> lost m'"
    using lost_swapOut_running [OF st, of c] by (simp add: Sleep_def g)
  have e: "lost (task_end returned c g)"
    using \<open>lost g\<close> by (simp add: task_end_def)
  show "finish a returned m = (r, m') \<Longrightarrow> lost m'"
    using lost_switches(2,3) [OF e, of "Finished c" c]
    by (simp add: finish_def g Let_def split: option.splits entry.splits)
qed

lemma lost_step: "lost m \<Longrightarrow> any_step dflt m m' \<Longrightarrow> lost m'"
proof (erule any_step.cases)
  fix x m0 r m1
  assume "lost m" "m = m0" "m' = m1" and op: "run_op dflt x m0 = (r, m1)"
  then have m: "lost m0" by simp
  have "lost m1"
  proof (cases x)
    case (Create a cb sz)
    with op m show ?thesis by (auto simp: lost_def new_cort_def split: if_splits)
  next
    case (SwapIn a)
    with op m show ?thesis by (auto intro: lost_switches(1))
  next
    case Yields
    with op m show ?thesis by (auto intro: lost_suspend(1))
  next
    case Sleeps
    with op m show ?thesis by (auto intro: lost_suspend(2))
  next
    case (Finishes returned)
    with op m show ?thesis by (auto intro: lost_suspend(3))
  next
    case (Reset a cb)
    with op m show ?thesis
      by (auto simp: reset_cort_def Let_def split: if_splits) (auto simp: lost_def)
  next
    case (Destroy a)
    with op m show ?thesis
      by (auto simp: delete_cort_def lost_def SetCurrent_def Let_def split: if_splits)
  qed
  with \<open>m' = m1\<close> show "lost m'" by simp
qed

interpretation losing: invariant_system lost "any_step dflt" lost for dflt
  by unfold_locales (auto intro: lost_step)

text \<open>A coroutine must be entered from the scheduler coroutine: if a running coroutine of a
  worker thread enters another one with \<open>swapIn\<close>, the scheduler coroutine's suspended execution is
  overwritten, and whatever operations follow, the thread's own stack never runs again.\<close>

theorem nested_swapIn_loses_main:
  assumes "switch_at m mc cur" and "cur \<noteq> mc" and "main_stack m = Native"
    and "\<forall>a. ctxs m a = Resume Native \<longrightarrow> a = mc"
    and "managed m b" and "getState m b \<in> {INIT, READY, HOLD}"
  shows "\<exists>m1. swapIn b m = (Inr (), m1) \<and> running m1 = Stack b
    \<and> (\<forall>m2. (any_step dflt)\<^sup>*\<^sup>* m1 m2 \<longrightarrow> running m2 \<noteq> Native)"
proof -
  have run: "t_main m = Some mc" "running m = Stack cur" "b \<noteq> mc"
    using assms by (auto simp: switch_at_def managed_def)
  have "context_ok b (getState m b) (ctxs m b) (entered m b)"
    using assms(1,5) by (simp add: switch_at_def managed_ok_def)
  with assms(6) have "ctxs m b = Start MainFunc b \<or> ctxs m b = Resume (Stack b)" by auto
  then have "\<exists>m1. swapIn b m = (Inr (), m1) \<and> running m1 = Stack b \<and> lost m1"
    using run assms(4,6)
    by (elim disjE) (auto simp: op_defs getState_def cget_def lost_def Let_def)
  then show ?thesis
    using losing.steps_inv lost_running by blast
qed

text \<open>A worker that runs coroutine 7 while coroutine 8 is ready to start.\<close>

definition example_pair :: "unit cmachine" where
  "example_pair = new_cort 1024 8 (Some ()) 0 False example_machine"

theorem nested_swapIn_loses_main_witness:
  "\<exists>m1. swapIn 8 example_pair = (Inr (), m1) \<and> running m1 = Stack 8
    \<and> (\<forall>m2. (any_step 1024)\<^sup>*\<^sup>* m1 m2 \<longrightarrow> running m2 \<noteq> Native)"
proof (rule nested_swapIn_loses_main [of _ 1 7])
  obtain mc cur where "switch_at example_machine mc cur"
    using switching.reach_inv [OF example_reach] unfolding switch_inv_def by blast
  moreover from this have "mc = 1" "cur = 7" by (simp_all add: switch_at_def)
  ultimately show "switch_at example_pair 1 7"
    unfolding example_pair_def
    by (intro switch_at_create) (auto simp: example_machine_def example_start)
qed (auto simp: example_pair_def example_machine_def example_start main_stack_def managed_def split: if_splits)

section \<open>Coroutines that have ended\<close>

lemma root_ends:
  assumes "tc \<noteq> rc"
  shows "let m1 = snd (finish f True (root_start dflt tc rc run))
    in getState m1 rc = TERMINATED \<and> running m1 = Native
       \<and> fst (call_cort rc m1) = Inl (Assertion ''never reached'')"
  using assms
  by (simp add: root_start_def empty_machine_def op_defs getState_def cget_def Let_def)

text \<open>The root coroutine of a scheduler cannot be called a second time: once \<open>run\<close> has returned
  in it, it is in state \<open>TERM\<close>, and \<open>call\<close> accepts that state but continues an execution whose next
  statement is the assertion "never reached".\<close>

theorem root_cannot_be_called_twice:
  assumes "tc \<noteq> rc"
  shows "let m1 = snd (finish f True (root_start dflt tc rc run))
    in getState m1 rc = TERMINATED \<and> running m1 = Native
       \<and> fst (call_cort rc m1) = Inl (Assertion ''never reached'')"
  by (rule root_ends [OF assms])

theorem root_cannot_be_called_twice_witness:
  "fst (call_cort 2 (snd (finish 0 True (root_start 1024 1 2 ())))) = Inl (Assertion ''never reached'')"
  using root_cannot_be_called_twice [of 1 2 0 1024 "()"] by (simp add: Let_def)

text \<open>\<open>reset\<close> always installs \<open>MainFunc\<close>: a coroutine that was built to be entered with \<open>call\<close>
  from the thread's own stack leaves with \<open>swapOut\<close> after a reset, so when its task ends control goes to
  the scheduler coroutine and not to the caller.\<close>

theorem reset_forgets_use_caller:
  assumes "corts m a = None"
  shows "ctxs (new_cort dflt a cb sz True m) a = Start CallerMainFunc a
    \<and> (\<exists>m'. reset_cort a cb' (new_cort dflt a cb sz True m) = (Inr (), m')
          \<and> getState m' a = INIT \<and> ctxs m' a = Start MainFunc a)"
  by (simp add: new_cort_def reset_cort_def cget_def getState_def cupd_def Let_def)

theorem reset_forgets_use_caller_witness:
  "\<exists>m'. reset_cort 2 (Some ()) (new_cort 1024 2 None 0 True empty_machine) = (Inr (), m')
     \<and> getState m' 2 = INIT \<and> ctxs m' 2 = Start MainFunc 2"
  using reset_forgets_use_caller [of empty_machine 2 1024 "None" 0 "Some ()"]
  by (simp add: empty_machine_def)

end
