(* ===== verification/Locks.thy ===== *)
theory Locks
  imports Prelude
begin

text \<open>
  \<open>mocker/mutex.h\<close> and \<open>mocker/mutex.cpp\<close>: the semaphore, the lock classes and the scoped guards. An
  operation that can keep its caller waiting has the result \<open>None\<close> in a state where it does; the
  caller is then where it was and tries again in a later state. The state of a lock is what its
  POSIX object or its atomic flag records; POSIX objects do not record which thread holds them.
\<close>

section \<open>Semaphore\<close>

record semaphore =
  sem_value :: nat

definition SEM_VALUE_MAX :: nat where
  "SEM_VALUE_MAX = 2 ^ 31 - 1"

text \<open>\<open>sem_init\<close> fails for a count above \<open>SEM_VALUE_MAX\<close>.\<close>

definition Semaphore :: "32 word \<Rightarrow> semaphore outcome" where
  "Semaphore count =
     (if SEM_VALUE_MAX < unat count then Inl (Throw ''sem_init error'')
      else Inr \<lparr>sem_value = unat count\<rparr>)"

text \<open>\<open>sem_wait\<close> fails when a signal handler interrupts a caller that waits.\<close>

definition Semaphore_wait :: "bool \<Rightarrow> semaphore \<Rightarrow> (unit outcome \<times> semaphore) option" where
  "Semaphore_wait interrupted s =
     (if 0 < sem_value s then Some (Inr (), s\<lparr>sem_value := sem_value s - 1\<rparr>)
      else if interrupted then Some (Inl (Throw ''sem_wait error''), s)
      else None)"

definition Semaphore_notify :: "(semaphore, unit) eff" where
  "Semaphore_notify s =
     (if sem_value s = SEM_VALUE_MAX then (Inl (Throw ''sem_post error''), s)
      else (Inr (), s\<lparr>sem_value := sem_value s + 1\<rparr>))"

section \<open>Locks\<close>

record pthread_mutex =
  pm_locked :: bool

definition Mutex :: pthread_mutex where
  "Mutex = \<lparr>pm_locked = False\<rparr>"

definition Mutex_lock :: "pthread_mutex \<Rightarrow> pthread_mutex option" where
  "Mutex_lock m = (if pm_locked m then None else Some (m\<lparr>pm_locked := True\<rparr>))"

definition Mutex_unlock :: "pthread_mutex \<Rightarrow> pthread_mutex" where
  "Mutex_unlock m = m\<lparr>pm_locked := False\<rparr>"

record pthread_spinlock =
  ps_locked :: bool

definition Spinlock :: pthread_spinlock where
  "Spinlock = \<lparr>ps_locked = False\<rparr>"

definition Spinlock_lock :: "pthread_spinlock \<Rightarrow> pthread_spinlock option" where
  "Spinlock_lock m = (if ps_locked m then None else Some (m\<lparr>ps_locked := True\<rparr>))"

definition Spinlock_unlock :: "pthread_spinlock \<Rightarrow> pthread_spinlock" where
  "Spinlock_unlock m = m\<lparr>ps_locked := False\<rparr>"

text \<open>
  \<open>CASLock\<close>: \<open>test_and_set\<close> is one atomic instruction, with the old value as its result. The loop
  of \<open>lock\<close> goes round as long as the flag was set; \<open>n\<close> bounds the rounds.
\<close>

record atomic_flag =
  af_set :: bool

definition test_and_set :: "atomic_flag \<Rightarrow> bool \<times> atomic_flag" where
  "test_and_set f = (af_set f, f\<lparr>af_set := True\<rparr>)"

definition CASLock :: atomic_flag where
  "CASLock = \<lparr>af_set = False\<rparr>"

fun CASLock_lock :: "nat \<Rightarrow> atomic_flag \<Rightarrow> atomic_flag option" where
  "CASLock_lock 0 f = None"
| "CASLock_lock (Suc n) f = (case test_and_set f of (old, f1) \<Rightarrow> if old then CASLock_lock n f1 else Some f1)"

definition CASLock_unlock :: "atomic_flag \<Rightarrow> atomic_flag" where
  "CASLock_unlock f = f\<lparr>af_set := False\<rparr>"

record pthread_rwlock =
  rw_readers :: nat
  rw_writer :: bool

definition RWMutex :: pthread_rwlock where
  "RWMutex = \<lparr>rw_readers = 0, rw_writer = False\<rparr>"

definition RWMutex_rdlock :: "pthread_rwlock \<Rightarrow> pthread_rwlock option" where
  "RWMutex_rdlock m = (if rw_writer m then None else Some (m\<lparr>rw_readers := rw_readers m + 1\<rparr>))"

definition RWMutex_wrlock :: "pthread_rwlock \<Rightarrow> pthread_rwlock option" where
  "RWMutex_wrlock m = (if rw_writer m \<or> 0 < rw_readers m then None else Some (m\<lparr>rw_writer := True\<rparr>))"

definition RWMutex_unlock :: "pthread_rwlock \<Rightarrow> pthread_rwlock" where
  "RWMutex_unlock m =
     (if rw_writer m then m\<lparr>rw_writer := False\<rparr> else m\<lparr>rw_readers := rw_readers m - 1\<rparr>)"

text \<open>The two classes whose operations do nothing.\<close>

definition NullMutex_lock :: "unit \<Rightarrow> unit option" where
  "NullMutex_lock m = Some m"

definition NullMutex_unlock :: "unit \<Rightarrow> unit" where
  "NullMutex_unlock m = m"

definition NullRWMutex_rdlock :: "unit \<Rightarrow> unit option" where
  "NullRWMutex_rdlock m = Some m"

definition NullRWMutex_wrlock :: "unit \<Rightarrow> unit option" where
  "NullRWMutex_wrlock m = Some m"

definition NullRWMutex_unlock :: "unit \<Rightarrow> unit" where
  "NullRWMutex_unlock m = m"

section \<open>Scoped guards\<close>

text \<open>
  A guard is its \<open>m_locked\<close>; the operations work on it and on the mutex it refers to, whose
  operations are the arguments \<open>acq\<close> and \<open>rel\<close>.
\<close>

type_synonym 's guard = "bool \<times> 's"

definition ScopedLock :: "('s \<Rightarrow> 's option) \<Rightarrow> 's \<Rightarrow> 's guard option" where
  "ScopedLock acq m = map_option (\<lambda>m1. (True, m1)) (acq m)"

fun ScopedLock_lock :: "('s \<Rightarrow> 's option) \<Rightarrow> 's guard \<Rightarrow> 's guard option" where
  "ScopedLock_lock acq (m_locked, m) =
     (if \<not> m_locked then map_option (\<lambda>m1. (True, m1)) (acq m) else Some (m_locked, m))"

fun ScopedLock_unlock :: "('s \<Rightarrow> 's) \<Rightarrow> 's guard \<Rightarrow> 's guard" where
  "ScopedLock_unlock rel (m_locked, m) = (if m_locked then (False, rel m) else (m_locked, m))"

text \<open>The destructor unlocks; the mutex is left.\<close>

definition ScopedLock_destroy :: "('s \<Rightarrow> 's) \<Rightarrow> 's guard \<Rightarrow> 's" where
  "ScopedLock_destroy rel g = snd (ScopedLock_unlock rel g)"

definition ReadScopedLock :: "('s \<Rightarrow> 's option) \<Rightarrow> 's \<Rightarrow> 's guard option" where
  "ReadScopedLock rdlock m = map_option (\<lambda>m1. (True, m1)) (rdlock m)"

fun ReadScopedLock_lock :: "('s \<Rightarrow> 's option) \<Rightarrow> 's guard \<Rightarrow> 's guard option" where
  "ReadScopedLock_lock rdlock (m_locked, m) =
     (if \<not> m_locked then map_option (\<lambda>m1. (True, m1)) (rdlock m) else Some (m_locked, m))"

fun ReadScopedLock_unlock :: "('s \<Rightarrow> 's) \<Rightarrow> 's guard \<Rightarrow> 's guard" where
  "ReadScopedLock_unlock rel (m_locked, m) = (if m_locked then (False, rel m) else (m_locked, m))"

definition WriteScopedLock :: "('s \<Rightarrow> 's option) \<Rightarrow> 's \<Rightarrow> 's guard option" where
  "WriteScopedLock wrlock m = map_option (\<lambda>m1. (True, m1)) (wrlock m)"

fun WriteScopedLock_lock :: "('s \<Rightarrow> 's option) \<Rightarrow> 's guard \<Rightarrow> 's guard option" where
  "WriteScopedLock_lock wrlock (m_locked, m) =
     (if \<not> m_locked then map_option (\<lambda>m1. (True, m1)) (wrlock m) else Some (m_locked, m))"

fun WriteScopedLock_unlock :: "('s \<Rightarrow> 's) \<Rightarrow> 's guard \<Rightarrow> 's guard" where
  "WriteScopedLock_unlock rel (m_locked, m) = (if m_locked then (False, rel m) else (m_locked, m))"

section \<open>Guards of one lock\<close>

text \<open>
  A program that uses a lock only through guards: the guards that exist, each with its \<open>m_locked\<close>,
  in any number of threads. A step is one call of a guard's operation that does not wait.
\<close>

record ('i, 's) guarded =
  gs_mutex :: 's
  gs_guards :: "'i \<Rightarrow> bool option"

inductive guard_step :: "('s \<Rightarrow> 's option) \<Rightarrow> ('s \<Rightarrow> 's) \<Rightarrow> ('i, 's) guarded \<Rightarrow> ('i, 's) guarded \<Rightarrow> bool"
  for acq rel where
  construct: "gs_guards g i = None \<Longrightarrow> ScopedLock acq (gs_mutex g) = Some (b, m) \<Longrightarrow>
    guard_step acq rel g \<lparr>gs_mutex = m, gs_guards = (gs_guards g)(i \<mapsto> b)\<rparr>"
| lock: "gs_guards g i = Some b \<Longrightarrow> ScopedLock_lock acq (b, gs_mutex g) = Some (b1, m) \<Longrightarrow>
    guard_step acq rel g \<lparr>gs_mutex = m, gs_guards = (gs_guards g)(i \<mapsto> b1)\<rparr>"
| unlock: "gs_guards g i = Some b \<Longrightarrow> ScopedLock_unlock rel (b, gs_mutex g) = (b1, m) \<Longrightarrow>
    guard_step acq rel g \<lparr>gs_mutex = m, gs_guards = (gs_guards g)(i \<mapsto> b1)\<rparr>"
| destroy: "gs_guards g i = Some b \<Longrightarrow> ScopedLock_destroy rel (b, gs_mutex g) = m \<Longrightarrow>
    guard_step acq rel g \<lparr>gs_mutex = m, gs_guards = (gs_guards g)(i := None)\<rparr>"

inductive guards_start :: "'s \<Rightarrow> ('i, 's) guarded \<Rightarrow> bool" for new where
  "guards_start new \<lparr>gs_mutex = new, gs_guards = (\<lambda>_. None)\<rparr>"

inductive_cases guard_stepE: "guard_step acq rel g g'"

text \<open>The same for a read-write lock: \<open>Read\<close> and \<open>Write\<close> guards.\<close>

datatype guard_kind = ReadLock | WriteLock

record 'i rw_guarded =
  rg_mutex :: pthread_rwlock
  rg_guards :: "'i \<Rightarrow> (guard_kind \<times> bool) option"

fun rw_new :: "guard_kind \<Rightarrow> pthread_rwlock \<Rightarrow> pthread_rwlock guard option" where
  "rw_new ReadLock m = ReadScopedLock RWMutex_rdlock m"
| "rw_new WriteLock m = WriteScopedLock RWMutex_wrlock m"

fun rw_lock :: "guard_kind \<Rightarrow> pthread_rwlock guard \<Rightarrow> pthread_rwlock guard option" where
  "rw_lock ReadLock g = ReadScopedLock_lock RWMutex_rdlock g"
| "rw_lock WriteLock g = WriteScopedLock_lock RWMutex_wrlock g"

fun rw_unlock :: "guard_kind \<Rightarrow> pthread_rwlock guard \<Rightarrow> pthread_rwlock guard" where
  "rw_unlock ReadLock g = ReadScopedLock_unlock RWMutex_unlock g"
| "rw_unlock WriteLock g = WriteScopedLock_unlock RWMutex_unlock g"

inductive rw_step :: "'i rw_guarded \<Rightarrow> 'i rw_guarded \<Rightarrow> bool" where
  construct: "rg_guards g i = None \<Longrightarrow> rw_new k (rg_mutex g) = Some (b, m) \<Longrightarrow>
    rw_step g \<lparr>rg_mutex = m, rg_guards = (rg_guards g)(i \<mapsto> (k, b))\<rparr>"
| lock: "rg_guards g i = Some (k, b) \<Longrightarrow> rw_lock k (b, rg_mutex g) = Some (b1, m) \<Longrightarrow>
    rw_step g \<lparr>rg_mutex = m, rg_guards = (rg_guards g)(i \<mapsto> (k, b1))\<rparr>"
| unlock: "rg_guards g i = Some (k, b) \<Longrightarrow> rw_unlock k (b, rg_mutex g) = (b1, m) \<Longrightarrow>
    rw_step g \<lparr>rg_mutex = m, rg_guards = (rg_guards g)(i \<mapsto> (k, b1))\<rparr>"
| destroy: "rg_guards g i = Some (k, b) \<Longrightarrow> rw_unlock k (b, rg_mutex g) = (b1, m) \<Longrightarrow>
    rw_step g \<lparr>rg_mutex = m, rg_guards = (rg_guards g)(i := None)\<rparr>"

inductive rw_start :: "'i rw_guarded \<Rightarrow> bool" where
  "rw_start \<lparr>rg_mutex = RWMutex, rg_guards = (\<lambda>_. None)\<rparr>"

inductive_cases rw_stepE: "rw_step g g'"

end
