(* ===== verification/Threads.thy ===== *)
theory Threads
  imports Locks
begin

text \<open>
  \<open>mocker/thread.h\<close> and \<open>mocker/thread.cpp\<close>: the thread object, its construction as a handshake of
  two threads over the object's semaphore, \<open>join\<close> and the destructor, and the thread-local name.
\<close>

section \<open>The object\<close>

text \<open>\<open>th_thread\<close> is the \<open>pthread_t\<close>, 0 when there is nothing to join.\<close>

record 'task thread =
  th_id :: int
  th_thread :: nat
  th_cb :: "'task option"
  th_name :: string
  th_semaphore :: semaphore

text \<open>The members when the constructor calls \<open>pthread_create\<close>.\<close>

definition new_Thread :: "'task option \<Rightarrow> string \<Rightarrow> 'task thread" where
  "new_Thread cb name =
     \<lparr>th_id = - 1, th_thread = 0, th_cb = cb, th_name = (if name = [] then ''UNKNOWN'' else name),
      th_semaphore = \<lparr>sem_value = 0\<rparr>\<rparr>"

text \<open>
  \<open>join\<close>; \<open>pthread_join\<close> is the argument, the result code for a handle. The first component says which
  handles the call released.
\<close>

definition Thread_join :: "(nat \<Rightarrow> int) \<Rightarrow> 'task thread \<Rightarrow> nat list \<times> (unit outcome \<times> 'task thread)" where
  "Thread_join pthread_join th =
     (if th_thread th \<noteq> 0 then
        (if pthread_join (th_thread th) \<noteq> 0 then ([], (Inl (Throw ''pthread_join error''), th))
         else ([th_thread th], (Inr (), th\<lparr>th_thread := 0\<rparr>)))
      else ([], (Inr (), th)))"

text \<open>The destructor: the handles it detaches.\<close>

definition delete_Thread :: "'task thread \<Rightarrow> nat list" where
  "delete_Thread th = (if th_thread th \<noteq> 0 then [th_thread th] else [])"

section \<open>Thread-local variables\<close>

text \<open>\<open>t_thread\<close> and \<open>t_thread_name\<close> of one thread; objects are named by addresses.\<close>

record thread_local =
  tl_thread :: "nat option"
  tl_name :: string

definition fresh_local :: thread_local where
  "fresh_local = \<lparr>tl_thread = None, tl_name = ''UNKNOWN''\<rparr>"

definition Thread_GetCurrent :: "thread_local \<Rightarrow> nat option" where
  "Thread_GetCurrent loc = tl_thread loc"

definition GetCurrentName :: "thread_local \<Rightarrow> string" where
  "GetCurrentName loc = tl_name loc"

text \<open>
  \<open>SetCurrentName\<close> writes the name to the thread's object. A thread does not keep its object alive: if
  the object is gone the write goes to freed memory.
\<close>

definition SetCurrentName :: "string \<Rightarrow> thread_local \<times> (nat \<Rightarrow> 'task thread option)
    \<Rightarrow> (thread_local \<times> (nat \<Rightarrow> 'task thread option)) outcome" where
  "SetCurrentName name s =
     (case s of (loc, objs) \<Rightarrow>
        (case tl_thread loc of
           None \<Rightarrow> Inr (loc\<lparr>tl_name := name\<rparr>, objs)
         | Some a \<Rightarrow>
             (case objs a of
                None \<Rightarrow> Inl (Assertion ''use after free'')
              | Some th \<Rightarrow> Inr (loc\<lparr>tl_name := name\<rparr>, objs(a \<mapsto> th\<lparr>th_name := name\<rparr>)))))"

section \<open>Construction\<close>

text \<open>Where the constructor is, and which statement of \<open>Run\<close> the new thread executes next.\<close>

datatype ctor_pc = AtCreate | AtWait | Constructed | CtorFailed failure

datatype run_pc =
    NotStarted | SetThread | SetThreadName | SetId | SetOsName | TakeCb | Notify | CallCb | Returned

text \<open>
  \<open>st_alive\<close>: the object exists. The locals of the new thread: its thread-local variables, the name the
  operating system shows and the variable \<open>cb\<close>.
\<close>

record 'task launch =
  st_object :: "'task thread"
  st_alive :: bool
  st_ctor :: ctor_pc
  st_run :: run_pc
  st_local :: thread_local
  st_os_name :: string
  st_cb :: "'task option"

definition on_object :: "('task thread \<Rightarrow> 'task thread) \<Rightarrow> 'task launch \<Rightarrow> 'task launch" where
  "on_object f s = s\<lparr>st_object := f (st_object s)\<rparr>"

text \<open>
  One statement of \<open>Thread::Run\<close> in the thread with the id \<open>tid\<close> for the object at address \<open>a\<close>.
  \<open>notify\<close> cannot fail: the semaphore starts at 0 and is notified once.
\<close>

fun Run :: "int \<Rightarrow> nat \<Rightarrow> run_pc \<Rightarrow> 'task launch \<Rightarrow> 'task launch" where
  "Run tid a SetThread s = s\<lparr>st_local := (st_local s)\<lparr>tl_thread := Some a\<rparr>, st_run := SetThreadName\<rparr>"
| "Run tid a SetThreadName s =
     s\<lparr>st_local := (st_local s)\<lparr>tl_name := th_name (st_object s)\<rparr>, st_run := SetId\<rparr>"
| "Run tid a SetId s = on_object (\<lambda>th. th\<lparr>th_id := tid\<rparr>) (s\<lparr>st_run := SetOsName\<rparr>)"
| "Run tid a SetOsName s = s\<lparr>st_os_name := take 15 (th_name (st_object s)), st_run := TakeCb\<rparr>"
| "Run tid a TakeCb s =
     on_object (\<lambda>th. th\<lparr>th_cb := None\<rparr>) (s\<lparr>st_cb := th_cb (st_object s), st_run := Notify\<rparr>)"
| "Run tid a Notify s =
     on_object (\<lambda>th. th\<lparr>th_semaphore := snd (Semaphore_notify (th_semaphore th))\<rparr>) (s\<lparr>st_run := CallCb\<rparr>)"
| "Run tid a CallCb s = s\<lparr>st_run := Returned\<rparr>"
| "Run tid a NotStarted s = s"
| "Run tid a Returned s = s"

text \<open>
  The two threads in any order. \<open>pthread_create\<close> fails or starts the thread \<open>tid\<close> with a handle that
  is not 0; the wait is interrupted or not. An exception in the constructor destroys the object.
\<close>

inductive start_step :: "int \<Rightarrow> nat \<Rightarrow> 'task launch \<Rightarrow> 'task launch \<Rightarrow> bool" for tid a where
  created: "st_ctor s = AtCreate \<Longrightarrow> h \<noteq> 0 \<Longrightarrow>
    start_step tid a s (on_object (\<lambda>th. th\<lparr>th_thread := h\<rparr>) (s\<lparr>st_ctor := AtWait, st_run := SetThread\<rparr>))"
| create_failed: "st_ctor s = AtCreate \<Longrightarrow>
    start_step tid a s (s\<lparr>st_ctor := CtorFailed (Throw ''pthread_create error''), st_alive := False\<rparr>)"
| woken: "st_ctor s = AtWait \<Longrightarrow> Semaphore_wait intr (th_semaphore (st_object s)) = Some (Inr (), sem) \<Longrightarrow>
    start_step tid a s (on_object (\<lambda>th. th\<lparr>th_semaphore := sem\<rparr>) (s\<lparr>st_ctor := Constructed\<rparr>))"
| interrupted: "st_ctor s = AtWait \<Longrightarrow> Semaphore_wait intr (th_semaphore (st_object s)) = Some (Inl e, sem) \<Longrightarrow>
    start_step tid a s (s\<lparr>st_ctor := CtorFailed e, st_alive := False\<rparr>)"
| run: "st_run s \<noteq> NotStarted \<Longrightarrow> start_step tid a s (Run tid a (st_run s) s)"

inductive constructing :: "'task option \<Rightarrow> string \<Rightarrow> 'task launch \<Rightarrow> bool" for cb name where
  "constructing cb name \<lparr>st_object = new_Thread cb name, st_alive = True, st_ctor = AtCreate, st_run = NotStarted,
     st_local = fresh_local, st_os_name = os, st_cb = None\<rparr>"

section \<open>The handshake\<close>

text \<open>Whether \<open>Run\<close> is behind a statement, by the order of the statements.\<close>

fun run_number :: "run_pc \<Rightarrow> nat" where
  "run_number NotStarted = 0"
| "run_number SetThread = 1"
| "run_number SetThreadName = 2"
| "run_number SetId = 3"
| "run_number SetOsName = 4"
| "run_number TakeCb = 5"
| "run_number Notify = 6"
| "run_number CallCb = 7"
| "run_number Returned = 8"

definition full_name :: "string \<Rightarrow> string" where
  "full_name name = (if name = [] then ''UNKNOWN'' else name)"

text \<open>
  What the object and the new thread hold at each point; the semaphore counts the notification that
  the constructor has not taken.
\<close>

definition start_inv :: "int \<Rightarrow> nat \<Rightarrow> 'task option \<Rightarrow> string \<Rightarrow> 'task launch \<Rightarrow> bool" where
  "start_inv tid a cb name s \<longleftrightarrow>
     (let n = run_number (st_run s); th = st_object s in
      th_name th = full_name name \<and> (st_alive s \<longleftrightarrow> (\<forall>e. st_ctor s \<noteq> CtorFailed e))
      \<and> (st_ctor s = AtCreate \<longrightarrow> n = 0)
      \<and> (st_ctor s = Constructed \<longrightarrow> 7 \<le> n \<and> sem_value (th_semaphore th) = 0)
      \<and> (st_ctor s \<noteq> Constructed \<longrightarrow> sem_value (th_semaphore th) = (if 7 \<le> n then 1 else 0))
      \<and> (2 \<le> n \<longrightarrow> tl_thread (st_local s) = Some a)
      \<and> (3 \<le> n \<longrightarrow> tl_name (st_local s) = full_name name)
      \<and> th_id th = (if 4 \<le> n then tid else - 1)
      \<and> (5 \<le> n \<longrightarrow> st_os_name s = take 15 (full_name name))
      \<and> (if 6 \<le> n then th_cb th = None \<and> st_cb s = cb else th_cb th = cb))"

lemma on_object_simps [simp]:
  "st_object (on_object f s) = f (st_object s)" "st_ctor (on_object f s) = st_ctor s"
  "st_run (on_object f s) = st_run s" "st_alive (on_object f s) = st_alive s"
  "st_local (on_object f s) = st_local s" "st_os_name (on_object f s) = st_os_name s" "st_cb (on_object f s) = st_cb s"
  by (simp_all add: on_object_def)

lemma start_inv_init: "constructing cb name s \<Longrightarrow> start_inv tid a cb name s"
  by (auto simp: start_inv_def new_Thread_def full_name_def elim!: constructing.cases)

lemma start_inv_run: "start_inv tid a cb name s \<Longrightarrow> start_inv tid a cb name (Run tid a (st_run s) s)"
  by (cases "st_run s") (auto simp: start_inv_def Semaphore_notify_def SEM_VALUE_MAX_def Let_def)

lemma start_inv_step: "start_inv tid a cb name s \<Longrightarrow> start_step tid a s s' \<Longrightarrow> start_inv tid a cb name s'"
proof (erule start_step.cases)
  fix t intr sem
  assume "start_inv tid a cb name s" "s = t" "st_ctor t = AtWait"
    "Semaphore_wait intr (th_semaphore (st_object t)) = Some (Inr (), sem)"
    "s' = on_object (\<lambda>th. th\<lparr>th_semaphore := sem\<rparr>) (t\<lparr>st_ctor := Constructed\<rparr>)"
  then show "start_inv tid a cb name s'"
    by (auto simp: start_inv_def Semaphore_wait_def Let_def split: if_splits)
qed (auto simp: start_inv_run, auto simp: start_inv_def Let_def)

interpretation handshake: invariant_system "constructing cb name" "start_step tid a" "start_inv tid a cb name"
  by unfold_locales (auto intro: start_inv_init start_inv_step)

text \<open>C20. When the constructor of \<open>Thread\<close> has returned, the new thread has stored its id in the object,
  so that \<open>getId\<close> is right from the start, has taken the task out of it, has its name (the first 15
  characters for the operating system) and its \<open>t_thread\<close>, and only the task is left to run: whatever the
  order of the two threads' statements, the constructor cannot return earlier.\<close>

theorem constructed_thread_runs:
  assumes "reach (constructing cb name) (start_step tid a) s" and "st_ctor s = Constructed"
  shows "th_id (st_object s) = tid \<and> th_cb (st_object s) = None \<and> st_cb s = cb
    \<and> (st_run s = CallCb \<or> st_run s = Returned) \<and> tl_thread (st_local s) = Some a
    \<and> GetCurrentName (st_local s) = full_name name \<and> st_os_name s = take 15 (full_name name)
    \<and> length (st_os_name s) \<le> 15"
proof -
  have inv: "start_inv tid a cb name s" by (rule handshake.reach_inv [OF assms(1)])
  then have n: "7 \<le> run_number (st_run s)" using assms(2) by (simp add: start_inv_def Let_def)
  then have "st_run s = CallCb \<or> st_run s = Returned" by (cases "st_run s") simp_all
  with inv n show ?thesis by (simp add: start_inv_def GetCurrentName_def Let_def)
qed

text \<open>The states of a construction that is interrupted by a signal.\<close>

definition waiting_start :: "unit launch" where
  "waiting_start = \<lparr>st_object = (new_Thread (Some ()) ''w'')\<lparr>th_thread := 5\<rparr>, st_alive = True, st_ctor = AtWait,
     st_run = SetThread, st_local = fresh_local, st_os_name = [], st_cb = None\<rparr>"

lemma waiting_reach: "reach (constructing (Some ()) ''w'') (start_step 9 1) waiting_start"
proof (rule reach_step)
  let ?s = "\<lparr>st_object = new_Thread (Some ()) ''w'', st_alive = True, st_ctor = AtCreate, st_run = NotStarted,
     st_local = fresh_local, st_os_name = [], st_cb = None\<rparr>"
  show "reach (constructing (Some ()) ''w'') (start_step 9 1) ?s" by (rule reach_init) (rule constructing.intros)
  show "start_step 9 1 ?s waiting_start"
    using start_step.created [of ?s 5 9 1] by (simp add: waiting_start_def on_object_def)
qed

text \<open>An interrupted wait makes the constructor throw, which destroys the object, but the thread it has
  started goes on with it: there is a run in which the object is gone and \<open>Run\<close> has yet to read the name
  and the task from it.\<close>

theorem interrupted_constructor_leaves_thread:
  "\<exists>s :: unit launch. reach (constructing (Some ()) ''w'') (start_step 9 1) s
     \<and> st_ctor s = CtorFailed (Throw ''sem_wait error'') \<and> \<not> st_alive s \<and> st_run s = SetThread"
proof -
  let ?s = "waiting_start\<lparr>st_ctor := CtorFailed (Throw ''sem_wait error''), st_alive := False\<rparr>"
  have "start_step 9 1 waiting_start ?s"
    by (rule start_step.interrupted [where intr = True and sem = "\<lparr>sem_value = 0\<rparr>"])
      (simp_all add: waiting_start_def new_Thread_def Semaphore_wait_def)
  with waiting_reach have "reach (constructing (Some ()) ''w'') (start_step 9 1) ?s" by (rule reach_step)
  then show ?thesis by (rule exI [where x = ?s, OF conjI]) (simp add: waiting_start_def)
qed

section \<open>Join and detach\<close>

text \<open>Any number of calls of \<open>join\<close>, each with what \<open>pthread_join\<close> answers, and the destructor.\<close>

fun join_calls :: "(nat \<Rightarrow> int) list \<Rightarrow> 'task thread \<Rightarrow> nat list \<times> 'task thread" where
  "join_calls [] th = ([], th)"
| "join_calls (f # fs) th =
     (case Thread_join f th of (hs, _, th1) \<Rightarrow> (case join_calls fs th1 of (hs1, th2) \<Rightarrow> (hs @ hs1, th2)))"

lemma join_calls_released:
  "th_thread th = 0 \<Longrightarrow> join_calls fs th = ([], th)"
  by (induction fs) (simp_all add: Thread_join_def)

text \<open>The POSIX thread of a \<open>Thread\<close> object is released exactly once, by the first \<open>join\<close> that
  succeeds or else by the destructor: never twice, and never not at all. A second \<open>join\<close> does nothing,
  a failed one throws and can be tried again.\<close>

theorem handle_released_once:
  assumes "th_thread th = h" and "h \<noteq> 0"
  shows "(case join_calls fs th of (hs, th1) \<Rightarrow> hs @ delete_Thread th1 = [h]
      \<and> (hs = [h] \<longleftrightarrow> (\<exists>f \<in> set fs. f h = 0)))
    \<and> (f h \<noteq> 0 \<longrightarrow> Thread_join f th = ([], (Inl (Throw ''pthread_join error''), th)))"
proof -
  have "case join_calls fs th of (hs, th1) \<Rightarrow> hs @ delete_Thread th1 = [h] \<and> (hs = [h] \<longleftrightarrow> (\<exists>f \<in> set fs. f h = 0))"
  proof (induction fs)
    case Nil
    then show ?case using assms by (simp add: delete_Thread_def)
  next
    case (Cons f fs)
    show ?case
    proof (cases "f h = 0")
      case True
      then have "Thread_join f th = ([h], Inr (), th\<lparr>th_thread := 0\<rparr>)" using assms by (simp add: Thread_join_def)
      then show ?thesis using True join_calls_released [of "th\<lparr>th_thread := 0\<rparr>" fs] by (simp add: delete_Thread_def)
    next
      case False
      then have "Thread_join f th = ([], Inl (Throw ''pthread_join error''), th)" using assms by (simp add: Thread_join_def)
      then show ?thesis using False Cons.IH by (simp add: case_prod_beta)
    qed
  qed
  then show ?thesis using assms by (simp add: Thread_join_def)
qed

section \<open>The name\<close>

text \<open>\<open>SetCurrentName\<close> is what \<open>GetCurrentName\<close> returns afterwards, and if the thread has an object it
  is the object's name as well; other objects keep theirs. A thread whose object has been destroyed
  writes to freed memory.\<close>

theorem SetCurrentName_spec:
  assumes "tl_thread loc = Some a"
  shows "(\<forall>th. objs a = Some th \<longrightarrow>
      (\<exists>loc' objs'. SetCurrentName n (loc, objs) = Inr (loc', objs') \<and> GetCurrentName loc' = n
         \<and> Thread_GetCurrent loc' = Some a \<and> objs' a = Some (th\<lparr>th_name := n\<rparr>) \<and> (\<forall>b. b \<noteq> a \<longrightarrow> objs' b = objs b)))
    \<and> (objs a = None \<longrightarrow> SetCurrentName n (loc, objs) = Inl (Assertion ''use after free''))"
  using assms by (auto simp: SetCurrentName_def GetCurrentName_def Thread_GetCurrent_def)

section \<open>Witnesses\<close>

definition constructed_start :: "unit launch" where
  "constructed_start = \<lparr>st_object = (new_Thread None ''w'')\<lparr>th_thread := 5, th_id := 9\<rparr>, st_alive = True,
     st_ctor = Constructed, st_run = CallCb, st_local = \<lparr>tl_thread = Some 1, tl_name = ''w''\<rparr>, st_os_name = ''w'',
     st_cb = Some ()\<rparr>"

lemma run_steps:
  "reach i (start_step tid a) s \<Longrightarrow> st_run s \<noteq> NotStarted \<Longrightarrow> reach i (start_step tid a) (Run tid a (st_run s) s)"
  using reach_step [of i "start_step tid a" s "Run tid a (st_run s) s"] start_step.run [of s tid a] by blast

lemma constructed_reach: "reach (constructing (Some ()) ''w'') (start_step 9 1) constructed_start"
proof -
  let ?next = "\<lambda>s. Run 9 1 (st_run s) s"
  let ?s = "?next (?next (?next (?next (?next (?next waiting_start)))))"
  have "reach (constructing (Some ()) ''w'') (start_step 9 1) ?s"
    by (intro run_steps waiting_reach) (simp_all add: waiting_start_def on_object_def)
  moreover have "start_step 9 1 ?s constructed_start"
    using start_step.woken [of ?s False "\<lparr>sem_value = 0\<rparr>" 9 1]
    by (simp add: waiting_start_def constructed_start_def on_object_def new_Thread_def Semaphore_wait_def
        Semaphore_notify_def SEM_VALUE_MAX_def fresh_local_def)
  ultimately show ?thesis by (rule reach_step)
qed

theorem constructed_thread_runs_witness:
  "th_id (st_object constructed_start) = 9 \<and> th_cb (st_object constructed_start) = None
    \<and> st_os_name constructed_start = ''w''"
  using constructed_thread_runs [OF constructed_reach] by (simp add: constructed_start_def full_name_def)

theorem handle_released_once_witness:
  "fst (join_calls [\<lambda>_. 3, \<lambda>_. 0, \<lambda>_. 0] (st_object constructed_start)) = [5]"
  using handle_released_once [of "st_object constructed_start" 5 "[\<lambda>_. 3, \<lambda>_. 0, \<lambda>_. 0]" "\<lambda>_. 0"]
  by (simp add: constructed_start_def case_prod_beta)

theorem SetCurrentName_spec_witness:
  "\<exists>loc' objs'. SetCurrentName ''n'' (st_local constructed_start, [1 \<mapsto> st_object constructed_start]) = Inr (loc', objs')
     \<and> GetCurrentName loc' = ''n'' \<and> map_option th_name (objs' 1) = Some ''n''"
  using SetCurrentName_spec [of "st_local constructed_start" 1 "[1 \<mapsto> st_object constructed_start]" "''n''"]
  by (auto simp: constructed_start_def)

end
