(* ===== verification/Scheduler_Life.thy ===== *)
theory Scheduler_Life
  imports Coroutine_Limits Scheduler Threads
begin

text \<open>
  The life of a \<open>Scheduler\<close> object in the thread that owns it: the constructor, \<open>start\<close>, \<open>stop\<close> and
  the destructor. What the workers do in \<open>run\<close> meanwhile is the step relation of \<open>Scheduler\<close>; here it
  appears as what \<open>stopping()\<close> sees of the queue and of the active threads.
\<close>

section \<open>State\<close>

text \<open>
  The object's members that only the owner changes. An entry of \<open>sl_threads\<close> is the worker's name and
  thread id, \<open>None\<close> a null pointer.
\<close>

record scheduler =
  sl_name :: string
  sl_threadCount :: nat
  sl_rootThread :: int
  sl_rootCoroutine :: "addr option"
  sl_threadIds :: "int list"
  sl_threads :: "(string \<times> int) option list"
  sl_stopping :: bool
  sl_autoStop :: bool

text \<open>
  The owning thread: its coroutine machine, \<open>t_scheduler\<close> of \<open>schedule.cpp\<close>, its name and its id;
  schedulers are named by addresses.
\<close>

record 'task owner =
  ow_machine :: "'task cmachine"
  ow_scheduler :: "nat option"
  ow_local :: thread_local
  ow_tid :: int

definition set_machine :: "'task cmachine \<Rightarrow> 'task owner \<Rightarrow> 'task owner" where
  "set_machine m w = w\<lparr>ow_machine := m\<rparr>"

section \<open>Constructor and destructor\<close>

text \<open>
  The constructor of the scheduler at address \<open>this\<close>. \<open>tc\<close> and \<open>rc\<close> are the addresses of a new
  coroutine of the thread and of the root coroutine, \<open>dflt\<close> the configured stack size and \<open>run\<close> the
  task of the root coroutine. The owner has no \<open>Thread\<close> object, so \<open>SetCurrentName\<close> sets its name only.
\<close>

definition new_Scheduler :: "nat \<Rightarrow> addr \<Rightarrow> addr \<Rightarrow> 32 word \<Rightarrow> 'task \<Rightarrow> nat \<Rightarrow> bool \<Rightarrow> string
    \<Rightarrow> ('task owner, scheduler) eff" where
  "new_Scheduler this tc rc dflt run threads use_caller name w =
     (let base = \<lparr>sl_name = name, sl_threadCount = threads, sl_rootThread = - 1, sl_rootCoroutine = None,
                  sl_threadIds = [], sl_threads = [], sl_stopping = True, sl_autoStop = False\<rparr>
      in if threads = 0 then (Inl (Assertion ''threads > 0''), w)
         else if use_caller then
           (case GetCurrent tc (ow_machine w) of (c, m) \<Rightarrow>
              if ow_scheduler w \<noteq> None then (Inl (Assertion ''GetCurrent() == nullptr''), set_machine m w)
              else
                (Inr (base\<lparr>sl_threadCount := threads - 1, sl_rootThread := ow_tid w,
                           sl_rootCoroutine := Some rc, sl_threadIds := [ow_tid w]\<rparr>),
                 w\<lparr>ow_machine := (new_cort dflt rc (Some run) 0 True m)\<lparr>t_main := Some rc\<rparr>,
                   ow_scheduler := Some this, ow_local := (ow_local w)\<lparr>tl_name := name\<rparr>\<rparr>))
         else (Inr base, w))"

definition delete_Scheduler :: "nat \<Rightarrow> scheduler \<Rightarrow> ('task owner, unit) eff" where
  "delete_Scheduler this s w =
     (if \<not> sl_stopping s then (Inl (Assertion ''m_stopping''), w)
      else (Inr (), if ow_scheduler w = Some this then w\<lparr>ow_scheduler := None\<rparr> else w))"

section \<open>A thread enters run\<close>

text \<open>The thread-local pointers of \<open>schedule.cpp\<close>. A worker thread is an owner with its own thread id.\<close>

definition setCurrent :: "nat \<Rightarrow> 'task owner \<Rightarrow> 'task owner" where
  "setCurrent this w = w\<lparr>ow_scheduler := Some this\<rparr>"

definition Scheduler_GetCurrent :: "'task owner \<Rightarrow> nat option" where
  "Scheduler_GetCurrent w = ow_scheduler w"

definition GetMainCoroutine :: "'task owner \<Rightarrow> addr option" where
  "GetMainCoroutine w = t_main (ow_machine w)"

text \<open>The start of \<open>run\<close>, up to the idle coroutine; \<open>tc\<close> is the address of a new coroutine of the thread.\<close>

definition enter_run :: "nat \<Rightarrow> addr \<Rightarrow> scheduler \<Rightarrow> 'task owner \<Rightarrow> 'task owner" where
  "enter_run this tc s w =
     (let w1 = setCurrent this w in
      if ow_tid w1 \<noteq> sl_rootThread s then
        (case GetCurrent tc (ow_machine w1) of (c, m) \<Rightarrow> set_machine (m\<lparr>t_main := Some c\<rparr>) w1)
      else w1)"

section \<open>start\<close>

text \<open>
  The loop of \<open>start\<close> from index \<open>i\<close>, \<open>n\<close> rounds: \<open>mk i\<close> is the id of the thread that the constructor
  of \<open>Thread\<close> starts, or the exception it throws.
\<close>

fun start_threads :: "(nat \<Rightarrow> int outcome) \<Rightarrow> nat \<Rightarrow> nat \<Rightarrow> (scheduler, unit) eff" where
  "start_threads mk i 0 s = (Inr (), s)"
| "start_threads mk i (Suc n) s =
     (case mk i of
        Inl e \<Rightarrow> (Inl e, s)
      | Inr tid \<Rightarrow>
          start_threads mk (i + 1) n
            (s\<lparr>sl_threads := (sl_threads s)[i := Some (sl_name s @ ''_'' @ show_nat i, tid)],
               sl_threadIds := sl_threadIds s @ [tid]\<rparr>))"

definition start :: "(nat \<Rightarrow> int outcome) \<Rightarrow> (scheduler, unit) eff" where
  "start mk s =
     (if \<not> sl_stopping s then (Inr (), s)
      else if sl_threads s \<noteq> [] then (Inl (Assertion ''m_threads.empty()''), s\<lparr>sl_stopping := False\<rparr>)
      else start_threads mk 0 (sl_threadCount s)
             (s\<lparr>sl_stopping := False, sl_threads := replicate (sl_threadCount s) None\<rparr>))"

section \<open>stop\<close>

text \<open>What \<open>stopping()\<close> returns when \<open>quiet\<close> tells that the queue is empty and no thread is active.\<close>

definition sl_stops :: "bool \<Rightarrow> scheduler \<Rightarrow> bool" where
  "sl_stops quiet s \<longleftrightarrow> sl_autoStop s \<and> sl_stopping s \<and> quiet"

text \<open>
  The last part of \<open>stop\<close>: the ids of the threads it joins. \<open>pthread_join\<close> is the result of that call for
  the thread with an id; \<open>Thread::join\<close> throws when it is not 0, and the loop ends there.
\<close>

fun join_threads :: "(int \<Rightarrow> int) \<Rightarrow> (string \<times> int) option list \<Rightarrow> int list outcome" where
  "join_threads pthread_join [] = Inr []"
| "join_threads pthread_join (None # ts) = Inl (Null_pointer ''thr'')"
| "join_threads pthread_join (Some (n, tid) # ts) =
     (if pthread_join tid \<noteq> 0 then Inl (Throw ''pthread_join error'')
      else obind (join_threads pthread_join ts) (\<lambda>ids. Inr (tid # ids)))"

definition stop_join :: "(int \<Rightarrow> int) \<Rightarrow> scheduler \<Rightarrow> int list outcome \<times> scheduler" where
  "stop_join pthread_join s = (join_threads pthread_join (sl_threads s), s\<lparr>sl_threads := []\<rparr>)"

text \<open>
  \<open>stop\<close> up to the join. \<open>quiet1\<close> and \<open>quiet2\<close> are what its two calls of \<open>stopping()\<close> see.
  \<open>Called\<close>: the root coroutine was called and the thread runs \<open>run\<close> on its stack; when the root
  coroutine has come back, \<open>stop_join\<close> follows.
\<close>

datatype stop_point = Returned_early | Called | Joining

definition stop :: "nat \<Rightarrow> bool \<Rightarrow> bool \<Rightarrow> scheduler \<Rightarrow> 'task owner
    \<Rightarrow> stop_point outcome \<times> scheduler \<times> 'task owner" where
  "stop this quiet1 quiet2 s w =
     (let s1 = s\<lparr>sl_autoStop := True\<rparr>;
          ended = (case sl_rootCoroutine s1 of
                     None \<Rightarrow> False
                   | Some r \<Rightarrow> sl_threadCount s1 = 0
                       \<and> (getState (ow_machine w) r = TERMINATED \<or> getState (ow_machine w) r = INIT));
          s2 = (if ended then s1\<lparr>sl_stopping := True\<rparr> else s1)
      in if ended \<and> sl_stops quiet1 s2 then (Inr Returned_early, s2, w)
         else if (sl_rootThread s2 \<noteq> - 1) \<noteq> (ow_scheduler w = Some this) then
           (Inl (Assertion (if sl_rootThread s2 \<noteq> - 1 then ''GetCurrent() == this'' else ''GetCurrent() != this'')),
            s2, w)
         else
           (let s3 = s2\<lparr>sl_stopping := True\<rparr> in
            case sl_rootCoroutine s3 of
              None \<Rightarrow> (Inr Joining, s3, w)
            | Some r \<Rightarrow>
                if sl_stops quiet2 s3 then (Inr Joining, s3, w)
                else
                  (case call_cort r (ow_machine w) of
                     (Inl e, m) \<Rightarrow> (Inl e, s3, set_machine m w)
                   | (Inr _, m) \<Rightarrow> (Inr Called, s3, set_machine m w))))"

section \<open>Starting\<close>

lemma start_threads_ok:
  assumes "\<And>j. i \<le> j \<Longrightarrow> j < i + n \<Longrightarrow> mk j = Inr (ids j)" and "length (sl_threads s) = i + n"
  shows "start_threads mk i n s = (Inr (), s\<lparr>
    sl_threads := take i (sl_threads s) @ map (\<lambda>j. Some (sl_name s @ ''_'' @ show_nat j, ids j)) [i..<i + n],
    sl_threadIds := sl_threadIds s @ map ids [i..<i + n]\<rparr>)"
  using assms
proof (induction n arbitrary: i s)
  case 0
  then show ?case by simp
next
  case (Suc n)
  let ?s = "s\<lparr>sl_threads := (sl_threads s)[i := Some (sl_name s @ ''_'' @ show_nat i, ids i)],
               sl_threadIds := sl_threadIds s @ [ids i]\<rparr>"
  have "start_threads mk (i + 1) n ?s = (Inr (), ?s\<lparr>
    sl_threads := take (i + 1) (sl_threads ?s) @ map (\<lambda>j. Some (sl_name ?s @ ''_'' @ show_nat j, ids j)) [i + 1..<i + 1 + n],
    sl_threadIds := sl_threadIds ?s @ map ids [i + 1..<i + 1 + n]\<rparr>)"
    by (rule Suc.IH) (use Suc.prems in auto)
  moreover have "mk i = Inr (ids i)" using Suc.prems(1) by simp
  moreover have "[i..<i + Suc n] = i # [i + 1..<i + 1 + n]" by (simp add: upt_conv_Cons)
  moreover have "take (i + 1) ((sl_threads s)[i := x]) = take i (sl_threads s) @ [x]" for x
    using Suc.prems(2) by (simp add: take_Suc_conv_app_nth)
  ultimately show ?case by (simp del: upt_Suc)
qed

lemma start_threads_fail:
  assumes "\<And>j. i \<le> j \<Longrightarrow> j < i + k \<Longrightarrow> mk j = Inr (ids j)" and "mk (i + k) = Inl e" and "k < n"
    and "length (sl_threads s) = i + n"
  shows "\<exists>s'. start_threads mk i n s = (Inl e, s') \<and> sl_stopping s' = sl_stopping s
    \<and> length (sl_threads s') = i + n \<and> sl_threads s' ! (i + k) = sl_threads s ! (i + k)
    \<and> sl_autoStop s' = sl_autoStop s \<and> sl_rootCoroutine s' = sl_rootCoroutine s \<and> sl_rootThread s' = sl_rootThread s
    \<and> sl_threadCount s' = sl_threadCount s"
  using assms
proof (induction k arbitrary: i n s)
  case 0
  then obtain m where "n = Suc m" by (cases n) auto
  with 0 show ?case by simp
next
  case (Suc k)
  then obtain m where n: "n = Suc m" by (cases n) auto
  let ?s = "s\<lparr>sl_threads := (sl_threads s)[i := Some (sl_name s @ ''_'' @ show_nat i, ids i)],
               sl_threadIds := sl_threadIds s @ [ids i]\<rparr>"
  have "\<exists>s'. start_threads mk (i + 1) m ?s = (Inl e, s') \<and> sl_stopping s' = sl_stopping ?s
      \<and> length (sl_threads s') = (i + 1) + m \<and> sl_threads s' ! (i + 1 + k) = sl_threads ?s ! (i + 1 + k)
      \<and> sl_autoStop s' = sl_autoStop ?s \<and> sl_rootCoroutine s' = sl_rootCoroutine ?s
      \<and> sl_rootThread s' = sl_rootThread ?s \<and> sl_threadCount s' = sl_threadCount ?s"
    by (rule Suc.IH) (use Suc.prems n in auto)
  moreover have "mk i = Inr (ids i)" using Suc.prems(1) by simp
  ultimately show ?case using n by simp
qed

lemma join_threads_workers:
  assumes "None \<notin> set ts"
  shows "join_threads pthread_join ts =
    (if \<forall>t \<in> set ts. pthread_join (snd (the t)) = 0 then Inr (map (snd \<circ> the) ts) else Inl (Throw ''pthread_join error''))"
  using assms by (induction pthread_join ts rule: join_threads.induct) auto

lemma join_threads_null:
  assumes "None \<in> set ts" and "\<forall>t \<in> set ts. t \<noteq> None \<longrightarrow> pthread_join (snd (the t)) = 0"
  shows "join_threads pthread_join ts = Inl (Null_pointer ''thr'')"
  using assms by (induction pthread_join ts rule: join_threads.induct) auto

lemma new_Scheduler_cases:
  assumes "new_Scheduler this tc rc dflt run threads use_caller name w = (Inr s, w')"
  shows "0 < threads \<and> sl_stopping s \<and> \<not> sl_autoStop s \<and> sl_threads s = [] \<and> sl_name s = name
    \<and> sl_threadCount s = (if use_caller then threads - 1 else threads)
    \<and> sl_threadIds s = (if use_caller then [ow_tid w] else [])
    \<and> sl_rootCoroutine s = (if use_caller then Some rc else None)
    \<and> sl_rootThread s = (if use_caller then ow_tid w else - 1)
    \<and> ow_scheduler w' = (if use_caller then Some this else ow_scheduler w)"
  using assms by (auto simp: new_Scheduler_def Let_def split: if_splits prod.splits)

definition workers :: "string \<Rightarrow> (nat \<Rightarrow> int) \<Rightarrow> nat \<Rightarrow> (string \<times> int) option list" where
  "workers name ids n = map (\<lambda>j. Some (name @ ''_'' @ show_nat j, ids j)) [0..<n]"

lemma start_ok:
  assumes "sl_stopping s" and "sl_threads s = []" and "\<And>j. j < sl_threadCount s \<Longrightarrow> mk j = Inr (ids j)"
  shows "start mk s = (Inr (), s\<lparr>sl_stopping := False, sl_threads := workers (sl_name s) ids (sl_threadCount s),
    sl_threadIds := sl_threadIds s @ map ids [0..<sl_threadCount s]\<rparr>)"
  using start_threads_ok [of 0 "sl_threadCount s" mk ids
      "s\<lparr>sl_stopping := False, sl_threads := replicate (sl_threadCount s) None\<rparr>"] assms
  by (simp add: start_def workers_def)

text \<open>C26. A new scheduler that is started has as many threads as its constructor was asked for, the
  caller's own thread included under \<open>use_caller\<close>: the others are created with the names
  \<open>name_0\<close>, \<open>name_1\<close> and so on, and the ids of all are recorded in that order. A second \<open>start\<close> does nothing,
  and a scheduler that is running cannot be destroyed.\<close>

theorem start_creates_workers:
  assumes new: "new_Scheduler this tc rc dflt run threads use_caller name w = (Inr s, w')"
    and mk: "\<forall>j < threads. mk j = Inr (ids j)"
  shows "\<exists>s'. start mk s = (Inr (), s') \<and> \<not> sl_stopping s'
    \<and> sl_threads s' = workers name ids (if use_caller then threads - 1 else threads)
    \<and> length (sl_threadIds s') = threads
    \<and> sl_threadIds s' = (if use_caller then [ow_tid w] else []) @ map (snd \<circ> the) (sl_threads s')
    \<and> start mk' s' = (Inr (), s')
    \<and> fst (delete_Scheduler this s' w') = Inl (Assertion ''m_stopping'')"
proof -
  note s = new_Scheduler_cases [OF new]
  have "start mk s = (Inr (), s\<lparr>sl_stopping := False, sl_threads := workers (sl_name s) ids (sl_threadCount s),
    sl_threadIds := sl_threadIds s @ map ids [0..<sl_threadCount s]\<rparr>)"
    by (rule start_ok) (use s mk in \<open>auto split: if_splits\<close>)
  then show ?thesis
    using s by (auto simp: workers_def start_def delete_Scheduler_def comp_def)
qed

section \<open>Stopping\<close>

lemma stop_outside:
  assumes "sl_rootCoroutine s = None" and "sl_rootThread s = - 1" and "ow_scheduler w \<noteq> Some this"
  shows "stop this quiet1 quiet2 s w = (Inr Joining, s\<lparr>sl_autoStop := True, sl_stopping := True\<rparr>, w)"
  using assms by (simp add: stop_def Let_def)

text \<open>C27. Stopping a scheduler without \<open>use_caller\<close> from another thread joins exactly the threads that
  \<open>start\<close> created, in order, if \<open>pthread_join\<close> succeeds for all of them, and otherwise throws; in both cases
  the scheduler has given up its threads and can be destroyed or started again. Started again, it records
  the ids of the new threads behind those of the threads that are gone.\<close>

theorem stop_joins_workers:
  assumes new: "new_Scheduler this tc rc dflt run threads False name w = (Inr s, w')"
    and outside: "ow_scheduler w \<noteq> Some this"
    and mk: "\<forall>j < threads. mk j = Inr (ids j)" and mk2: "\<forall>j < threads. mk2 j = Inr (ids2 j)"
  shows "\<exists>s1 s2 s3. start mk s = (Inr (), s1) \<and> stop this quiet1 quiet2 s1 w' = (Inr Joining, s2, w')
    \<and> stop_join pthread_join s2 =
         (if \<forall>j < threads. pthread_join (ids j) = 0 then Inr (map ids [0..<threads])
          else Inl (Throw ''pthread_join error''), s3)
    \<and> fst (delete_Scheduler this s3 w') = Inr ()
    \<and> (\<exists>s4. start mk2 s3 = (Inr (), s4) \<and> sl_threads s4 = workers name ids2 threads
          \<and> sl_threadIds s4 = map ids [0..<threads] @ map ids2 [0..<threads])"
proof -
  note s = new_Scheduler_cases [OF new]
  let ?s1 = "s\<lparr>sl_stopping := False, sl_threads := workers name ids threads,
    sl_threadIds := map ids [0..<threads]\<rparr>"
  let ?s2 = "?s1\<lparr>sl_autoStop := True, sl_stopping := True\<rparr>"
  let ?s3 = "?s2\<lparr>sl_threads := []\<rparr>"
  have "start mk s = (Inr (), ?s1)" using start_ok [of s mk ids] s mk by simp
  moreover have "stop this quiet1 quiet2 ?s1 w' = (Inr Joining, ?s2, w')"
    using stop_outside [of ?s1 w' this] s outside by simp
  moreover have "stop_join pthread_join ?s2 =
      (if \<forall>j < threads. pthread_join (ids j) = 0 then Inr (map ids [0..<threads]) else Inl (Throw ''pthread_join error''), ?s3)"
  proof -
    have "None \<notin> set (workers name ids threads)" by (auto simp: workers_def)
    from join_threads_workers [OF this] show ?thesis by (auto simp: stop_join_def workers_def comp_def)
  qed
  moreover have "start mk2 ?s3 = (Inr (), ?s3\<lparr>sl_stopping := False, sl_threads := workers name ids2 threads,
      sl_threadIds := map ids [0..<threads] @ map ids2 [0..<threads]\<rparr>)"
    using start_ok [of ?s3 mk2 ids2] s mk2 by simp
  ultimately show ?thesis using s
    by (intro exI [of _ ?s1] exI [of _ ?s2] exI [of _ ?s3]) (simp add: delete_Scheduler_def)
qed

text \<open>If a thread cannot be created, \<open>start\<close> throws with the scheduler marked as running and null
  pointers among its threads: another \<open>start\<close> does nothing, and the \<open>stop\<close> that must come before the
  destructor dereferences a null pointer.\<close>

theorem failed_start_breaks_stop:
  assumes new: "new_Scheduler this tc rc dflt run threads False name w = (Inr s, w')"
    and outside: "ow_scheduler w \<noteq> Some this"
    and mk: "\<forall>j < k. mk j = Inr (ids j)" and fail: "mk k = Inl e" and k: "k < threads"
    and join: "\<forall>tid. pthread_join tid = 0"
  shows "\<exists>s1. start mk s = (Inl e, s1) \<and> start mk2 s1 = (Inr (), s1)
    \<and> fst (delete_Scheduler this s1 w') = Inl (Assertion ''m_stopping'')
    \<and> (\<exists>s2. stop this quiet1 quiet2 s1 w' = (Inr Joining, s2, w') \<and> fst (stop_join pthread_join s2) = Inl (Null_pointer ''thr''))"
proof -
  note s = new_Scheduler_cases [OF new]
  let ?s = "s\<lparr>sl_stopping := False, sl_threads := replicate threads None\<rparr>"
  obtain s1 where s1: "start_threads mk 0 threads ?s = (Inl e, s1)" "\<not> sl_stopping s1" "length (sl_threads s1) = threads"
    "sl_threads s1 ! k = None" "sl_rootCoroutine s1 = None" "sl_rootThread s1 = - 1"
    using start_threads_fail [of 0 k mk ids e threads ?s] mk fail k s by auto
  have "None \<in> set (sl_threads s1)" using s1(3,4) k nth_mem [of k "sl_threads s1"] by simp
  then have "join_threads pthread_join (sl_threads s1) = Inl (Null_pointer ''thr'')" using join by (simp add: join_threads_null)
  moreover have "start mk s = (Inl e, s1)" using s s1(1) by (simp add: start_def)
  ultimately show ?thesis
    using s1(2) s outside stop_outside [OF s1(5,6), of w' this quiet1 quiet2]
    by (intro exI [of _ s1]) (simp add: start_def delete_Scheduler_def stop_join_def)
qed

text \<open>A scheduler that has only its caller's thread does all its work in \<open>stop\<close>: the first \<open>stop\<close> with
  entries in the queue switches to the root coroutine, which comes back to the caller's stack when \<open>run\<close>
  has returned. A second \<open>stop\<close> returns at once if nothing is left to do, but if entries were scheduled
  in between it calls the root coroutine that has ended and fails the assertion behind its end.\<close>

theorem second_stop_aborts:
  assumes "ow_machine w = empty_machine" and "ow_scheduler w = None" and "ow_tid w \<noteq> - 1" and "tc \<noteq> rc"
  shows "\<exists>s w1 s1 w2 w3.
      new_Scheduler this tc rc dflt run 1 True name w = (Inr s, w1)
    \<and> stop this False False s w1 = (Inr Called, s1, w2) \<and> running (ow_machine w2) = Stack rc
    \<and> w3 = set_machine (snd (finish f True (ow_machine w2))) w2 \<and> running (ow_machine w3) = Native
    \<and> stop_join pthread_join s1 = (Inr [], s1)
    \<and> fst (stop this True True s1 w3) = Inr Returned_early
    \<and> fst (stop this False False s1 w3) = Inl (Assertion ''never reached'')"
proof -
  define s where "s = \<lparr>sl_name = name, sl_threadCount = 0, sl_rootThread = ow_tid w, sl_rootCoroutine = Some rc,
                  sl_threadIds = [ow_tid w], sl_threads = [], sl_stopping = True, sl_autoStop = False\<rparr>"
  define m where "m = (new_cort dflt rc (Some run) 0 True
      ((new_main tc empty_machine)\<lparr>t_threadCoroutine := Some tc\<rparr>))\<lparr>t_main := Some rc\<rparr>"
  let ?w1 = "w\<lparr>ow_machine := m, ow_scheduler := Some this, ow_local := (ow_local w)\<lparr>tl_name := name\<rparr>\<rparr>"
  let ?s1 = "s\<lparr>sl_autoStop := True\<rparr>"
  have root: "root_start dflt tc rc run = snd (call_cort rc m)"
    by (simp add: root_start_def GetCurrent_def m_def empty_machine_def)
  have new: "new_Scheduler this tc rc dflt run 1 True name w = (Inr s, ?w1)"
    using assms(1,2) by (simp add: new_Scheduler_def GetCurrent_def s_def m_def empty_machine_def Let_def)
  have call: "fst (call_cort rc m) = Inr ()" "getState m rc = INIT" "running (snd (call_cort rc m)) = Stack rc"
    using assms(4) by (simp_all add: m_def empty_machine_def new_main_def new_cort_def call_cort_def getState_def
        cget_def SetCurrent_def setState_def cupd_def swapcontext_def Let_def)
  then obtain m1 where m1: "call_cort rc m = (Inr (), m1)" by (cases "call_cort rc m") auto
  let ?w2 = "set_machine m1 ?w1"
  have first: "stop this False False s ?w1 = (Inr Called, ?s1, ?w2)"
    using assms(3) m1 call(2) by (simp add: stop_def s_def sl_stops_def Let_def)
  let ?w3 = "set_machine (snd (finish f True m1)) ?w2"
  have ended: "getState (snd (finish f True m1)) rc = TERMINATED" "running (snd (finish f True m1)) = Native"
    "fst (call_cort rc (snd (finish f True m1))) = Inl (Assertion ''never reached'')"
    using root_ends [OF assms(4), of f dflt run] root m1 by (simp_all add: Let_def)
  obtain m2 where m2: "call_cort rc (snd (finish f True m1)) = (Inl (Assertion ''never reached''), m2)"
    using ended(3) by (cases "call_cort rc (snd (finish f True m1))") auto
  have "fst (stop this True True ?s1 ?w3) = Inr Returned_early"
    using ended(1) by (simp add: stop_def s_def sl_stops_def set_machine_def Let_def)
  moreover have "fst (stop this False False ?s1 ?w3) = Inl (Assertion ''never reached'')"
    using ended(1) m2 assms(3) by (simp add: stop_def s_def sl_stops_def set_machine_def Let_def)
  moreover have "stop_join pthread_join ?s1 = (Inr [], ?s1)" by (simp add: stop_join_def s_def)
  ultimately show ?thesis
    using new first call(3) m1 ended(2)
    by (intro exI [of _ s] exI [of _ ?w1] exI [of _ ?s1] exI [of _ ?w2] exI [of _ ?w3]) (simp add: set_machine_def)
qed

section \<open>Calls of stop in worker threads\<close>

lemma enter_run_spec:
  "Scheduler_GetCurrent (enter_run this tc s w) = Some this" "ow_tid (enter_run this tc s w) = ow_tid w"
  "ow_tid w \<noteq> sl_rootThread s \<Longrightarrow>
     GetMainCoroutine (enter_run this tc s w) = Some (case t_coroutine (ow_machine w) of None \<Rightarrow> tc | Some c \<Rightarrow> c)"
  "ow_tid w = sl_rootThread s \<Longrightarrow> GetMainCoroutine (enter_run this tc s w) = GetMainCoroutine w"
  by (auto simp: enter_run_def setCurrent_def Scheduler_GetCurrent_def GetMainCoroutine_def set_machine_def GetCurrent_def
      Let_def split: option.split prod.split)

text \<open>A thread in \<open>run\<close> that stops its own scheduler is refused when the scheduler has no root thread. With
  \<open>use_caller\<close> it passes the check, although it is not the root thread: while work is left it enters the
  root coroutine, on its own thread.\<close>

theorem worker_calls_stop:
  assumes "ow_tid w \<noteq> sl_rootThread s"
  shows "(sl_rootThread s = - 1 \<and> sl_rootCoroutine s = None \<longrightarrow>
      fst (stop this quiet1 quiet2 s (enter_run this tc s w)) = Inl (Assertion ''GetCurrent() != this''))
    \<and> (sl_rootThread s \<noteq> - 1 \<and> sl_rootCoroutine s = Some r \<and> 0 < sl_threadCount s
        \<and> call_cort r (ow_machine (enter_run this tc s w)) = (Inr (), m) \<longrightarrow>
      (\<exists>s'. stop this quiet1 False s (enter_run this tc s w) = (Inr Called, s', set_machine m (enter_run this tc s w))))"
  using enter_run_spec(1) [of this tc s w]
  by (auto simp: stop_def Let_def Scheduler_GetCurrent_def sl_stops_def split: option.split)

section \<open>Witnesses\<close>

definition example_owner :: "unit owner" where
  "example_owner = \<lparr>ow_machine = empty_machine, ow_scheduler = None, ow_local = fresh_local, ow_tid = 100\<rparr>"

theorem start_creates_workers_witness:
  "\<exists>s s'. fst (new_Scheduler 1 2 3 1024 () 3 True ''s'' example_owner) = Inr s
     \<and> start (\<lambda>j. Inr (200 + int j)) s = (Inr (), s') \<and> length (sl_threadIds s') = 3"
proof -
  have "\<exists>s w'. new_Scheduler 1 2 3 1024 () 3 True ''s'' example_owner = (Inr s, w')"
    by (simp add: new_Scheduler_def example_owner_def split: prod.split)
  then obtain s w' where new: "new_Scheduler 1 2 3 1024 () 3 True ''s'' example_owner = (Inr s, w')" by blast
  from start_creates_workers [OF new, of "\<lambda>j. Inr (200 + int j)" "\<lambda>j. 200 + int j"] new show ?thesis by auto
qed

lemma new_outside: "\<exists>s. new_Scheduler 1 2 3 1024 () 2 False ''s'' example_owner = (Inr s, example_owner)"
  by (simp add: new_Scheduler_def)

theorem worker_calls_stop_witness:
  "\<exists>s. new_Scheduler 1 2 3 1024 () 2 False ''s'' example_owner = (Inr s, example_owner)
     \<and> fst (stop 1 False False s (enter_run 1 5 s example_owner)) = Inl (Assertion ''GetCurrent() != this'')"
proof -
  obtain s where new: "new_Scheduler 1 2 3 1024 () 2 False ''s'' example_owner = (Inr s, example_owner)"
    using new_outside by blast
  with new_Scheduler_cases [OF new] worker_calls_stop [of example_owner s] show ?thesis
    by (auto simp: example_owner_def)
qed

theorem stop_joins_workers_witness:
  "\<exists>s s1 s2. new_Scheduler 1 2 3 1024 () 2 False ''s'' example_owner = (Inr s, example_owner)
     \<and> start (\<lambda>j. Inr (200 + int j)) s = (Inr (), s1) \<and> stop 1 False False s1 example_owner = (Inr Joining, s2, example_owner)
     \<and> fst (stop_join (\<lambda>tid. 0) s2) = Inr [200, 201]
     \<and> fst (stop_join (\<lambda>tid. if tid = 201 then 22 else 0) s2) = Inl (Throw ''pthread_join error'')"
proof -
  obtain s where new: "new_Scheduler 1 2 3 1024 () 2 False ''s'' example_owner = (Inr s, example_owner)"
    using new_outside by blast
  have "[0..<2] = [0, 1]" by (simp add: upt_rec)
  note joins = stop_joins_workers [OF new, of "\<lambda>j. Inr (200 + int j)" "\<lambda>j. 200 + int j" "\<lambda>j. Inr (int j)" int False False]
  have "\<exists>j < 2. int j = 1" by (intro exI [of _ 1]) simp
  with joins [of "\<lambda>tid. 0"] joins [of "\<lambda>tid. if tid = 201 then 22 else 0"] new \<open>[0..<2] = [0, 1]\<close>
  show ?thesis by (auto simp: example_owner_def)
qed

theorem failed_start_breaks_stop_witness:
  "\<exists>s s1. new_Scheduler 1 2 3 1024 () 2 False ''s'' example_owner = (Inr s, example_owner)
     \<and> start (\<lambda>j. if j = 0 then Inr 200 else Inl (Throw ''pthread_create error'')) s =
         (Inl (Throw ''pthread_create error''), s1)
     \<and> (\<exists>s2. stop 1 False False s1 example_owner = (Inr Joining, s2, example_owner)
           \<and> fst (stop_join (\<lambda>_. 0) s2) = Inl (Null_pointer ''thr''))"
proof -
  obtain s where new: "new_Scheduler 1 2 3 1024 () 2 False ''s'' example_owner = (Inr s, example_owner)"
    using new_outside by blast
  let ?mk = "\<lambda>j :: nat. if j = 0 then Inr 200 else Inl (Throw ''pthread_create error'') :: int outcome"
  have "ow_scheduler example_owner \<noteq> Some 1" "\<forall>j < 1. ?mk j = Inr 200" "?mk 1 = Inl (Throw ''pthread_create error'')"
    by (simp_all add: example_owner_def)
  from failed_start_breaks_stop [OF new this, of "\<lambda>_. 0" ?mk False False] new show ?thesis by auto
qed

theorem second_stop_aborts_witness:
  "\<exists>s w1 s1 w2. new_Scheduler 1 2 3 1024 () 1 True ''s'' example_owner = (Inr s, w1)
     \<and> stop 1 False False s w1 = (Inr Called, s1, w2)
     \<and> fst (stop 1 False False s1 (set_machine (snd (finish 0 True (ow_machine w2))) w2)) =
         Inl (Assertion ''never reached'')"
  using second_stop_aborts [of example_owner 2 3 1 1024 "()" "''s''" 0 "\<lambda>_. 0"] by (auto simp: example_owner_def)

end
