(* ===== verification/Log_Level.thy ===== *)
theory Log_Level
  imports Prelude
begin

text \<open>
  The log levels and the log event (\<open>LogLevel\<close> and \<open>LogEvent\<close> of \<open>mocker/log.h\<close> and
  \<open>mocker/log.cpp\<close>): the enumeration with its order, the conversions to and from strings, the
  event's constructor with its integer conversions, and \<open>LogEvent::format\<close>.
\<close>

section \<open>Levels\<close>

datatype level = UNKNOWN | DEBUG | INFO | WARN | ERROR | FATAL | REMOVED

text \<open>The enumerators' values; \<open>level >= m_level\<close> in the code compares these.\<close>

fun level_value :: "level \<Rightarrow> nat" where
  "level_value UNKNOWN = 0"
| "level_value DEBUG = 1"
| "level_value INFO = 2"
| "level_value WARN = 3"
| "level_value ERROR = 4"
| "level_value FATAL = 5"
| "level_value REMOVED = 100"

lemma level_value_inject [simp]: "level_value a = level_value b \<longleftrightarrow> a = b"
  by (cases a; cases b) simp_all

instantiation level :: linorder
begin

definition less_eq_level :: "level \<Rightarrow> level \<Rightarrow> bool" where
  "less_eq_level a b \<longleftrightarrow> level_value a \<le> level_value b"

definition less_level :: "level \<Rightarrow> level \<Rightarrow> bool" where
  "less_level a b \<longleftrightarrow> level_value a < level_value b"

instance
  by standard (auto simp: less_eq_level_def less_level_def)

end

fun ToString :: "level \<Rightarrow> string" where
  "ToString DEBUG = ''DEBUG''"
| "ToString INFO = ''INFO''"
| "ToString WARN = ''WARN''"
| "ToString ERROR = ''ERROR''"
| "ToString FATAL = ''FATAL''"
| "ToString _ = ''UNKNOWN''"

definition FromString :: "string \<Rightarrow> level" where
  "FromString str =
     (let str = map toupper str in
      if str = ''DEBUG'' then DEBUG
      else if str = ''INFO'' then INFO
      else if str = ''WARN'' then WARN
      else if str = ''ERROR'' then ERROR
      else if str = ''FATAL'' then FATAL
      else UNKNOWN)"

lemma FromString_ToString: "FromString (ToString l) = (if l = REMOVED then UNKNOWN else l)"
  by (cases l) (simp_all add: FromString_def toupper_def)

lemma FromString_not_REMOVED: "FromString s \<noteq> REMOVED"
  by (simp add: FromString_def Let_def)

lemma FromString_case: "FromString (map toupper s) = FromString s"
  by (simp add: FromString_def o_def)

lemma level_ge_REMOVED_iff: "l \<ge> REMOVED \<longleftrightarrow> l = REMOVED"
  by (cases l) (simp_all add: less_eq_level_def)

lemma UNKNOWN_least [simp]: "UNKNOWN \<le> l"
  by (simp add: less_eq_level_def)

section \<open>Events\<close>

text \<open>
  The fields of \<open>LogEvent\<close> at their widths: \<open>int32_t m_line\<close>, \<open>uint32_t m_elapse\<close>,
  \<open>size_t m_threadId\<close>, \<open>uint32_t m_coroutineId\<close>, \<open>uint64_t m_time\<close>; \<open>m_ss\<close> is the content
  written so far.
\<close>

record log_event =
  m_file :: string
  m_line :: "32 word"
  m_elapse :: "32 word"
  m_threadId :: "64 word"
  m_threadName :: string
  m_coroutineId :: "32 word"
  m_time :: "64 word"
  m_ss :: string
  m_logger_real_name :: string

definition LogEvent :: "string \<Rightarrow> 32 word \<Rightarrow> 32 word \<Rightarrow> 32 word \<Rightarrow> string \<Rightarrow> 32 word \<Rightarrow> 64 word
    \<Rightarrow> string \<Rightarrow> log_event" where
  "LogEvent file line elapse threadId thread_name fiberId time logger_real_name =
     \<lparr>m_file = file, m_line = line, m_elapse = elapse, m_threadId = ucast threadId,
      m_threadName = thread_name, m_coroutineId = fiberId, m_time = time, m_ss = [],
      m_logger_real_name = (if logger_real_name = [] then ''root'' else logger_real_name)\<rparr>"

text \<open>
  \<open>util.cpp\<close>: \<open>GetCoroutineId\<close> narrows the coroutine's \<open>uint64_t\<close> id to \<open>uint32_t\<close>.
\<close>

definition util_GetCoroutineId :: "64 word \<Rightarrow> 32 word" where
  "util_GetCoroutineId cid = ucast cid"

text \<open>
  The event of \<open>MOCKER_LOG_LEVEL\<close> and \<open>MOCKER_LOG_FMT_LEVEL\<close>: the elapse argument is the
  constant 0; the thread id is the \<open>pid_t\<close> read as \<open>uint32_t\<close>.
\<close>

definition macro_event :: "string \<Rightarrow> 32 word \<Rightarrow> 32 word \<Rightarrow> string \<Rightarrow> 64 word \<Rightarrow> 64 word \<Rightarrow> string
    \<Rightarrow> log_event" where
  "macro_event file line tid tname cort now lname =
     LogEvent file line 0 tid tname (util_GetCoroutineId cort) now lname"

text \<open>
  \<open>LogEvent::format(fmt, al)\<close>: \<open>vasprintf\<close> of the C library is a parameter, \<open>None\<close> for its
  result \<open>-1\<close>.
\<close>

definition event_format :: "(string \<Rightarrow> 'args \<Rightarrow> string option) \<Rightarrow> string \<Rightarrow> 'args \<Rightarrow> log_event
    \<Rightarrow> log_event" where
  "event_format vasprintf fmt al ev =
     (case vasprintf fmt al of
        None \<Rightarrow> ev
      | Some buf \<Rightarrow> ev\<lparr>m_ss := m_ss ev @ buf\<rparr>)"

text \<open>Writing to the event's stream (\<open>getSS() << s\<close>).\<close>

definition event_put :: "string \<Rightarrow> log_event \<Rightarrow> log_event" where
  "event_put s ev = ev\<lparr>m_ss := m_ss ev @ s\<rparr>"

lemma macro_event_elapse [simp]: "m_elapse (macro_event f l t n c w nm) = 0"
  by (simp add: macro_event_def LogEvent_def)

lemma unat_util_GetCoroutineId: "unat (util_GetCoroutineId c) = unat c mod 2 ^ 32"
  by (simp add: util_GetCoroutineId_def unsigned_ucast_eq take_bit_eq_mod)

end
