(* ===== verification/Log_Formatter.thy ===== *)
theory Log_Formatter
  imports Log_Level
begin

text \<open>
  \<open>LogFormatter\<close> of \<open>mocker/log.cpp\<close>: the format items and what each writes, the pattern
  scanner \<open>init\<close> with its index arithmetic, and a scanner on the rest of the pattern that is
  proved to compute the same tuples and on which the properties of patterns are proved.
\<close>

section \<open>Format items\<close>

datatype format_item =
    MessageFormatItem
  | LevelFormatItem
  | ElapseFormatItem
  | NameFormatItem
  | ThreadIdFormatItem
  | ThreadNameFormatItem
  | FiberIdFormatItem
  | DateTimeFormatItem string
  | FilenameFormatItem
  | LineFormatItem
  | NewLineFormatItem
  | TabFormatItem
  | StringFormatItem string

text \<open>The constructor of \<open>DateTimeFormatItem\<close>: an empty format becomes the default one.\<close>

definition new_DateTimeFormatItem :: "string \<Rightarrow> format_item" where
  "new_DateTimeFormatItem fmt =
     DateTimeFormatItem (if fmt = [] then ''%Y-%m-%d %H:%M:%S'' else fmt)"

text \<open>
  What an item writes to the stream. \<open>localtime_r\<close> and \<open>strftime\<close> of the C library are the
  parameter \<open>strftime\<close>: the text for a format and a time.
\<close>

fun item_format :: "(string \<Rightarrow> 64 word \<Rightarrow> string) \<Rightarrow> level \<Rightarrow> log_event \<Rightarrow> format_item \<Rightarrow> string" where
  "item_format strftime level event MessageFormatItem = m_ss event"
| "item_format strftime level event LevelFormatItem = ToString level"
| "item_format strftime level event ElapseFormatItem = show_nat (unat (m_elapse event))"
| "item_format strftime level event NameFormatItem = m_logger_real_name event"
| "item_format strftime level event ThreadIdFormatItem = show_nat (unat (m_threadId event))"
| "item_format strftime level event ThreadNameFormatItem = m_threadName event"
| "item_format strftime level event FiberIdFormatItem = show_nat (unat (m_coroutineId event))"
| "item_format strftime level event (DateTimeFormatItem fmt) = strftime fmt (m_time event)"
| "item_format strftime level event FilenameFormatItem = m_file event"
| "item_format strftime level event LineFormatItem = show_int (sint (m_line event))"
| "item_format strftime level event NewLineFormatItem = [CHR 0x0A]"
| "item_format strftime level event TabFormatItem = [CHR 0x09]"
| "item_format strftime level event (StringFormatItem str) = str"

section \<open>The scanner\<close>

text \<open>
  The inner \<open>while\<close> of \<open>init\<close> for the directive whose percent sign is at index \<open>i\<close>: the loop
  variables \<open>j\<close>, \<open>fmt_status\<close>, \<open>fmt_begin\<close>, \<open>fmt_str\<close>, \<open>fmt\<close>. The branch for a character that is
  neither a letter nor an opening brace does \<open>--j\<close>, \<open>++j\<close> and leaves the loop. The result is
  \<open>(j, fmt_status, fmt_str, fmt)\<close>.
\<close>

function scan_directive :: "string \<Rightarrow> nat \<Rightarrow> nat \<Rightarrow> nat \<Rightarrow> nat \<Rightarrow> string \<Rightarrow> string
    \<Rightarrow> nat \<times> nat \<times> string \<times> string" where
  "scan_directive pat i j fmt_status fmt_begin fmt_str fmt =
     (if j < length pat then
        if fmt_status = 0 \<or> fmt_status = 1 then
          if isalpha (pat ! j) then
            scan_directive pat i (j + 1) 1 fmt_begin
              (if j + 1 = length pat then substr pat (i + 1) (j - i + 1) else fmt_str) fmt
          else if pat ! j = CHR ''{'' then
            scan_directive pat i (j + 1) 2 fmt_begin (substr pat (i + 1) (j - i - 1)) fmt
          else (j, fmt_status, substr pat (i + 1) (j - i - 1), fmt)
        else if fmt_status = 2 then scan_directive pat i (j + 1) 3 j fmt_str fmt
        else if fmt_status = 3 then
          if pat ! j = CHR ''}'' then (j + 1, 4, fmt_str, substr pat fmt_begin (j - fmt_begin))
          else scan_directive pat i (j + 1) 3 fmt_begin fmt_str fmt
        else scan_directive pat i (j + 1) fmt_status fmt_begin fmt_str fmt
      else (j, fmt_status, fmt_str, fmt))"
  by pat_completeness auto
termination
  by (relation "measure (\<lambda>(pat, i, j, _). length pat - j)") auto

declare scan_directive.simps [simp del]

lemma scan_directive_ge: "j \<le> fst (scan_directive pat i j st fb fs fm)"
proof (induction pat i j st fb fs fm rule: scan_directive.induct)
  case (1 pat i j st fb fs fm)
  then show ?case
    by (subst scan_directive.simps) (auto dest: Suc_leD)
qed

lemma scan_directive_fst: "(j', y) = scan_directive pat i (Suc i) st fb fs fm \<Longrightarrow> i < j'"
  using scan_directive_ge [of "Suc i" pat i st fb fs fm] by (metis Suc_le_eq fst_conv)

text \<open>
  The tuples \<open>(str, format, type)\<close> of the vector \<open>vec\<close>; type 0 is literal text, type 1 a
  directive.
\<close>

type_synonym fmt_tuple = "string \<times> string \<times> nat"

abbreviation flush :: "string \<Rightarrow> fmt_tuple list" where
  "flush nstr \<equiv> (if nstr \<noteq> [] then [(nstr, [], 0)] else [])"

text \<open>
  The outer \<open>for\<close> of \<open>init\<close>. After a directive that was read (\<open>fmt_status\<close> 1 or 4) the code sets
  \<open>i = j - 1\<close> and the loop's increment makes it \<open>j\<close>; after a failed one, and after the pair of
  percent signs, only the increment happens.
\<close>

function init_loop :: "string \<Rightarrow> nat \<Rightarrow> string \<Rightarrow> fmt_tuple list \<Rightarrow> bool \<Rightarrow> fmt_tuple list \<times> bool" where
  "init_loop pat i nstr vec m_error =
     (if i < length pat then
        if pat ! i \<noteq> CHR ''%'' then init_loop pat (i + 1) (nstr @ [pat ! i]) vec m_error
        else if i + 1 < length pat \<and> pat ! (i + 1) = CHR ''%'' then
          init_loop pat (i + 1) (nstr @ [CHR ''%'']) vec m_error
        else
          (case scan_directive pat i (i + 1) 0 0 [] [] of
             (j, fmt_status, fmt_str, fmt) \<Rightarrow>
               if fmt_status = 1 \<or> fmt_status = 4 then
                 init_loop pat j [] ((vec @ flush nstr) @ [(fmt_str, fmt, 1)]) m_error
               else init_loop pat (i + 1) nstr (vec @ [(''<<pattern_error>>'', fmt, 1)]) True)
      else (vec @ flush nstr, m_error))"
  by pat_completeness auto
termination
  by (relation "measure (\<lambda>(pat, i, _). length pat - i)")
    (auto dest: scan_directive_fst)

declare init_loop.simps [simp del]

text \<open>
  The table \<open>s_format_items\<close>: the item for a directive's letters, built with the text between
  the braces.
\<close>

definition s_format_items :: "(string \<times> (string \<Rightarrow> format_item)) list" where
  "s_format_items =
     [(''m'', \<lambda>fmt. MessageFormatItem), (''p'', \<lambda>fmt. LevelFormatItem),
      (''r'', \<lambda>fmt. ElapseFormatItem), (''c'', \<lambda>fmt. NameFormatItem),
      (''t'', \<lambda>fmt. ThreadIdFormatItem), (''N'', \<lambda>fmt. ThreadNameFormatItem),
      (''n'', \<lambda>fmt. NewLineFormatItem), (''d'', new_DateTimeFormatItem),
      (''f'', \<lambda>fmt. FilenameFormatItem), (''l'', \<lambda>fmt. LineFormatItem),
      (''T'', \<lambda>fmt. TabFormatItem), (''F'', \<lambda>fmt. FiberIdFormatItem)]"

text \<open>The last loop of \<open>init\<close>: the items for the tuples, and whether a directive was unknown.\<close>

fun build_items :: "fmt_tuple list \<Rightarrow> bool \<Rightarrow> format_item list \<times> bool" where
  "build_items [] m_error = ([], m_error)"
| "build_items ((str, fmt, ty) # vec) m_error =
     (if ty = 0 then
        (case build_items vec m_error of (m_items, e) \<Rightarrow> (StringFormatItem str # m_items, e))
      else
        (case map_of s_format_items str of
           None \<Rightarrow>
             (case build_items vec True of (m_items, e) \<Rightarrow>
                (StringFormatItem (''<<error_format %'' @ str @ ''>>'') # m_items, e))
         | Some mk \<Rightarrow>
             (case build_items vec m_error of (m_items, e) \<Rightarrow> (mk fmt # m_items, e))))"

record formatter =
  m_pattern :: string
  m_items :: "format_item list"
  m_error :: bool

text \<open>The constructor \<open>LogFormatter(pattern)\<close>, which runs \<open>init\<close>.\<close>

definition LogFormatter :: "string \<Rightarrow> formatter" where
  "LogFormatter pattern =
     (case init_loop pattern 0 [] [] False of
        (vec, err) \<Rightarrow>
          (case build_items vec err of
             (items, err') \<Rightarrow> \<lparr>m_pattern = pattern, m_items = items, m_error = err'\<rparr>))"

definition formatter_format :: "(string \<Rightarrow> 64 word \<Rightarrow> string) \<Rightarrow> formatter \<Rightarrow> level \<Rightarrow> log_event \<Rightarrow> string"
  where "formatter_format strftime f level event =
           concat (map (item_format strftime level event) (m_items f))"

section \<open>The scanner on the rest of the pattern\<close>

text \<open>
  What follows a percent sign: letters, then optionally a brace, at least one character (the
  first one may be any character, a closing brace included) and the next closing brace.
  \<open>Some (letters, format, rest)\<close>, or \<open>None\<close> for a pattern error.
\<close>

definition read_directive :: "string \<Rightarrow> (string \<times> string \<times> string) option" where
  "read_directive r =
     (let name = takeWhile isalpha r in
      case dropWhile isalpha r of
        [] \<Rightarrow> if name = [] then None else Some (name, [], [])
      | c # t \<Rightarrow>
          if c = CHR ''{'' then
            (case t of
               [] \<Rightarrow> None
             | d # u \<Rightarrow>
                 (case dropWhile (\<lambda>x. x \<noteq> CHR ''}'') u of
                    [] \<Rightarrow> None
                  | _ # rest \<Rightarrow> Some (name, d # takeWhile (\<lambda>x. x \<noteq> CHR ''}'') u, rest)))
          else if name = [] then None
          else Some (name, [], c # t))"

lemma length_dropWhile_Cons: "dropWhile P xs = y # ys \<Longrightarrow> length ys < length xs"
  by (induction xs) (auto split: if_splits)

lemma read_directive_Nil:
  assumes all: "dropWhile isalpha r = []"
  shows "read_directive r = (if r = [] then None else Some (r, [], []))"
proof -
  have name: "takeWhile isalpha r = r"
    using all by (metis append_Nil2 takeWhile_dropWhile_id)
  show ?thesis unfolding read_directive_def all name Let_def by simp
qed

lemma read_directive_brace_end: "dropWhile isalpha r = [CHR ''{''] \<Longrightarrow> read_directive r = None"
  by (simp add: read_directive_def)

lemma read_directive_brace: "dropWhile isalpha r = CHR ''{'' # d # u \<Longrightarrow>
    read_directive r =
      (case dropWhile (\<lambda>x. x \<noteq> CHR ''}'') u of
         [] \<Rightarrow> None
       | _ # rest \<Rightarrow> Some (takeWhile isalpha r, d # takeWhile (\<lambda>x. x \<noteq> CHR ''}'') u, rest))"
  by (simp add: read_directive_def)

lemma read_directive_other: "dropWhile isalpha r = c # t \<Longrightarrow> c \<noteq> CHR ''{'' \<Longrightarrow>
    read_directive r =
      (if takeWhile isalpha r = [] then None else Some (takeWhile isalpha r, [], c # t))"
  by (simp add: read_directive_def)

text \<open>The four ways a directive can go on after its letters.\<close>

lemma read_directive_cases:
  obtains (letters) "dropWhile isalpha r = []"
  | (brace_end) "dropWhile isalpha r = [CHR ''{'']"
  | (brace) d u where "dropWhile isalpha r = CHR ''{'' # d # u"
  | (other) c t where "dropWhile isalpha r = c # t" "c \<noteq> CHR ''{''"
  by (cases "dropWhile isalpha r") (metis list.exhaust)+

lemma read_directive_length: "read_directive r = Some (n, f, rest) \<Longrightarrow> length rest \<le> length r"
proof (cases r rule: read_directive_cases)
  case (brace d u)
  assume "read_directive r = Some (n, f, rest)"
  then obtain x where "dropWhile (\<lambda>x. x \<noteq> CHR ''}'') u = x # rest"
    by (auto simp: read_directive_brace [OF brace] split: list.splits)
  then have "length rest < length u" by (rule length_dropWhile_Cons)
  moreover have "length (CHR ''{'' # d # u) \<le> length r"
    unfolding brace [symmetric] by (rule length_dropWhile_le)
  ultimately show ?thesis by simp
next
  case (other c t)
  assume "read_directive r = Some (n, f, rest)"
  with other have "rest = dropWhile isalpha r"
    by (auto simp: read_directive_other split: if_splits)
  then show ?thesis by (simp add: length_dropWhile_le)
qed (auto simp: read_directive_Nil read_directive_brace_end split: if_splits)

function scan_rest :: "string \<Rightarrow> string \<Rightarrow> fmt_tuple list \<times> bool" where
  "scan_rest [] nstr = (flush nstr, False)"
| "scan_rest (c # r) nstr =
     (if c \<noteq> CHR ''%'' then scan_rest r (nstr @ [c])
      else if r \<noteq> [] \<and> hd r = CHR ''%'' then scan_rest r (nstr @ [CHR ''%''])
      else
        (case read_directive r of
           Some (name, fmt, rest) \<Rightarrow>
             (case scan_rest rest [] of (ts, e) \<Rightarrow> (flush nstr @ (name, fmt, 1) # ts, e))
         | None \<Rightarrow>
             (case scan_rest r nstr of (ts, e) \<Rightarrow> ((''<<pattern_error>>'', [], 1) # ts, True))))"
  by pat_completeness auto
termination
  by (relation "measure (\<lambda>(r, _). length r)") (auto dest: read_directive_length)

end
