(* ===== verification/Pattern_Scanner.thy ===== *)
theory Pattern_Scanner
  imports Log_Formatter
begin

text \<open>
  The index scanner of \<open>LogFormatter::init\<close> computes the same tuples as the scanner on the rest
  of the pattern.
\<close>

abbreviation not_close :: "char \<Rightarrow> bool" where
  "not_close \<equiv> (\<lambda>x. x \<noteq> CHR ''}'')"

lemma drop_nth_Suc: "j < length xs \<Longrightarrow> drop j xs = xs ! j # drop (Suc j) xs"
  by (rule Cons_nth_drop_Suc [symmetric])

text \<open>State 3 of the inner loop: up to the closing brace, or to the end of the pattern.\<close>

lemma scan_braces:
  assumes "j \<le> length pat"
  shows "scan_directive pat i j 3 fb fs fm =
    (case dropWhile not_close (drop j pat) of
       [] \<Rightarrow> (length pat, 3, fs, fm)
     | _ # _ \<Rightarrow>
         (let k = j + length (takeWhile not_close (drop j pat))
          in (k + 1, 4, fs, substr pat fb (k - fb))))"
  using assms
proof (induction "length pat - j" arbitrary: j)
  case 0
  then show ?case by (subst scan_directive.simps) simp
next
  case (Suc n)
  then have j: "j < length pat" by simp
  show ?case
  proof (cases "pat ! j = CHR ''}''")
    case True
    with j show ?thesis
      by (subst scan_directive.simps) (simp add: drop_nth_Suc)
  next
    case False
    have "scan_directive pat i j 3 fb fs fm = scan_directive pat i (Suc j) 3 fb fs fm"
      using j False by (subst scan_directive.simps) simp
    also note Suc.hyps(1) [of "Suc j"]
    finally show ?thesis
      using j False Suc.hyps(2)
      by (cases "dropWhile not_close (drop (Suc j) pat)")
        (simp_all add: drop_nth_Suc del: dropWhile_eq_Nil_conv)
  qed
qed

text \<open>States 0 and 1: the letters of the directive.\<close>

lemma scan_letters_end:
  assumes "j < length pat" and "dropWhile isalpha (drop j pat) = []" and "i < j"
    and "st = 0 \<or> st = 1"
  shows "scan_directive pat i j st fb fs fm = (length pat, 1, drop (i + 1) pat, fm)"
  using assms
proof (induction "length pat - j" arbitrary: j st fs)
  case 0
  then show ?case by simp
next
  case (Suc n)
  have alpha: "isalpha (pat ! j)" and more: "dropWhile isalpha (drop (Suc j) pat) = []"
    using Suc.prems(1,2) by (simp_all add: drop_nth_Suc split: if_splits)
  show ?case
  proof (cases "Suc j = length pat")
    case True
    with alpha Suc.prems show ?thesis
      by (subst scan_directive.simps, subst scan_directive.simps) (auto simp: substr_def)
  next
    case False
    have "scan_directive pat i j st fb fs fm = scan_directive pat i (Suc j) 1 fb fs fm"
      using alpha False Suc.prems by (subst scan_directive.simps) auto
    also have "\<dots> = (length pat, 1, drop (i + 1) pat, fm)"
      by (rule Suc.hyps(1)) (use Suc.hyps(2) Suc.prems False more in auto)
    finally show ?thesis .
  qed
qed

lemma scan_letters:
  assumes "dropWhile isalpha (drop j pat) = c # t" and "i < j" and "st = 0 \<or> st = 1"
  shows "\<exists>fs'. scan_directive pat i j st fb fs fm =
      scan_directive pat i (j + length (takeWhile isalpha (drop j pat)))
        (if takeWhile isalpha (drop j pat) = [] then st else 1) fb fs' fm"
  using assms
proof (induction "length pat - j" arbitrary: j st fs)
  case 0
  then show ?case by simp
next
  case (Suc n)
  then have j: "j < length pat" by simp
  show ?case
  proof (cases "isalpha (pat ! j)")
    case True
    then have more: "dropWhile isalpha (drop (Suc j) pat) = c # t"
      using j Suc.prems(1) by (simp add: drop_nth_Suc)
    then have "Suc j < length pat" by (cases "Suc j < length pat") auto
    then have "scan_directive pat i j st fb fs fm = scan_directive pat i (Suc j) 1 fb fs fm"
      using True j Suc.prems by (subst scan_directive.simps) auto
    moreover have "\<exists>fs'. scan_directive pat i (Suc j) 1 fb fs fm =
        scan_directive pat i (Suc j + length (takeWhile isalpha (drop (Suc j) pat)))
          (if takeWhile isalpha (drop (Suc j) pat) = [] then 1 else 1) fb fs' fm"
      by (rule Suc.hyps(1)) (use Suc.hyps(2) Suc.prems more j in auto)
    ultimately show ?thesis
      using True j by (auto simp: drop_nth_Suc)
  next
    case False
    with j show ?thesis by (auto simp: drop_nth_Suc)
  qed
qed

text \<open>The whole inner loop, started behind the percent sign.\<close>

lemma scan_directive_read:
  assumes i: "i < length pat" and r: "r = drop (Suc i) pat"
  shows "(case read_directive r of
      Some (n, f, rest) \<Rightarrow> \<exists>j st. scan_directive pat i (Suc i) 0 0 [] [] = (j, st, n, f)
        \<and> (st = 1 \<or> st = 4) \<and> drop j pat = rest
    | None \<Rightarrow> \<exists>j st n. scan_directive pat i (Suc i) 0 0 [] [] = (j, st, n, []) \<and> st \<noteq> 1 \<and> st \<noteq> 4)"
proof -
  define w where "w = takeWhile isalpha r"
  define k where "k = Suc i + length w"
  have dropk: "drop k pat = dropWhile isalpha r"
    unfolding k_def w_def r by (metis add.commute drop_drop dropWhile_eq_drop)
  have name: "substr pat (Suc i) (k - Suc i) = w"
    unfolding k_def w_def substr_def r by (simp add: takeWhile_eq_take [symmetric])
  have letters: "\<exists>fs'. scan_directive pat i (Suc i) 0 0 [] [] =
      scan_directive pat i k (if w = [] then 0 else 1) 0 fs' []"
    if "dropWhile isalpha r = c # t" for c t
    using scan_letters [of "Suc i" pat c t i 0 0 "[]" "[]"] that unfolding k_def w_def r by auto
  have at_brace: "scan_directive pat i k (if w = [] then 0 else 1) 0 fs' [] =
      scan_directive pat i (Suc k) 2 0 w []"
    if "dropWhile isalpha r = CHR ''{'' # t" for t fs'
    using that dropk name by (subst scan_directive.simps) (auto dest!: drop_ConsD)
  show ?thesis
  proof (cases r rule: read_directive_cases)
    case letters
    show ?thesis
    proof (cases "Suc i < length pat")
      case True
      with letters r have "scan_directive pat i (Suc i) 0 0 [] [] = (length pat, 1, r, [])"
        by (subst scan_letters_end) auto
      with letters True r show ?thesis
        by (simp add: read_directive_Nil del: dropWhile_eq_Nil_conv)
    next
      case False
      with i r have "r = []" and "scan_directive pat i (Suc i) 0 0 [] [] = (Suc i, 0, [], [])"
        by (auto simp: scan_directive.simps)
      then show ?thesis by (simp add: read_directive_Nil)
    qed
  next
    case brace_end
    then have "scan_directive pat i (Suc k) 2 0 w [] = (Suc k, 2, w, [])"
      using dropk by (subst scan_directive.simps) (auto dest!: drop_ConsD)
    with letters [OF brace_end] at_brace [OF brace_end] show ?thesis
      by (auto simp: read_directive_brace_end [OF brace_end])
  next
    case (brace d u)
    then have d: "Suc k < length pat" "drop (Suc k) pat = d # u" "drop (Suc (Suc k)) pat = u"
      using dropk by (auto dest!: drop_ConsD)
    have "scan_directive pat i (Suc k) 2 0 w [] = scan_directive pat i (Suc (Suc k)) 3 (Suc k) w []"
      using d(1) by (subst scan_directive.simps) simp
    with letters [OF brace] at_brace [OF brace]
    have scan: "scan_directive pat i (Suc i) 0 0 [] [] =
        scan_directive pat i (Suc (Suc k)) 3 (Suc k) w []"
      by auto
    show ?thesis
    proof (cases "dropWhile not_close u")
      case Nil
      with d scan show ?thesis
        by (simp add: read_directive_brace [OF brace] scan_braces del: dropWhile_eq_Nil_conv)
    next
      case (Cons x rest)
      have "drop (Suc (Suc (Suc (k + length (takeWhile not_close u))))) pat = rest"
        using Cons d(3) by (metis drop_ConsD drop_drop dropWhile_eq_drop add.commute add_Suc_right)
      moreover have "substr pat (Suc k) (Suc (length (takeWhile not_close u))) =
          d # takeWhile not_close u"
        by (simp add: substr_def d(2) takeWhile_eq_take [symmetric])
      ultimately show ?thesis
        using Cons d scan w_def
        by (simp add: read_directive_brace [OF brace] scan_braces Suc_diff_le)
    qed
  next
    case (other c t)
    then have k: "k < length pat" "pat ! k = c"
      using dropk by (auto dest!: drop_ConsD)
    have "\<not> isalpha c"
      using other(1) by (metis dropWhile_eq_Cons_conv)
    then have "scan_directive pat i k (if w = [] then 0 else 1) 0 fs' [] =
        (k, if w = [] then 0 else 1, w, [])" for fs'
      using k other(2) name by (subst scan_directive.simps) simp
    with letters [OF other(1)] dropk other(1) show ?thesis
      by (auto simp: read_directive_other [OF other] w_def [symmetric])
  qed
qed

lemma init_loop_scan_rest:
  "init_loop pat i nstr vec err =
     (case scan_rest (drop i pat) nstr of (ts, e) \<Rightarrow> (vec @ ts, err \<or> e))"
proof (induction pat i nstr vec err rule: init_loop.induct)
  case (1 pat i nstr vec err)
  show ?case
  proof (cases "i < length pat")
    case False
    then show ?thesis by (simp add: init_loop.simps)
  next
    case i: True
    then have d: "drop i pat = pat ! i # drop (Suc i) pat" by (rule drop_nth_Suc)
    consider (plain) "pat ! i \<noteq> CHR ''%''"
      | (pair) "pat ! i = CHR ''%''" "Suc i < length pat" "pat ! Suc i = CHR ''%''"
      | (dir) "pat ! i = CHR ''%''" "\<not> (Suc i < length pat \<and> pat ! Suc i = CHR ''%'')"
      by blast
    then show ?thesis
    proof cases
      case plain
      with i "1.IH"(1) d show ?thesis by (simp add: init_loop.simps [of pat i])
    next
      case pair
      with i "1.IH"(2) d show ?thesis
        by (simp add: init_loop.simps [of pat i] hd_drop_conv_nth)
    next
      case dir
      define r where "r = drop (Suc i) pat"
      have nopair: "\<not> (r \<noteq> [] \<and> hd r = CHR ''%'')"
        using dir(2) unfolding r_def by (auto simp: hd_drop_conv_nth)
      show ?thesis
      proof (cases "read_directive r")
        case None
        then obtain j st n where "scan_directive pat i (Suc i) 0 0 [] [] = (j, st, n, [])"
            "st \<noteq> 1" "st \<noteq> 4"
          using scan_directive_read [OF i r_def] by auto
        with i dir d None nopair "1.IH"(4) [OF i] show ?thesis
          by (auto simp: init_loop.simps [of pat i] r_def split: prod.splits)
      next
        case (Some nfr)
        then obtain n f rest where nfr: "read_directive r = Some (n, f, rest)"
          by (cases nfr) auto
        then obtain j st where "scan_directive pat i (Suc i) 0 0 [] [] = (j, st, n, f)"
            "st = 1 \<or> st = 4" "drop j pat = rest"
          using scan_directive_read [OF i r_def] by auto
        with i dir d nfr nopair "1.IH"(3) [OF i] show ?thesis
          by (auto simp: init_loop.simps [of pat i] r_def split: prod.splits)
      qed
    qed
  qed
qed

section \<open>The items of a pattern\<close>

definition known :: "string \<Rightarrow> bool" where
  "known name \<longleftrightarrow> map_of s_format_items name \<noteq> None"

fun tuple_item :: "fmt_tuple \<Rightarrow> format_item" where
  "tuple_item (str, fmt, ty) =
     (if ty = 0 then StringFormatItem str
      else (case map_of s_format_items str of
              None \<Rightarrow> StringFormatItem (''<<error_format %'' @ str @ ''>>'')
            | Some mk \<Rightarrow> mk fmt))"

fun bad_tuple :: "fmt_tuple \<Rightarrow> bool" where
  "bad_tuple (str, fmt, ty) \<longleftrightarrow> ty \<noteq> 0 \<and> \<not> known str"

lemma build_items_map:
  "build_items ts e = (map tuple_item ts, e \<or> (\<exists>t \<in> set ts. bad_tuple t))"
  by (induction ts e rule: build_items.induct) (auto simp: known_def split: option.split)

lemma not_known_pattern_error [simp]: "\<not> known ''<<pattern_error>>''"
  by (simp add: known_def s_format_items_def)

lemma scan_rest_error_tuple: "snd (scan_rest r nstr) \<Longrightarrow> \<exists>t \<in> set (fst (scan_rest r nstr)). bad_tuple t"
proof (induction r nstr rule: scan_rest.induct)
  case (2 c r nstr)
  then show ?case
    by (auto split: if_splits option.splits prod.splits)
qed simp

text \<open>So the flag set at a pattern error adds nothing: the tuple left there is an unknown one.\<close>

lemma LogFormatter_scan:
  "LogFormatter pat = \<lparr>m_pattern = pat, m_items = map tuple_item (fst (scan_rest pat [])),
     m_error = (\<exists>t \<in> set (fst (scan_rest pat [])). bad_tuple t)\<rparr>"
  using scan_rest_error_tuple [of pat "[]"]
  by (auto simp: LogFormatter_def init_loop_scan_rest build_items_map split: prod.splits)

section \<open>Case analysis and induction for the scanner\<close>

text \<open>What a directive consumed: at least one character, and the last one is no percent sign.\<close>

lemma read_directive_split:
  "read_directive r = Some (n, f, rest) \<Longrightarrow> \<exists>w. r = w @ rest \<and> w \<noteq> [] \<and> last w \<noteq> CHR ''%''"
proof (cases r rule: read_directive_cases)
  case letters
  assume "read_directive r = Some (n, f, rest)"
  with letters have "r \<noteq> []" "rest = []" "\<forall>x \<in> set r. isalpha x"
    by (auto simp: read_directive_Nil split: if_splits)
  then show ?thesis by (metis append_Nil2 isalpha_not_special(1) last_in_set)
next
  case brace_end
  assume "read_directive r = Some (n, f, rest)"
  with brace_end show ?thesis by (simp add: read_directive_brace_end)
next
  case (brace d u)
  assume "read_directive r = Some (n, f, rest)"
  then obtain x where x: "dropWhile not_close u = x # rest"
    by (auto simp: read_directive_brace [OF brace] split: list.splits)
  then have "x = CHR ''}''" by (auto simp: dropWhile_eq_Cons_conv)
  with x have "u = takeWhile not_close u @ [CHR ''}''] @ rest"
    by (metis append_Cons append_Nil takeWhile_dropWhile_id)
  let ?w = "takeWhile isalpha r @ CHR ''{'' # d # takeWhile not_close u @ [CHR ''}'']"
  have "r = ?w @ rest"
    using brace \<open>u = _\<close> by (metis append.assoc append_Cons takeWhile_dropWhile_id)
  moreover have "?w \<noteq> []" and "last ?w \<noteq> CHR ''%''" by simp_all
  ultimately show ?thesis by blast
next
  case (other c t)
  assume rd: "read_directive r = Some (n, f, rest)"
  with other have w: "takeWhile isalpha r \<noteq> []" "rest = c # t"
    by (auto simp: read_directive_other split: if_splits)
  then have "last (takeWhile isalpha r) \<noteq> CHR ''%''"
    by (metis isalpha_not_special(1) last_in_set set_takeWhileD)
  with w other show ?thesis by (metis takeWhile_dropWhile_id)
qed

abbreviation pair_ahead :: "string \<Rightarrow> bool" where
  "pair_ahead r \<equiv> r \<noteq> [] \<and> hd r = CHR ''%''"

lemma scan_rest_steps:
  "scan_rest [] nstr = (flush nstr, False)"
  "c \<noteq> CHR ''%'' \<Longrightarrow> scan_rest (c # r) nstr = scan_rest r (nstr @ [c])"
  "scan_rest (CHR ''%'' # CHR ''%'' # t) nstr = scan_rest (CHR ''%'' # t) (nstr @ ''%'')"
  "\<not> pair_ahead r \<Longrightarrow> read_directive r = Some (n, f, rest) \<Longrightarrow>
     scan_rest (CHR ''%'' # r) nstr =
       (case scan_rest rest [] of (ts, e) \<Rightarrow> (flush nstr @ (n, f, 1) # ts, e))"
  "\<not> pair_ahead r \<Longrightarrow> read_directive r = None \<Longrightarrow>
     scan_rest (CHR ''%'' # r) nstr =
       (case scan_rest r nstr of (ts, e) \<Rightarrow> ((''<<pattern_error>>'', [], 1) # ts, True))"
  by (subst scan_rest.simps, auto)+

declare scan_rest.simps [simp del]

lemma scan_rest_induct [case_names Nil char pair dir bad]:
  assumes Nil: "\<And>nstr. P [] nstr"
    and char: "\<And>c r nstr. c \<noteq> CHR ''%'' \<Longrightarrow> P r (nstr @ [c]) \<Longrightarrow> P (c # r) nstr"
    and pair: "\<And>t nstr. P (CHR ''%'' # t) (nstr @ ''%'') \<Longrightarrow> P (CHR ''%'' # CHR ''%'' # t) nstr"
    and dir: "\<And>r nstr n f rest w. \<not> pair_ahead r \<Longrightarrow> read_directive r = Some (n, f, rest) \<Longrightarrow>
      r = w @ rest \<Longrightarrow> w \<noteq> [] \<Longrightarrow> last w \<noteq> CHR ''%'' \<Longrightarrow> P rest [] \<Longrightarrow> P (CHR ''%'' # r) nstr"
    and bad: "\<And>r nstr. \<not> pair_ahead r \<Longrightarrow> read_directive r = None \<Longrightarrow> P r nstr \<Longrightarrow>
      P (CHR ''%'' # r) nstr"
  shows "P r nstr"
proof (induction r nstr rule: scan_rest.induct)
  case (1 nstr)
  show ?case by (rule Nil)
next
  case (2 c r nstr)
  consider (c) "c \<noteq> CHR ''%''" | (p) t where "c = CHR ''%''" "r = CHR ''%'' # t"
    | (d) n f rest where "c = CHR ''%''" "\<not> pair_ahead r" "read_directive r = Some (n, f, rest)"
    | (b) "c = CHR ''%''" "\<not> pair_ahead r" "read_directive r = None"
    by (cases r; cases "read_directive r") auto
  then show ?case
  proof cases
    case c
    with 2(1) char show ?thesis by blast
  next
    case p
    with 2(2) pair show ?thesis by simp
  next
    case d
    obtain w where w: "r = w @ rest" "w \<noteq> []" "last w \<noteq> CHR ''%''"
      using read_directive_split [OF d(3)] by blast
    have "P rest []"
      by (rule 2(4) [OF _ _ d(3)]) (use d in auto)
    with d w show ?thesis by (auto intro: dir)
  next
    case b
    then have "P r nstr"
      by (intro 2(3)) auto
    then have "P (CHR ''%'' # r) nstr"
      by (rule bad [OF b(2,3)])
    with b(1) show ?thesis by simp
  qed
qed

end
