(* ===== verification/Log_Pattern.thy ===== *)
theory Log_Pattern
  imports Pattern_Scanner
begin

text \<open>
  Properties of log patterns: printing and reading back a list of directives, what the escaped
  percent sign does, patterns that are always refused, the accounting of the pattern's characters, and the
  pattern every logger starts with.
\<close>

section \<open>Patterns printed from a list of directives\<close>

datatype directive = Lit string | Plain string | Braced string string

fun render :: "directive list \<Rightarrow> string" where
  "render [] = []"
| "render (Lit s # ds) = s @ render ds"
| "render (Plain n # ds) = CHR ''%'' # n @ render ds"
| "render (Braced n f # ds) = CHR ''%'' # n @ CHR ''{'' # f @ CHR ''}'' # render ds"

fun directive_tuple :: "directive \<Rightarrow> fmt_tuple" where
  "directive_tuple (Lit s) = (s, [], 0)"
| "directive_tuple (Plain n) = (n, [], 1)"
| "directive_tuple (Braced n f) = (n, f, 1)"

fun starts_lit :: "directive list \<Rightarrow> bool" where
  "starts_lit (Lit _ # _) = True"
| "starts_lit _ = False"

text \<open>
  The lists that can be read back: no percent sign in literal text, two literal texts are never
  neighbours, the letters of a directive are not continued by the text behind it, and the text
  between braces is not empty and has no closing brace behind its first character.
\<close>

fun separable :: "directive list \<Rightarrow> bool" where
  "separable [] = True"
| "separable (Lit s # ds) \<longleftrightarrow>
     s \<noteq> [] \<and> CHR ''%'' \<notin> set s \<and> \<not> starts_lit ds \<and> separable ds"
| "separable (Plain n # ds) \<longleftrightarrow>
     n \<noteq> [] \<and> list_all isalpha n
     \<and> (case render ds of [] \<Rightarrow> True | c # _ \<Rightarrow> \<not> isalpha c \<and> c \<noteq> CHR ''{'') \<and> separable ds"
| "separable (Braced n f # ds) \<longleftrightarrow>
     list_all isalpha n \<and> f \<noteq> [] \<and> CHR ''}'' \<notin> set (tl f) \<and> separable ds"

lemma scan_rest_text: "CHR ''%'' \<notin> set s \<Longrightarrow> scan_rest (s @ r) nstr = scan_rest r (nstr @ s)"
  by (induction s arbitrary: nstr) (auto simp: scan_rest_steps)

lemma takeWhile_letters:
  assumes "list_all isalpha n" and "case r of [] \<Rightarrow> True | c # _ \<Rightarrow> \<not> isalpha c"
  shows "takeWhile isalpha (n @ r) = n" and "dropWhile isalpha (n @ r) = r"
  using assms by (induction n) (auto split: list.splits)

lemma read_directive_plain:
  assumes "n \<noteq> []" and "list_all isalpha n"
    and "case r of [] \<Rightarrow> True | c # _ \<Rightarrow> \<not> isalpha c \<and> c \<noteq> CHR ''{''"
  shows "read_directive (n @ r) = Some (n, [], r)"
proof -
  have "case r of [] \<Rightarrow> True | c # _ \<Rightarrow> \<not> isalpha c"
    using assms(3) by (simp split: list.splits)
  note tw = takeWhile_letters [OF assms(2) this]
  show ?thesis
    using assms(1,3) unfolding read_directive_def tw by (cases r) simp_all
qed

lemma read_directive_braced:
  assumes "list_all isalpha n" and "f \<noteq> []" and "CHR ''}'' \<notin> set (tl f)"
  shows "read_directive (n @ CHR ''{'' # f @ CHR ''}'' # r) = Some (n, f, r)"
proof -
  obtain d u where f: "f = d # u" using assms(2) by (cases f) auto
  have tw: "takeWhile not_close (u @ CHR ''}'' # r) = u" "dropWhile not_close (u @ CHR ''}'' # r) = CHR ''}'' # r"
    using assms(3) f by (auto simp: takeWhile_append dropWhile_append)
  have "case CHR ''{'' # f @ CHR ''}'' # r of [] \<Rightarrow> True | c # _ \<Rightarrow> \<not> isalpha c" by simp
  note letters = takeWhile_letters [OF assms(1) this]
  show ?thesis unfolding read_directive_def letters by (simp add: f tw)
qed

lemma scan_rest_render:
  "separable ds \<Longrightarrow> nstr = [] \<or> \<not> starts_lit ds \<Longrightarrow>
     scan_rest (render ds) nstr = (flush nstr @ map directive_tuple ds, False)"
proof (induction ds arbitrary: nstr)
  case Nil
  then show ?case by (simp add: scan_rest_steps)
next
  case (Cons d ds)
  show ?case
  proof (cases d)
    case (Lit s)
    with Cons.prems have "nstr = []" by auto
    with Lit Cons show ?thesis by (simp add: scan_rest_text)
  next
    case (Plain n)
    with Cons.prems have r: "read_directive (n @ render ds) = Some (n, [], render ds)"
      by (intro read_directive_plain) auto
    have "hd (n @ render ds) \<noteq> CHR ''%''"
      using Plain Cons.prems by (cases n) auto
    with r Plain Cons show ?thesis by (simp add: scan_rest_steps)
  next
    case (Braced n f)
    with Cons.prems have r: "read_directive (n @ CHR ''{'' # f @ CHR ''}'' # render ds) =
        Some (n, f, render ds)"
      by (intro read_directive_braced) auto
    have "hd (n @ CHR ''{'' # f @ CHR ''}'' # render ds) \<noteq> CHR ''%''"
      using Braced Cons.prems by (cases n) auto
    with r Braced Cons show ?thesis by (simp add: scan_rest_steps)
  qed
qed

text \<open>C11. Reading back a printed pattern: for every separable list of directives, the formatter
  built from its text has exactly the items of the list, in order, and it is in error exactly
  when some directive's letters are not in the table.\<close>

theorem pattern_roundtrip:
  assumes "separable ds"
  shows "m_items (LogFormatter (render ds)) = map (tuple_item \<circ> directive_tuple) ds
    \<and> (m_error (LogFormatter (render ds)) \<longleftrightarrow> (\<exists>d \<in> set ds. bad_tuple (directive_tuple d)))"
  using scan_rest_render [OF assms, of "[]"] by (simp add: LogFormatter_scan)

theorem pattern_roundtrip_witness:
  "m_items (LogFormatter ''%d{%H:%M} [%p]%n'') =
     [DateTimeFormatItem ''%H:%M'', StringFormatItem '' ['', LevelFormatItem, StringFormatItem '']'',
      NewLineFormatItem] \<and> \<not> m_error (LogFormatter ''%d{%H:%M} [%p]%n'')"
proof -
  let ?ds = "[Braced ''d'' ''%H:%M'', Lit '' ['', Plain ''p'', Lit '']'', Plain ''n'']"
  have "separable ?ds" by (simp add: isalpha_def)
  from pattern_roundtrip [OF this] show ?thesis
    by (simp add: s_format_items_def new_DateTimeFormatItem_def known_def)
qed

section \<open>The escaped percent sign\<close>

text \<open>The pair of percent signs writes one percent sign but consumes only the first of the two
  characters: what follows is read as a directive that begins at the second one. So whatever
  letters come after the pair, the formatter has the literal percent sign and then the items of the
  pattern that begins with a single percent sign, and it is in error exactly when that one is.\<close>

theorem percent_pair_consumes_one:
  assumes "read_directive s \<noteq> None" and "s = [] \<or> hd s \<noteq> CHR ''%''"
  shows "m_items (LogFormatter (CHR ''%'' # CHR ''%'' # s)) =
      StringFormatItem ''%'' # m_items (LogFormatter (CHR ''%'' # s))
    \<and> m_error (LogFormatter (CHR ''%'' # CHR ''%'' # s)) = m_error (LogFormatter (CHR ''%'' # s))"
proof -
  obtain n f rest where "read_directive s = Some (n, f, rest)"
    using assms(1) by (cases "read_directive s") auto
  with assms(2) show ?thesis
    by (simp add: LogFormatter_scan scan_rest_steps case_prod_beta)
qed

theorem percent_pair_consumes_one_witness:
  "m_items (LogFormatter ''%%m'') = [StringFormatItem ''%'', MessageFormatItem]"
proof -
  have r: "read_directive ''m'' = Some (''m'', [], [])"
    using read_directive_plain [of "''m''" "[]"] by (simp add: isalpha_def)
  have "m_items (LogFormatter ''%%m'') = StringFormatItem ''%'' # m_items (LogFormatter ''%m'')"
    using percent_pair_consumes_one [of "''m''"] r by simp
  also have "m_items (LogFormatter ''%m'') = [MessageFormatItem]"
    by (simp add: LogFormatter_scan scan_rest_steps r s_format_items_def)
  finally show ?thesis .
qed

lemma scan_rest_last_percent:
  "r \<noteq> [] \<Longrightarrow> last r = CHR ''%'' \<Longrightarrow> snd (scan_rest r nstr)"
proof (induction r nstr rule: scan_rest_induct)
  case (dir r nstr n f rest w)
  then have "rest \<noteq> []" "last rest = CHR ''%''" by (auto simp: last_append split: if_splits)
  with dir show ?case by (simp add: scan_rest_steps case_prod_beta)
qed (auto simp: scan_rest_steps case_prod_beta split: if_splits)

text \<open>A pattern whose last character is a percent sign is always refused: the formatter is in
  error. In particular no text can end in an escaped percent sign.\<close>

theorem trailing_percent_is_error:
  assumes "pat \<noteq> []" and "last pat = CHR ''%''"
  shows "m_error (LogFormatter pat)"
  using scan_rest_error_tuple [OF scan_rest_last_percent [OF assms, of "[]"]]
  by (simp add: LogFormatter_scan)

theorem trailing_percent_is_error_witness: "m_error (LogFormatter ''load: 95%%'')"
  by (rule trailing_percent_is_error) simp_all

section \<open>The number of items\<close>

lemma scan_rest_length:
  "length (fst (scan_rest r nstr)) \<le> length r + (if nstr = [] then 0 else 1)"
proof (induction r nstr rule: scan_rest_induct)
  case (dir r nstr n f rest w)
  then have "length rest < length r" by simp
  with dir show ?case by (simp add: scan_rest_steps case_prod_beta)
qed (auto simp: scan_rest_steps case_prod_beta)

section \<open>Every character of the pattern is in one item\<close>

text \<open>The text of a pattern that a tuple of the scanner stands for, and the part of it that is literal.\<close>

fun tuple_text :: "fmt_tuple \<Rightarrow> string" where
  "tuple_text (str, fmt, ty) =
     (if ty = 0 then str else CHR ''%'' # str @ (if fmt = [] then [] else CHR ''{'' # fmt @ ''}''))"

fun tuple_literal :: "fmt_tuple \<Rightarrow> string" where
  "tuple_literal (str, fmt, ty) = (if ty = 0 then str else [])"

lemma read_directive_text:
  "read_directive r = Some (n, f, rest) \<Longrightarrow>
     r = n @ (if f = [] then [] else CHR ''{'' # f @ ''}'') @ rest \<and> (n \<noteq> [] \<or> f \<noteq> [])"
proof (cases r rule: read_directive_cases)
  case letters
  assume "read_directive r = Some (n, f, rest)"
  with letters show ?thesis by (auto simp: read_directive_Nil split: if_splits)
next
  case brace_end
  assume "read_directive r = Some (n, f, rest)"
  with brace_end show ?thesis by (simp add: read_directive_brace_end)
next
  case (brace d u)
  assume rd: "read_directive r = Some (n, f, rest)"
  then obtain x where x: "dropWhile not_close u = x # rest" "n = takeWhile isalpha r" "f = d # takeWhile not_close u"
    by (auto simp: read_directive_brace [OF brace] split: list.splits)
  then have "x = CHR ''}''" by (auto simp: dropWhile_eq_Cons_conv)
  with x(1) have "u = takeWhile not_close u @ [CHR ''}''] @ rest"
    by (metis append_Cons append_Nil takeWhile_dropWhile_id)
  moreover have "r = takeWhile isalpha r @ CHR ''{'' # d # u"
    using brace by (metis takeWhile_dropWhile_id)
  ultimately show ?thesis using x(2,3) by simp
next
  case (other c t)
  assume "read_directive r = Some (n, f, rest)"
  with other have "n = takeWhile isalpha r" "n \<noteq> []" "f = []" "rest = dropWhile isalpha r"
    by (auto simp: read_directive_other split: if_splits)
  then show ?thesis by simp
qed

text \<open>What the scanner reads of a pattern, if it finds no error, is the whole pattern.\<close>

lemma scan_rest_complete:
  "scan_rest r nstr = (ts, False) \<Longrightarrow> concat (map tuple_text ts) = nstr @ r
     \<and> length (concat (map tuple_literal ts)) + 2 * length (filter (\<lambda>(_, _, ty). ty \<noteq> 0) ts) \<le> length nstr + length r"
proof (induction r nstr arbitrary: ts rule: scan_rest_induct)
  case (dir r nstr n f rest w)
  obtain us where us: "scan_rest rest [] = (us, False)" "ts = flush nstr @ (n, f, 1) # us"
    using dir.prems by (auto simp: scan_rest_steps(4) [OF dir(1,2)] split: prod.splits)
  with dir.IH [OF us(1)] read_directive_text [OF dir(2)] show ?case by (cases n) (auto simp: Suc_le_eq)
next
  case (bad r nstr)
  then show ?case by (simp add: scan_rest_steps(5) split: prod.splits)
qed (auto simp: scan_rest_steps)



section \<open>The scanner against its reference\<close>

text \<open>C28. From every index and with every pending literal and every vector, the scanner, which walks over
  the pattern with three indices and a status, appends the items that the recursive reference reads from
  the rest of the pattern, and it sets the error flag exactly when the reference does; so it also comes
  to its end on every pattern.\<close>

theorem scanner_equals_reference:
  "init_loop pat i nstr vec err = (case scan_rest (drop i pat) nstr of (ts, e) \<Rightarrow> (vec @ ts, err \<or> e))"
  by (rule init_loop_scan_rest)

end
