(* ===== verification/Logger.thy ===== *)
theory Logger
  imports Log_Pattern
begin

text \<open>
  \<open>Logger\<close>, \<open>LogAppender\<close> with its two subclasses, and \<open>LogManager\<close> of \<open>mocker/log.h\<close> and
  \<open>mocker/log.cpp\<close>. Loggers and appenders are shared objects, so they live in a store and are
  named by addresses; formatters do not change after construction and are values. The store also
  holds what the program has written to \<open>std::cout\<close> and to files.
\<close>

section \<open>State\<close>

type_synonym ref = nat

datatype appender_kind = StdoutLogAppender | FileLogAppender

text \<open>\<open>std::ofstream\<close>: the name of the open file, and whether \<open>failbit\<close> or \<open>badbit\<close> is set.\<close>

record fstream =
  fs_open :: "string option"
  fs_fail :: bool

record appender =
  ap_kind :: appender_kind
  ap_level :: level
  ap_hasFormatter :: bool
  ap_formatter :: "formatter option"
  ap_filename :: string
  ap_filestream :: fstream
  ap_lastTime :: "64 word"

record logger =
  lg_name :: string
  lg_level :: level
  lg_appenders :: "ref list"
  lg_formatter :: "formatter option"
  lg_root :: "ref option"

text \<open>
  \<open>w_next\<close> is the next unused address; \<open>w_registry\<close> and \<open>w_root\<close> are \<open>m_loggers\<close> and \<open>m_root\<close>
  of the \<open>LogManager\<close>.
\<close>

record log_world =
  w_appenders :: "ref \<Rightarrow> appender option"
  w_loggers :: "ref \<Rightarrow> logger option"
  w_next :: ref
  w_registry :: "(string, ref) smap"
  w_root :: ref
  w_cout :: string
  w_files :: "string \<Rightarrow> string"

text \<open>
  What the C library and the file system answer at the moment of a call: \<open>strftime\<close> on the local
  time, \<open>time(nullptr)\<close>, whether a file can be opened for appending and whether a write succeeds.
  \<open>reopen\<close> reads the clock itself, which may then be in another second, or on another day, than when
  \<open>log\<close> read it.
\<close>

record log_env =
  strftime :: "string \<Rightarrow> 64 word \<Rightarrow> string"
  now :: "64 word"
  reopen_time :: "64 word"
  openable :: "string \<Rightarrow> bool"
  writable :: "string \<Rightarrow> bool"

definition the_appender :: "log_world \<Rightarrow> ref \<Rightarrow> appender" where
  "the_appender w a = the (w_appenders w a)"

definition the_logger :: "log_world \<Rightarrow> ref \<Rightarrow> logger" where
  "the_logger w l = the (w_loggers w l)"

definition put_appender :: "ref \<Rightarrow> appender \<Rightarrow> log_world \<Rightarrow> log_world" where
  "put_appender a x w = w\<lparr>w_appenders := (w_appenders w)(a \<mapsto> x)\<rparr>"

definition put_logger :: "ref \<Rightarrow> logger \<Rightarrow> log_world \<Rightarrow> log_world" where
  "put_logger l x w = w\<lparr>w_loggers := (w_loggers w)(l \<mapsto> x)\<rparr>"

definition cout :: "string \<Rightarrow> log_world \<Rightarrow> log_world" where
  "cout s w = w\<lparr>w_cout := w_cout w @ s\<rparr>"

section \<open>Appenders\<close>

text \<open>
  \<open>ofstream::close\<close> fails when no file is open; \<open>open\<close> fails when one is, and otherwise clears
  the error bits if the file can be opened.
\<close>

definition fs_close :: "fstream \<Rightarrow> fstream" where
  "fs_close f = (if fs_open f = None then f\<lparr>fs_fail := True\<rparr> else f\<lparr>fs_open := None\<rparr>)"

definition fs_do_open :: "log_env \<Rightarrow> string \<Rightarrow> fstream \<Rightarrow> fstream" where
  "fs_do_open env name f =
     (if fs_open f = None \<and> openable env name then \<lparr>fs_open = Some name, fs_fail = False\<rparr>
      else f\<lparr>fs_fail := True\<rparr>)"

definition dated :: "log_env \<Rightarrow> string \<Rightarrow> string" where
  "dated env filename = filename @ strftime env ''.%Y-%m-%d'' (reopen_time env)"

text \<open>\<open>FileLogAppender::reopen\<close>, on the appender and with its result.\<close>

definition reopen :: "log_env \<Rightarrow> appender \<Rightarrow> appender \<times> bool" where
  "reopen env x =
     (let f = ap_filestream x;
          f1 = (if \<not> fs_fail f then fs_close f else f);
          f2 = fs_do_open env (dated env (ap_filename x)) f1
      in (x\<lparr>ap_filestream := f2\<rparr>, \<not> fs_fail f2))"

definition new_StdoutLogAppender :: "level \<Rightarrow> appender" where
  "new_StdoutLogAppender lev =
     \<lparr>ap_kind = StdoutLogAppender, ap_level = lev, ap_hasFormatter = False, ap_formatter = None,
      ap_filename = [], ap_filestream = \<lparr>fs_open = None, fs_fail = False\<rparr>, ap_lastTime = 0\<rparr>"

definition new_FileLogAppender :: "log_env \<Rightarrow> string \<Rightarrow> level \<Rightarrow> appender" where
  "new_FileLogAppender env filename lev =
     fst (reopen env
       \<lparr>ap_kind = FileLogAppender, ap_level = lev, ap_hasFormatter = False, ap_formatter = None,
        ap_filename = filename, ap_filestream = \<lparr>fs_open = None, fs_fail = False\<rparr>, ap_lastTime = 0\<rparr>)"

text \<open>\<open>std::make_shared\<close>: the object at a new address.\<close>

definition alloc_appender :: "appender \<Rightarrow> log_world \<Rightarrow> ref \<times> log_world" where
  "alloc_appender x w = (w_next w, (put_appender (w_next w) x w)\<lparr>w_next := w_next w + 1\<rparr>)"

definition alloc_logger :: "logger \<Rightarrow> log_world \<Rightarrow> ref \<times> log_world" where
  "alloc_logger x w = (w_next w, (put_logger (w_next w) x w)\<lparr>w_next := w_next w + 1\<rparr>)"

definition appender_setLevel :: "ref \<Rightarrow> level \<Rightarrow> log_world \<Rightarrow> log_world" where
  "appender_setLevel a lev w = put_appender a ((the_appender w a)\<lparr>ap_level := lev\<rparr>) w"

definition appender_getFormatter :: "log_world \<Rightarrow> ref \<Rightarrow> formatter option" where
  "appender_getFormatter w a = ap_formatter (the_appender w a)"

definition appender_setFormatter :: "ref \<Rightarrow> formatter option \<Rightarrow> log_world \<Rightarrow> log_world" where
  "appender_setFormatter a val w =
     put_appender a ((the_appender w a)\<lparr>ap_formatter := val, ap_hasFormatter := (val \<noteq> None)\<rparr>) w"

fun GetColorMap :: "level \<Rightarrow> string" where
  "GetColorMap UNKNOWN = CHR 0x1B # ''[0m''"
| "GetColorMap DEBUG = CHR 0x1B # ''[32m''"
| "GetColorMap INFO = CHR 0x1B # ''[0m''"
| "GetColorMap WARN = CHR 0x1B # ''[33m''"
| "GetColorMap ERROR = CHR 0x1B # ''[31m''"
| "GetColorMap FATAL = CHR 0x1B # ''[41m''"
| "GetColorMap REMOVED = CHR 0x1B # ''[2m''"

definition stdout_log :: "log_env \<Rightarrow> ref \<Rightarrow> level \<Rightarrow> log_event \<Rightarrow> (log_world, unit) eff" where
  "stdout_log env a lev event w =
     (let x = the_appender w a in
      if lev \<ge> ap_level x then
        (case ap_formatter x of
           None \<Rightarrow> (Inl (Null_pointer ''m_formatter''), w)
         | Some f \<Rightarrow>
             (Inr (), cout (GetColorMap lev @ formatter_format (strftime env) f lev event
                             @ CHR 0x1B # ''[0m'') w))
      else (Inr (), w))"

text \<open>
  Writing to the stream: nothing happens when an error bit is set; a failed write sets one.
\<close>

definition stream_write :: "log_env \<Rightarrow> ref \<Rightarrow> string \<Rightarrow> log_world \<Rightarrow> log_world" where
  "stream_write env a str w =
     (let x = the_appender w a; f = ap_filestream x in
      if fs_fail f then w
      else
        (case fs_open f of
           None \<Rightarrow> put_appender a (x\<lparr>ap_filestream := f\<lparr>fs_fail := True\<rparr>\<rparr>) w
         | Some name \<Rightarrow>
             if writable env name then w\<lparr>w_files := (w_files w)(name := w_files w name @ str)\<rparr>
             else put_appender a (x\<lparr>ap_filestream := f\<lparr>fs_fail := True\<rparr>\<rparr>) w))"

text \<open>The file is opened again at the first record of every second.\<close>

definition refresh :: "log_env \<Rightarrow> appender \<Rightarrow> appender" where
  "refresh env x =
     (if now env \<noteq> ap_lastTime x then (fst (reopen env x))\<lparr>ap_lastTime := now env\<rparr> else x)"

definition file_log :: "log_env \<Rightarrow> ref \<Rightarrow> level \<Rightarrow> log_event \<Rightarrow> (log_world, unit) eff" where
  "file_log env a lev event w =
     (let x = the_appender w a in
      if lev \<ge> ap_level x then
        (let w1 = put_appender a (refresh env x) w in
         case ap_formatter x of
           None \<Rightarrow> (Inl (Null_pointer ''m_formatter''), w1)
         | Some f \<Rightarrow> (Inr (), stream_write env a (formatter_format (strftime env) f lev event) w1))
      else (Inr (), w))"

definition appender_log :: "log_env \<Rightarrow> ref \<Rightarrow> level \<Rightarrow> log_event \<Rightarrow> (log_world, unit) eff" where
  "appender_log env a lev event w =
     (case ap_kind (the_appender w a) of
        StdoutLogAppender \<Rightarrow> stdout_log env a lev event w
      | FileLogAppender \<Rightarrow> file_log env a lev event w)"

section \<open>Loggers\<close>

definition default_pattern :: string where
  "default_pattern = ''%d{%Y-%m-%d %H:%M:%S}%T%t%T%N%T%F%T[%p]%T[%c]%T%f:%l%T%m%n''"

definition new_Logger :: "string \<Rightarrow> logger" where
  "new_Logger name =
     \<lparr>lg_name = name, lg_level = DEBUG, lg_appenders = [],
      lg_formatter = Some (LogFormatter default_pattern), lg_root = None\<rparr>"

text \<open>
  \<open>Logger::log\<close>. A logger without appenders hands the record to its \<open>m_root\<close>; the recursion
  follows \<open>m_root\<close> and is bounded by \<open>n\<close>, with \<open>None\<close> when the bound is reached. Two calls are
  enough in every state the program builds.
\<close>

fun logger_log :: "nat \<Rightarrow> log_env \<Rightarrow> ref \<Rightarrow> level \<Rightarrow> log_event \<Rightarrow> log_world
    \<Rightarrow> (unit outcome \<times> log_world) option" where
  "logger_log 0 env l lev event w = None"
| "logger_log (Suc n) env l lev event w =
     (let x = the_logger w l in
      if lev \<ge> lg_level x then
        if lg_appenders x \<noteq> [] then Some (efor (\<lambda>a. appender_log env a lev event) (lg_appenders x) w)
        else
          (case lg_root x of
             None \<Rightarrow> Some (Inr (), w)
           | Some r \<Rightarrow> logger_log n env r lev event w)
      else Some (Inr (), w))"

definition log :: "log_env \<Rightarrow> ref \<Rightarrow> level \<Rightarrow> log_event \<Rightarrow> (log_world, unit) eff" where
  "log env l lev event w = the (logger_log 2 env l lev event w)"

definition debug :: "log_env \<Rightarrow> ref \<Rightarrow> log_event \<Rightarrow> (log_world, unit) eff" where
  "debug env l = log env l DEBUG"

definition info :: "log_env \<Rightarrow> ref \<Rightarrow> log_event \<Rightarrow> (log_world, unit) eff" where
  "info env l = log env l INFO"

definition warn :: "log_env \<Rightarrow> ref \<Rightarrow> log_event \<Rightarrow> (log_world, unit) eff" where
  "warn env l = log env l WARN"

definition error :: "log_env \<Rightarrow> ref \<Rightarrow> log_event \<Rightarrow> (log_world, unit) eff" where
  "error env l = log env l ERROR"

definition fatal :: "log_env \<Rightarrow> ref \<Rightarrow> log_event \<Rightarrow> (log_world, unit) eff" where
  "fatal env l = log env l FATAL"

definition logger_setLevel :: "ref \<Rightarrow> level \<Rightarrow> log_world \<Rightarrow> log_world" where
  "logger_setLevel l lev w = put_logger l ((the_logger w l)\<lparr>lg_level := lev\<rparr>) w"

text \<open>
  \<open>addAppender\<close>: an appender without a formatter gets the logger's, but does not count as having
  one of its own. The argument is the pointer, \<open>None\<close> for a null one.
\<close>

definition addAppender :: "ref \<Rightarrow> ref option \<Rightarrow> (log_world, unit) eff" where
  "addAppender l ap w =
     (case ap of
        None \<Rightarrow> (Inl (Null_pointer ''appender''), w)
      | Some a \<Rightarrow>
          (let x = the_logger w l;
               w1 = (if appender_getFormatter w a = None
                     then put_appender a ((the_appender w a)\<lparr>ap_formatter := lg_formatter x\<rparr>) w
                     else w)
           in (Inr (), put_logger l (x\<lparr>lg_appenders := lg_appenders x @ [a]\<rparr>) w1)))"

text \<open>The first occurrence is erased.\<close>

definition delAppender :: "ref \<Rightarrow> ref \<Rightarrow> log_world \<Rightarrow> log_world" where
  "delAppender l a w =
     (let x = the_logger w l in put_logger l (x\<lparr>lg_appenders := remove1 a (lg_appenders x)\<rparr>) w)"

definition clearAppender :: "ref \<Rightarrow> log_world \<Rightarrow> log_world" where
  "clearAppender l w = put_logger l ((the_logger w l)\<lparr>lg_appenders := []\<rparr>) w"

text \<open>\<open>setFormatter(LogFormatter::ptr)\<close> and its loop over the appenders.\<close>

definition inherit :: "formatter option \<Rightarrow> ref \<Rightarrow> log_world \<Rightarrow> log_world" where
  "inherit f a w =
     (if \<not> ap_hasFormatter (the_appender w a) then put_appender a ((the_appender w a)\<lparr>ap_formatter := f\<rparr>) w
      else w)"

definition setFormatter :: "ref \<Rightarrow> formatter option \<Rightarrow> log_world \<Rightarrow> log_world" where
  "setFormatter l val w =
     (let x = the_logger w l
      in fold (inherit val) (lg_appenders x) (put_logger l (x\<lparr>lg_formatter := val\<rparr>) w))"

text \<open>\<open>setFormatter(const std::string&)\<close>: a pattern with an error is reported and not used.\<close>

definition setFormatter_string :: "ref \<Rightarrow> string \<Rightarrow> log_world \<Rightarrow> log_world" where
  "setFormatter_string l val w =
     (let new_val = LogFormatter val in
      if formatter.m_error new_val then
        cout (CHR 0x1B # ''[31m[MOCKER ERROR] Logger setFormatter name='' @ lg_name (the_logger w l)
                @ '' value='' @ val @ ''invalid formatter'' @ CHR 0x1B # ''[0m'' @ [CHR 0x0A]) w
      else setFormatter l (Some new_val) w)"

definition getFormatter :: "log_world \<Rightarrow> ref \<Rightarrow> formatter option" where
  "getFormatter w l = lg_formatter (the_logger w l)"

section \<open>The manager\<close>

text \<open>
  \<open>LogManager::LogManager()\<close> on the empty store: the logger \<open>root\<close> at address 0 with one standard
  output appender, at address 1, of the root logger's level.
\<close>

definition empty_log_world :: log_world where
  "empty_log_world =
     \<lparr>w_appenders = (\<lambda>_. None), w_loggers = (\<lambda>_. None), w_next = 0, w_registry = [], w_root = 0,
      w_cout = [], w_files = (\<lambda>_. [])\<rparr>"

definition LogManager :: "(log_world, unit) eff" where
  "LogManager w =
     (case alloc_logger (new_Logger ''root'') w of (root, w1) \<Rightarrow>
        (case alloc_appender (new_StdoutLogAppender (lg_level (the_logger w1 root))) w1 of (a, w2) \<Rightarrow>
           ebind (addAppender root (Some a))
             (\<lambda>_. emodify (\<lambda>w3. w3\<lparr>w_registry := smap_put (lg_name (the_logger w3 root)) root (w_registry w3),
                                w_root := root\<rparr>)) w2))"

definition getLogger :: "string \<Rightarrow> log_world \<Rightarrow> ref \<times> log_world" where
  "getLogger name w =
     (case map_of (w_registry w) name of
        Some l \<Rightarrow> (l, w)
      | None \<Rightarrow>
          (case alloc_logger ((new_Logger name)\<lparr>lg_root := Some (w_root w)\<rparr>) w of (l, w1) \<Rightarrow>
             (l, w1\<lparr>w_registry := smap_put name l (w_registry w1)\<rparr>)))"

end
