(* ===== verification/Logger_Delivery.thy ===== *)
theory Logger_Delivery
  imports Logger
begin

text \<open>
  What a log call does: the appenders' contract (a locale, interpreted on the appenders of the
  code), which appenders a record reaches, and what is written. Then the file appender: when it
  opens its file and what a failed write does to it.
\<close>

section \<open>Rewriting\<close>

lemma put_frame [simp]:
  "the_appender (put_appender a x w) b = (if b = a then x else the_appender w b)"
  "the_logger (put_appender a x w) l = the_logger w l"
  "the_logger (put_logger k y w) l = (if l = k then y else the_logger w l)"
  "the_appender (put_logger k y w) a = the_appender w a"
  "w_loggers (put_appender a x w) = w_loggers w" "w_appenders (put_logger k y w) = w_appenders w"
  "w_appenders (put_appender a x w) = (w_appenders w)(a \<mapsto> x)"
  "w_loggers (put_logger k y w) = (w_loggers w)(k \<mapsto> y)"
  "w_next (put_appender a x w) = w_next w" "w_next (put_logger k y w) = w_next w"
  "w_registry (put_appender a x w) = w_registry w" "w_registry (put_logger k y w) = w_registry w"
  "w_root (put_appender a x w) = w_root w" "w_root (put_logger k y w) = w_root w"
  "w_cout (put_appender a x w) = w_cout w" "w_cout (put_logger k y w) = w_cout w"
  "w_files (put_appender a x w) = w_files w" "w_files (put_logger k y w) = w_files w"
  by (simp_all add: put_appender_def put_logger_def the_appender_def the_logger_def)

lemma cout_frame [simp]:
  "the_appender (cout s w) a = the_appender w a" "the_logger (cout s w) l = the_logger w l"
  "w_loggers (cout s w) = w_loggers w" "w_appenders (cout s w) = w_appenders w"
  "w_next (cout s w) = w_next w" "w_registry (cout s w) = w_registry w" "w_root (cout s w) = w_root w"
  "w_cout (cout s w) = w_cout w @ s" "w_files (cout s w) = w_files w"
  by (simp_all add: cout_def the_appender_def the_logger_def)

lemma files_frame [simp]:
  "the_appender (w\<lparr>w_files := f\<rparr>) a = the_appender w a" "the_logger (w\<lparr>w_files := f\<rparr>) l = the_logger w l"
  by (simp_all add: the_appender_def the_logger_def)

lemma reopen_frame [simp]:
  "ap_kind (fst (reopen env x)) = ap_kind x" "ap_level (fst (reopen env x)) = ap_level x"
  "ap_hasFormatter (fst (reopen env x)) = ap_hasFormatter x"
  "ap_formatter (fst (reopen env x)) = ap_formatter x"
  "ap_filename (fst (reopen env x)) = ap_filename x"
  by (simp_all add: reopen_def Let_def)

lemma refresh_frame [simp]:
  "ap_kind (refresh env x) = ap_kind x" "ap_level (refresh env x) = ap_level x"
  "ap_hasFormatter (refresh env x) = ap_hasFormatter x" "ap_formatter (refresh env x) = ap_formatter x"
  "ap_filename (refresh env x) = ap_filename x"
  by (simp_all add: refresh_def)

text \<open>
  A log call leaves the loggers, the registry and the settings of every appender alone; it may
  change streams, files and the standard output.
\<close>

definition settings :: "log_world \<Rightarrow> ref \<Rightarrow> appender_kind \<times> level \<times> bool \<times> formatter option \<times> string" where
  "settings w a = (let x = the_appender w a in
     (ap_kind x, ap_level x, ap_hasFormatter x, ap_formatter x, ap_filename x))"

definition same_setup :: "log_world \<Rightarrow> log_world \<Rightarrow> bool" where
  "same_setup w w' \<longleftrightarrow> w_loggers w' = w_loggers w \<and> w_registry w' = w_registry w \<and> w_root w' = w_root w
     \<and> w_next w' = w_next w \<and> (\<forall>a. settings w' a = settings w a)
     \<and> dom (w_appenders w') = dom (w_appenders w)"

lemma same_setup_refl [simp]: "same_setup w w"
  by (simp add: same_setup_def)

lemma same_setup_trans: "same_setup w1 w2 \<Longrightarrow> same_setup w2 w3 \<Longrightarrow> same_setup w1 w3"
  by (simp add: same_setup_def)

lemma same_setup_formatter: "same_setup w w' \<Longrightarrow> ap_formatter (the_appender w' a) = ap_formatter (the_appender w a)"
  by (simp add: same_setup_def settings_def Let_def)

lemma same_setup_logger: "same_setup w w' \<Longrightarrow> the_logger w' l = the_logger w l"
  by (simp add: same_setup_def the_logger_def)

lemma settings_put_stream:
  "ap_kind x = ap_kind (the_appender w a) \<Longrightarrow> ap_level x = ap_level (the_appender w a) \<Longrightarrow>
   ap_hasFormatter x = ap_hasFormatter (the_appender w a) \<Longrightarrow> ap_formatter x = ap_formatter (the_appender w a) \<Longrightarrow>
   ap_filename x = ap_filename (the_appender w a) \<Longrightarrow> w_appenders w a \<noteq> None \<Longrightarrow>
     same_setup w (put_appender a x w)"
  by (auto simp: same_setup_def settings_def Let_def)

lemma same_setup_stream_write:
  "w_appenders w a \<noteq> None \<Longrightarrow> same_setup w (stream_write env a s w)"
  by (auto simp: stream_write_def Let_def settings_put_stream split: option.splits)
    (simp add: same_setup_def settings_def)

lemma stream_write_cout [simp]: "w_cout (stream_write env a s w) = w_cout w"
  by (simp add: stream_write_def Let_def split: option.split)

section \<open>The contract of an appender\<close>

text \<open>
  What \<open>Logger::log\<close> relies on: an appender that is \<open>ready\<close> takes the record without failing, it
  changes no settings, and it appends a text that depends only on the settings to the standard
  output.
\<close>

locale log_sink =
  fixes sink :: "ref \<Rightarrow> level \<Rightarrow> log_event \<Rightarrow> (log_world, unit) eff"
    and ready :: "log_world \<Rightarrow> ref \<Rightarrow> bool"
    and shown :: "log_world \<Rightarrow> level \<Rightarrow> log_event \<Rightarrow> ref \<Rightarrow> string"
  assumes sink_ready: "ready w a \<Longrightarrow> \<exists>w'. sink a lev ev w = (Inr (), w')"
    and sink_setup: "ready w a \<Longrightarrow> sink a lev ev w = (r, w') \<Longrightarrow> same_setup w w'"
    and sink_shown: "ready w a \<Longrightarrow> sink a lev ev w = (Inr (), w') \<Longrightarrow> w_cout w' = w_cout w @ shown w lev ev a"
    and ready_setup: "same_setup w w' \<Longrightarrow> ready w a \<Longrightarrow> ready w' a"
    and shown_setup: "same_setup w w' \<Longrightarrow> shown w' lev ev a = shown w lev ev a"
begin

lemma deliver_all:
  "\<forall>a \<in> set as. ready w a \<Longrightarrow> \<exists>w'. efor (\<lambda>a. sink a lev ev) as w = (Inr (), w')
     \<and> same_setup w w' \<and> w_cout w' = w_cout w @ concat (map (shown w lev ev) as)"
proof (induction as arbitrary: w)
  case Nil
  then show ?case by simp
next
  case (Cons a as)
  then have a: "ready w a" by simp
  obtain w1 where w1: "sink a lev ev w = (Inr (), w1)" using sink_ready [OF a] by blast
  have same: "same_setup w w1" by (rule sink_setup [OF a w1])
  have "\<forall>b \<in> set as. ready w1 b" using Cons.prems ready_setup [OF same] by auto
  from Cons.IH [OF this] obtain w' where w': "efor (\<lambda>a. sink a lev ev) as w1 = (Inr (), w')"
    "same_setup w1 w'" "w_cout w' = w_cout w1 @ concat (map (shown w1 lev ev) as)" by blast
  have "w_cout w1 = w_cout w @ shown w lev ev a" by (rule sink_shown [OF a w1])
  moreover have "shown w1 lev ev = shown w lev ev" by (rule ext) (rule shown_setup [OF same])
  ultimately show ?case using w1 w' same_setup_trans [OF same w'(2)] by simp
qed

end

text \<open>The appenders of the code: they are ready when they exist and have a formatter.\<close>

definition has_formatter :: "log_world \<Rightarrow> ref \<Rightarrow> bool" where
  "has_formatter w a \<longleftrightarrow> w_appenders w a \<noteq> None \<and> ap_formatter (the_appender w a) \<noteq> None"

text \<open>What an appender shows on the standard output.\<close>

definition stdout_text :: "log_env \<Rightarrow> log_world \<Rightarrow> level \<Rightarrow> log_event \<Rightarrow> ref \<Rightarrow> string" where
  "stdout_text env w lev ev a =
     (let x = the_appender w a in
      if ap_kind x = StdoutLogAppender \<and> lev \<ge> ap_level x
      then GetColorMap lev @ formatter_format (strftime env) (the (ap_formatter x)) lev ev @ CHR 0x1B # ''[0m''
      else [])"

lemma file_log_spec:
  assumes "has_formatter w a"
  shows "\<exists>w'. file_log env a lev ev w = (Inr (), w') \<and> same_setup w w' \<and> w_cout w' = w_cout w"
proof -
  let ?w1 = "put_appender a (refresh env (the_appender w a)) w"
  have "same_setup w ?w1" using assms by (intro settings_put_stream) (simp_all add: has_formatter_def)
  moreover have "same_setup ?w1 (stream_write env a s ?w1)" for s
    by (rule same_setup_stream_write) simp
  ultimately have "same_setup w (stream_write env a s ?w1)" for s
    by (rule same_setup_trans)
  then show ?thesis using assms by (auto simp: file_log_def Let_def has_formatter_def)
qed

lemma appender_log_spec:
  assumes "has_formatter w a"
  shows "\<exists>w'. appender_log env a lev ev w = (Inr (), w') \<and> same_setup w w'
    \<and> w_cout w' = w_cout w @ stdout_text env w lev ev a"
proof (cases "ap_kind (the_appender w a)")
  case FileLogAppender
  with file_log_spec [OF assms] show ?thesis by (simp add: appender_log_def stdout_text_def Let_def)
next
  case StdoutLogAppender
  with assms show ?thesis
    by (auto simp: appender_log_def stdout_log_def stdout_text_def has_formatter_def Let_def
        same_setup_def settings_def)
qed

lemma has_formatter_setup: "same_setup w w' \<Longrightarrow> has_formatter w a \<Longrightarrow> has_formatter w' a"
  using same_setup_formatter [of w w' a] by (auto simp: has_formatter_def same_setup_def dom_def)

lemma stdout_text_setup: "same_setup w w' \<Longrightarrow> stdout_text env w' lev ev a = stdout_text env w lev ev a"
  by (simp add: stdout_text_def same_setup_def settings_def Let_def)

interpretation appenders: log_sink "appender_log env" has_formatter "stdout_text env" for env
proof unfold_locales
  fix w a lev ev r w'
  show "\<exists>w'. appender_log env a lev ev w = (Inr (), w')" if "has_formatter w a"
    using appender_log_spec [OF that] by blast
  show "same_setup w w'" if "has_formatter w a" "appender_log env a lev ev w = (r, w')"
    using appender_log_spec [OF that(1), of env lev ev] that(2) by auto
  show "w_cout w' = w_cout w @ stdout_text env w lev ev a"
    if "has_formatter w a" "appender_log env a lev ev w = (Inr (), w')"
    using appender_log_spec [OF that(1), of env lev ev] that(2) by auto
qed (auto intro: has_formatter_setup stdout_text_setup)

section \<open>Log calls\<close>

text \<open>
  The appenders a record of level \<open>lev\<close> reaches from logger \<open>l\<close>: its own, or the ones of its
  \<open>m_root\<close> when it has none; each logger on the way applies its own level.
\<close>

definition targets :: "log_world \<Rightarrow> ref \<Rightarrow> level \<Rightarrow> ref list" where
  "targets w l lev =
     (let x = the_logger w l in
      if lev < lg_level x then []
      else if lg_appenders x \<noteq> [] then lg_appenders x
      else (case lg_root x of
              None \<Rightarrow> []
            | Some r \<Rightarrow> if lev < lg_level (the_logger w r) then [] else lg_appenders (the_logger w r)))"

text \<open>The loggers of the program: the root logger has no \<open>m_root\<close> and the others have the root.\<close>

definition rooted :: "log_world \<Rightarrow> bool" where
  "rooted w \<longleftrightarrow> w_loggers w (w_root w) \<noteq> None \<and> lg_root (the_logger w (w_root w)) = None
     \<and> (\<forall>l. w_loggers w l \<noteq> None \<longrightarrow>
          lg_root (the_logger w l) = None \<or> lg_root (the_logger w l) = Some (w_root w))"

lemma logger_log_targets:
  assumes "rooted w" and "w_loggers w l \<noteq> None"
  shows "logger_log (Suc (Suc n)) env l lev ev w =
    Some (efor (\<lambda>a. appender_log env a lev ev) (targets w l lev) w)"
proof (cases "lg_root (the_logger w l)")
  case None
  then show ?thesis by (simp add: targets_def Let_def not_le [symmetric])
next
  case (Some r)
  then have "lg_root (the_logger w r) = None" using assms by (auto simp: rooted_def)
  with Some show ?thesis by (simp add: targets_def Let_def not_le [symmetric])
qed

text \<open>The recursion of \<open>Logger::log\<close> through \<open>m_root\<close> ends after at most two calls, whatever
  bound above that is used, and a record reaches exactly the appenders of the logger, in the order
  in which they were added, or the root logger's when the logger has none; a record below the level
  of a logger on the way reaches nothing and changes nothing.\<close>

theorem log_reaches_targets:
  assumes "rooted w" and "w_loggers w l \<noteq> None" and "2 \<le> n"
  shows "logger_log n env l lev ev w = Some (log env l lev ev w)
    \<and> log env l lev ev w = efor (\<lambda>a. appender_log env a lev ev) (targets w l lev) w
    \<and> (lev < lg_level (the_logger w l) \<longrightarrow> log env l lev ev w = (Inr (), w))"
proof -
  obtain m where n: "n = Suc (Suc m)" using assms(3) by (metis Suc_le_D add_2_eq_Suc le_Suc_ex)
  have "log env l lev ev w = efor (\<lambda>a. appender_log env a lev ev) (targets w l lev) w"
    using logger_log_targets [OF assms(1,2), of 0] by (simp add: log_def numeral_2_eq_2)
  moreover have "targets w l lev = []" if "lev < lg_level (the_logger w l)"
    using that by (simp add: targets_def)
  ultimately show ?thesis using logger_log_targets [OF assms(1,2), of m] n by simp
qed

text \<open>A log call whose appenders all have formatters succeeds; it changes no logger, no level and
  no formatter, and it appends to the standard output the lines of the standard output appenders
  among the targets, in order: colour, formatted record and colour reset, for each whose own level
  lets the record pass.\<close>

theorem log_output:
  assumes "rooted w" and "w_loggers w l \<noteq> None" and "\<forall>a \<in> set (targets w l lev). has_formatter w a"
  shows "\<exists>w'. log env l lev ev w = (Inr (), w') \<and> same_setup w w'
    \<and> w_cout w' = w_cout w @ concat (map (stdout_text env w lev ev) (targets w l lev))"
proof -
  have "log env l lev ev w = efor (\<lambda>a. appender_log env a lev ev) (targets w l lev) w"
    using logger_log_targets [OF assms(1,2), of 0] by (simp add: log_def numeral_2_eq_2)
  with appenders.deliver_all [OF assms(3)] show ?thesis by simp
qed

section \<open>The file appender\<close>

text \<open>C35. The first record of a new second makes the appender open the file of the day it is when \<open>reopen\<close>
  reads the clock, and the record is appended to that file and to no other, so after midnight the next record
  goes to the new file. This is for a file appender with a formatter whose level lets the record pass, whose
  stream has no error bit set, and whose new file can be opened and written. (After a failed write nothing is
  written any more: \<open>file_error_is_final\<close>.)\<close>

theorem file_log_rotates:
  assumes "w_appenders w a = Some x" and "ap_kind x = FileLogAppender" and "ap_formatter x = Some f"
    and "ap_level x \<le> lev" and "now env \<noteq> ap_lastTime x"
    and "\<not> fs_fail (ap_filestream x)"
    and "openable env (dated env (ap_filename x))" and "writable env (dated env (ap_filename x))"
  shows "\<exists>w'. appender_log env a lev ev w = (Inr (), w')
    \<and> w_files w' = (w_files w)(dated env (ap_filename x) :=
         w_files w (dated env (ap_filename x)) @ formatter_format (strftime env) f lev ev)
    \<and> fs_open (ap_filestream (the_appender w' a)) = Some (dated env (ap_filename x))
    \<and> ap_lastTime (the_appender w' a) = now env"
proof -
  have x: "the_appender w a = x" using assms(1) by (simp add: the_appender_def)
  show ?thesis
  proof (cases "fs_open (ap_filestream x)")
    case None
    then have "fs_fail (fs_close (ap_filestream x))" "fs_open (fs_close (ap_filestream x)) = None"
      by (simp_all add: fs_close_def)
    with x assms(2-) show ?thesis
      by (simp add: appender_log_def file_log_def refresh_def reopen_def fs_do_open_def stream_write_def Let_def)
  next
    case (Some name)
    then have "fs_open (fs_close (ap_filestream x)) = None" by (simp add: fs_close_def)
    with x assms(2-) show ?thesis
      by (simp add: appender_log_def file_log_def refresh_def reopen_def fs_do_open_def stream_write_def Let_def)
  qed
qed

text \<open>A stream that has an error bit set while its file is open.\<close>

definition broken :: "appender \<Rightarrow> bool" where
  "broken x \<longleftrightarrow> fs_fail (ap_filestream x) \<and> fs_open (ap_filestream x) \<noteq> None"

text \<open>A failed write is final: \<open>reopen\<close> closes the stream only if it has no error, and opening a
  stream that is still open fails, so once a write has failed no later record is written, whatever
  the file system allows.\<close>

theorem file_error_is_final:
  assumes "w_appenders w a = Some x" and "ap_kind x = FileLogAppender" and "ap_formatter x = Some f"
    and "broken x"
  shows "\<exists>w'. appender_log env a lev ev w = (Inr (), w') \<and> w_files w' = w_files w
    \<and> broken (the_appender w' a)"
proof -
  have x: "the_appender w a = x" using assms(1) by (simp add: the_appender_def)
  have "broken (refresh env x)"
    using assms(4) by (auto simp: broken_def refresh_def reopen_def fs_do_open_def Let_def)
  with x assms(2-) show ?thesis
    by (auto simp: appender_log_def file_log_def stream_write_def broken_def Let_def)
qed

section \<open>What reaches the files\<close>

text \<open>What an appender adds to a file: the record, if its level lets it pass and its stream, opened again
  at the first record of a second, has no error and writes to that file.\<close>

definition file_text :: "log_env \<Rightarrow> log_world \<Rightarrow> level \<Rightarrow> log_event \<Rightarrow> string \<Rightarrow> ref \<Rightarrow> string" where
  "file_text env w lev ev fname a =
     (let x = the_appender w a; f = ap_filestream (refresh env x) in
      if ap_kind x = FileLogAppender \<and> lev \<ge> ap_level x \<and> \<not> fs_fail f \<and> fs_open f = Some fname \<and> writable env fname
      then formatter_format (strftime env) (the (ap_formatter x)) lev ev
      else [])"

lemma refresh_refresh [simp]: "refresh env (refresh env x) = refresh env x"
  by (simp add: refresh_def)

lemma refresh_failed:
  "refresh env (refresh env x\<lparr>ap_filestream := f\<rparr>) = refresh env x\<lparr>ap_filestream := f\<rparr>"
  by (simp add: refresh_def)

lemma file_log_files:
  assumes form: "has_formatter w a" and kind: "ap_kind (the_appender w a) = FileLogAppender"
    and log: "file_log env a lev ev w = (r, w')"
  shows "w_files w' fname = w_files w fname @ file_text env w lev ev fname a
    \<and> file_text env w' lev ev fname b = file_text env w lev ev fname b"
proof -
  obtain f where f: "ap_formatter (the_appender w a) = Some f" using form by (auto simp: has_formatter_def)
  show ?thesis
  proof (cases "lev \<ge> ap_level (the_appender w a)")
    case False
    with log show ?thesis by (auto simp: file_log_def file_text_def Let_def)
  next
    case True
    let ?x = "refresh env (the_appender w a)"
    have w': "w' = stream_write env a (formatter_format (strftime env) f lev ev) (put_appender a ?x w)"
      using log f True by (simp add: file_log_def Let_def)
    then show ?thesis
      using f kind True
      by (cases "fs_open (ap_filestream ?x)")
        (auto simp: stream_write_def file_text_def Let_def refresh_failed)
  qed
qed

lemma appender_log_files:
  assumes form: "has_formatter w a" and log: "appender_log env a lev ev w = (r, w')"
  shows "w_files w' fname = w_files w fname @ file_text env w lev ev fname a
    \<and> file_text env w' lev ev fname b = file_text env w lev ev fname b"
proof (cases "ap_kind (the_appender w a)")
  case StdoutLogAppender
  with form log show ?thesis
    by (auto simp: appender_log_def stdout_log_def file_text_def has_formatter_def Let_def split: if_splits)
next
  case FileLogAppender
  with file_log_files [OF form] log show ?thesis by (simp add: appender_log_def)
qed

lemma deliver_files:
  assumes "\<forall>a \<in> set as. has_formatter w a" and "efor (\<lambda>a. appender_log env a lev ev) as w = (Inr (), w')"
  shows "w_files w' fname = w_files w fname @ concat (map (file_text env w lev ev fname) as)"
  using assms
proof (induction as arbitrary: w)
  case (Cons a as)
  obtain w1 where w1: "appender_log env a lev ev w = (Inr (), w1)" "same_setup w w1"
    using appender_log_spec [of w a env lev ev] Cons.prems(1) by auto
  have "\<forall>b \<in> set as. has_formatter w1 b" using Cons.prems(1) has_formatter_setup [OF w1(2)] by simp
  moreover have "efor (\<lambda>a. appender_log env a lev ev) as w1 = (Inr (), w')" using Cons.prems(2) w1(1) by simp
  ultimately have "w_files w' fname = w_files w1 fname @ concat (map (file_text env w1 lev ev fname) as)"
    by (rule Cons.IH)
  moreover have "file_text env w1 lev ev fname = file_text env w lev ev fname"
    using appender_log_files [OF _ w1(1)] Cons.prems(1) by (intro ext) simp
  moreover have "w_files w1 fname = w_files w fname @ file_text env w lev ev fname a"
    using appender_log_files [OF _ w1(1)] Cons.prems(1) by simp
  ultimately show ?case by simp
qed simp

end
