(* ===== verification/Logger_Setup.thy ===== *)
theory Logger_Setup
  imports Logger_Delivery
begin

text \<open>
  Setting loggers up: which formatter an appender has after each operation, the registry of the
  manager (a find-or-create interface), and the invariant of the whole store: every appender that a
  logger uses has a formatter, so no log call meets a null one.
\<close>

section \<open>Formatters\<close>

lemma inherit_appender:
  "the_appender (inherit f a w) b =
     (if b = a \<and> \<not> ap_hasFormatter (the_appender w a) then (the_appender w a)\<lparr>ap_formatter := f\<rparr>
      else the_appender w b)"
  by (simp add: inherit_def)

lemma inherit_frame [simp]:
  "w_loggers (inherit f a w) = w_loggers w" "w_next (inherit f a w) = w_next w"
  "w_registry (inherit f a w) = w_registry w" "w_root (inherit f a w) = w_root w"
  "w_cout (inherit f a w) = w_cout w" "w_files (inherit f a w) = w_files w"
  "the_logger (inherit f a w) l = the_logger w l"
  by (simp_all add: inherit_def)

lemma fold_inherit_frame [simp]:
  "w_loggers (fold (inherit f) as w) = w_loggers w" "w_next (fold (inherit f) as w) = w_next w"
  "w_registry (fold (inherit f) as w) = w_registry w" "w_root (fold (inherit f) as w) = w_root w"
  "w_cout (fold (inherit f) as w) = w_cout w" "w_files (fold (inherit f) as w) = w_files w"
  "the_logger (fold (inherit f) as w) l = the_logger w l"
  by (induction as arbitrary: w) simp_all

lemma inherit_dom: "w_appenders w a \<noteq> None \<Longrightarrow> dom (w_appenders (inherit f a w)) = dom (w_appenders w)"
  by (auto simp: inherit_def)

lemma fold_inherit_dom:
  "\<forall>a \<in> set as. w_appenders w a \<noteq> None \<Longrightarrow> dom (w_appenders (fold (inherit f) as w)) = dom (w_appenders w)"
proof (induction as arbitrary: w)
  case (Cons a as)
  have d: "dom (w_appenders (inherit f a w)) = dom (w_appenders w)"
    using Cons.prems by (intro inherit_dom) simp
  have "\<forall>b \<in> set as. w_appenders (inherit f a w) b \<noteq> None"
    using Cons.prems d by (auto simp: set_eq_iff dom_def)
  from Cons.IH [OF this] d show ?case by simp
qed simp

lemma fold_inherit_appender:
  "the_appender (fold (inherit f) as w) b =
     (if b \<in> set as \<and> \<not> ap_hasFormatter (the_appender w b) then (the_appender w b)\<lparr>ap_formatter := f\<rparr>
      else the_appender w b)"
  by (induction as arbitrary: w) (auto simp: inherit_appender)

text \<open>Setting a logger's formatter gives it to the logger and to exactly those of its appenders
  that have none of their own; an appender's own formatter (set with \<open>LogAppender::setFormatter\<close>)
  and the appenders of other loggers keep theirs, and nothing is written.\<close>

theorem setFormatter_inheritance:
  "getFormatter (setFormatter l val w) l = val
    \<and> appender_getFormatter (setFormatter l val w) a =
        (if a \<in> set (lg_appenders (the_logger w l)) \<and> \<not> ap_hasFormatter (the_appender w a) then val
         else appender_getFormatter w a)
    \<and> ap_hasFormatter (the_appender (setFormatter l val w) a) = ap_hasFormatter (the_appender w a)
    \<and> w_cout (setFormatter l val w) = w_cout w"
  by (simp add: setFormatter_def getFormatter_def appender_getFormatter_def fold_inherit_appender Let_def)

text \<open>A pattern that is in error is only reported: the logger and all appenders keep their
  formatters. Any other pattern is installed.\<close>

theorem setFormatter_string_checks:
  "(formatter.m_error (LogFormatter val) \<longrightarrow>
      (\<exists>msg. msg \<noteq> [] \<and> setFormatter_string l val w = cout msg w))
    \<and> (\<not> formatter.m_error (LogFormatter val) \<longrightarrow>
      setFormatter_string l val w = setFormatter l (Some (LogFormatter val)) w)"
  by (auto simp: setFormatter_string_def Let_def)

section \<open>The registry\<close>

text \<open>The store of the manager: addresses in use are below \<open>w_next\<close>, and every entry is a logger.\<close>

definition registry_ok :: "log_world \<Rightarrow> bool" where
  "registry_ok w \<longleftrightarrow> smap_ok (w_registry w) \<and> (\<forall>l. w_loggers w l \<noteq> None \<longrightarrow> l < w_next w)
     \<and> (\<forall>n l. map_of (w_registry w) n = Some l \<longrightarrow> (\<exists>x. w_loggers w l = Some x \<and> lg_name x = n))"

lemma getLogger_new:
  assumes "map_of (w_registry w) n = None"
  shows "getLogger n w = (w_next w, (put_logger (w_next w) ((new_Logger n)\<lparr>lg_root := Some (w_root w)\<rparr>) w)
    \<lparr>w_next := w_next w + 1, w_registry := smap_put n (w_next w) (w_registry w)\<rparr>)"
  using assms by (simp add: getLogger_def alloc_logger_def)

lemma getLogger_found: "map_of (w_registry w) n = Some l \<Longrightarrow> getLogger n w = (l, w)"
  by (simp add: getLogger_def)

interpretation loggers: find_or_create "\<lambda>w. map_of (w_registry w)" getLogger registry_ok
    "\<lambda>w. dom (w_loggers w)" "\<lambda>_ _. True"
proof unfold_locales
  fix w n l w'
  assume ok: "registry_ok w"
  show "l \<notin> dom (w_loggers w)" if "map_of (w_registry w) n = None" "getLogger n w = (l, w')"
    using ok that by (auto simp: getLogger_new registry_ok_def)
  show "map_of (w_registry w') = (map_of (w_registry w))(n \<mapsto> l)" if "getLogger n w = (l, w')"
    using that by (cases "map_of (w_registry w) n") (auto simp: getLogger_new getLogger_found)
  show "registry_ok w'" if get: "getLogger n w = (l, w')"
  proof (cases "map_of (w_registry w) n")
    case None
    have fresh: "w_loggers w (w_next w) = None" using ok by (auto simp: registry_ok_def)
    have "map_of (w_registry w) m = Some k \<Longrightarrow> k \<noteq> w_next w" for m k
      using ok fresh by (force simp: registry_ok_def simp del: map_of_eq_Some_iff)
    with ok get None show ?thesis
      by (auto simp: getLogger_new registry_ok_def new_Logger_def less_Suc_eq
          simp del: map_of_eq_Some_iff split: if_splits)
  qed (use ok get in \<open>simp add: getLogger_found\<close>)
  show "l \<in> dom (w_loggers w)" if "map_of (w_registry w) n = Some l"
    using ok that by (fastforce simp: registry_ok_def simp del: map_of_eq_Some_iff)
qed (simp_all add: getLogger_found)

text \<open>The registry is a function of the name: asking twice for a name gives the same logger, also
  when another logger was made in between, and the second time changes nothing; a logger that is new
  is a different object and has its name, level DEBUG, no appenders and the root logger to hand its
  records to.\<close>

theorem getLogger_registry:
  assumes "registry_ok w" and "getLogger n w = (l, w1)"
  shows "getLogger n w1 = (l, w1)
    \<and> (\<forall>m k w2. m \<noteq> n \<and> getLogger m w1 = (k, w2) \<longrightarrow>
          getLogger n w2 = (l, w2) \<and> (map_of (w_registry w) m = None \<longrightarrow> k \<noteq> l))
    \<and> (map_of (w_registry w) n = None \<longrightarrow> the_logger w1 l = (new_Logger n)\<lparr>lg_root := Some (w_root w)\<rparr>)
    \<and> (\<exists>x. w_loggers w1 l = Some x \<and> lg_name x = n)"
proof -
  have ok1: "registry_ok w1" by (rule loggers.make_ok [OF assms(1) TrueI assms(2)])
  have reg: "map_of (w_registry w1) n = Some l"
    using loggers.make_registers [OF assms(1) TrueI assms(2)] by simp
  have "getLogger n w2 = (l, w2)" if get: "getLogger m w1 = (k, w2)" for m k w2
    using loggers.make_registers [OF ok1 TrueI get] reg get
    by (cases "m = n") (simp_all add: getLogger_found)
  moreover have "the_logger w1 l = (new_Logger n)\<lparr>lg_root := Some (w_root w)\<rparr>"
    if "map_of (w_registry w) n = None"
    using getLogger_new [OF that] assms(2) by (auto simp: the_logger_def put_logger_def)
  moreover have "\<exists>x. w_loggers w1 l = Some x \<and> lg_name x = n" using ok1 reg by (simp add: registry_ok_def)
  moreover have "k \<noteq> l" if "m \<noteq> n" "map_of (w_registry w) m = None" "getLogger m w1 = (k, w2)" for m k w2
    using loggers.make_distinct [OF assms(1) _ assms(2) that(1,2) _ that(3)] by simp
  moreover have "getLogger n w1 = (l, w1)" by (rule getLogger_found [OF reg])
  ultimately show ?thesis by blast
qed

section \<open>The invariant of the store\<close>

text \<open>
  The operations of the logging interface on loggers and appenders that exist. The formatters a
  client sets are not null.
\<close>

inductive log_step :: "log_world \<Rightarrow> log_world \<Rightarrow> bool" where
  get: "getLogger n w = (l, w') \<Longrightarrow> log_step w w'"
| new_stdout: "alloc_appender (new_StdoutLogAppender lev) w = (a, w') \<Longrightarrow> log_step w w'"
| new_file: "alloc_appender (new_FileLogAppender env fname lev) w = (a, w') \<Longrightarrow> log_step w w'"
| ap_level: "w_appenders w a \<noteq> None \<Longrightarrow> log_step w (appender_setLevel a lev w)"
| ap_format: "w_appenders w a \<noteq> None \<Longrightarrow> log_step w (appender_setFormatter a (Some f) w)"
| level: "w_loggers w l \<noteq> None \<Longrightarrow> log_step w (logger_setLevel l lev w)"
| add: "w_loggers w l \<noteq> None \<Longrightarrow> w_appenders w a \<noteq> None \<Longrightarrow> addAppender l (Some a) w = (r, w') \<Longrightarrow>
    log_step w w'"
| del: "w_loggers w l \<noteq> None \<Longrightarrow> log_step w (delAppender l a w)"
| clear: "w_loggers w l \<noteq> None \<Longrightarrow> log_step w (clearAppender l w)"
| format: "w_loggers w l \<noteq> None \<Longrightarrow> log_step w (setFormatter l (Some f) w)"
| format_string: "w_loggers w l \<noteq> None \<Longrightarrow> log_step w (setFormatter_string l val w)"
| logs: "w_loggers w l \<noteq> None \<Longrightarrow> log env l lev ev w = (r, w') \<Longrightarrow> log_step w w'"

inductive manager_started :: "log_world \<Rightarrow> bool" where
  "LogManager empty_log_world = (Inr (), w) \<Longrightarrow> manager_started w"

definition log_ok :: "log_world \<Rightarrow> bool" where
  "log_ok w \<longleftrightarrow> registry_ok w \<and> rooted w
     \<and> (\<forall>a. w_appenders w a \<noteq> None \<longrightarrow> a < w_next w)
     \<and> (\<forall>l x. w_loggers w l = Some x \<longrightarrow> lg_formatter x \<noteq> None \<and> (\<forall>a \<in> set (lg_appenders x). has_formatter w a))
     \<and> (\<forall>a x. w_appenders w a = Some x \<longrightarrow> (ap_hasFormatter x \<longrightarrow> ap_formatter x \<noteq> None))"

lemma log_okD:
  assumes "log_ok w"
  shows "registry_ok w" "rooted w" "w_appenders w a \<noteq> None \<Longrightarrow> a < w_next w"
    "w_loggers w l = Some x \<Longrightarrow> lg_formatter x \<noteq> None"
    "w_loggers w l = Some x \<Longrightarrow> a \<in> set (lg_appenders x) \<Longrightarrow> has_formatter w a"
    "w_appenders w a = Some y \<Longrightarrow> ap_hasFormatter y \<Longrightarrow> ap_formatter y \<noteq> None"
  using assms unfolding log_ok_def by blast+

lemma the_logger_Some [simp]: "w_loggers w l = Some x \<Longrightarrow> the_logger w l = x"
  by (simp add: the_logger_def)

lemma the_appender_Some [simp]: "w_appenders w a = Some x \<Longrightarrow> the_appender w a = x"
  by (simp add: the_appender_def)

lemma log_ok_put_logger:
  assumes ok: "log_ok w" and x: "w_loggers w l = Some x"
    and y: "lg_name y = lg_name x" "lg_root y = lg_root x" "lg_formatter y \<noteq> None"
      "\<forall>a \<in> set (lg_appenders y). has_formatter w a"
  shows "log_ok (put_logger l y w)"
proof -
  have "has_formatter (put_logger l y w) = has_formatter w" by (simp add: fun_eq_iff has_formatter_def)
  moreover have "rooted (put_logger l y w)"
    using log_okD(2) [OF ok] x y(2) by (auto simp: rooted_def)
  moreover have "registry_ok (put_logger l y w)"
    using log_okD(1) [OF ok] x y(1) by (fastforce simp: registry_ok_def simp del: map_of_eq_Some_iff)
  ultimately show ?thesis
    using ok y by (auto simp: log_ok_def)
qed

lemma log_ok_put_appender:
  assumes ok: "log_ok w" and x: "w_appenders w a = Some x"
    and y: "ap_formatter x \<noteq> None \<Longrightarrow> ap_formatter y \<noteq> None" "ap_hasFormatter y \<Longrightarrow> ap_formatter y \<noteq> None"
  shows "log_ok (put_appender a y w)"
proof -
  have "has_formatter (put_appender a y w) b" if "has_formatter w b" for b
    using that x y by (auto simp: has_formatter_def)
  moreover have "rooted (put_appender a y w)" using log_okD(2) [OF ok] by (simp add: rooted_def)
  moreover have "registry_ok (put_appender a y w)" using log_okD(1) [OF ok] by (simp add: registry_ok_def)
  ultimately show ?thesis using ok x y by (auto simp: log_ok_def)
qed

lemma log_ok_alloc:
  assumes ok: "log_ok w" and x: "ap_formatter x = None" "\<not> ap_hasFormatter x"
    and alloc: "alloc_appender x w = (a, w')"
  shows "log_ok w'"
proof -
  have w': "w' = (put_appender (w_next w) x w)\<lparr>w_next := w_next w + 1\<rparr>"
    using alloc by (auto simp: alloc_appender_def)
  have frame: "w_loggers w' = w_loggers w" "w_registry w' = w_registry w" "w_root w' = w_root w"
    "w_next w' = w_next w + 1" "w_appenders w' = (w_appenders w)(w_next w \<mapsto> x)" "the_logger w' = the_logger w"
    by (simp_all add: w' fun_eq_iff the_logger_def)
  have "has_formatter w' b" if "has_formatter w b" for b
    using that log_okD(3) [OF ok, of b] by (auto simp: has_formatter_def frame the_appender_def)
  moreover have "registry_ok w'" "rooted w'"
    using log_okD(1,2) [OF ok] by (auto simp: registry_ok_def rooted_def frame less_Suc_eq simp del: map_of_eq_Some_iff)
  ultimately show ?thesis
    using ok x by (auto simp: log_ok_def frame less_Suc_eq)
qed

lemma log_ok_same_setup:
  assumes ok: "log_ok w" and same: "same_setup w w'"
  shows "log_ok w'"
proof -
  have frame: "w_loggers w' = w_loggers w" "w_registry w' = w_registry w" "w_root w' = w_root w"
    "w_next w' = w_next w" "the_logger w' = the_logger w"
    using same by (simp_all add: same_setup_def fun_eq_iff the_logger_def)
  have exist: "w_appenders w' a \<noteq> None \<longleftrightarrow> w_appenders w a \<noteq> None" for a
    using same by (auto simp: same_setup_def dom_def set_eq_iff)
  have sets: "settings w' a = settings w a" for a using same by (simp add: same_setup_def)
  have "registry_ok w'" "rooted w'"
    using log_okD(1,2) [OF ok] by (simp_all add: registry_ok_def rooted_def frame)
  moreover have "ap_formatter y \<noteq> None" if y: "w_appenders w' a = Some y" "ap_hasFormatter y" for a y
  proof -
    obtain x where x: "w_appenders w a = Some x" using exist [of a] y(1) by (cases "w_appenders w a") auto
    with y sets [of a] log_okD(6) [OF ok x] show ?thesis by (simp add: settings_def Let_def)
  qed
  ultimately show ?thesis
    using ok exist has_formatter_setup [OF same] by (simp add: log_ok_def frame)
qed

lemma log_ok_get:
  assumes ok: "log_ok w" and get: "getLogger n w = (l, w')"
  shows "log_ok w'"
proof (cases "map_of (w_registry w) n")
  case None
  let ?x = "(new_Logger n)\<lparr>lg_root := Some (w_root w)\<rparr>"
  have w': "w' = (put_logger (w_next w) ?x w)\<lparr>w_next := w_next w + 1, w_registry := smap_put n (w_next w) (w_registry w)\<rparr>"
    using get getLogger_new [OF None] by auto
  have frame: "w_loggers w' = (w_loggers w)(w_next w \<mapsto> ?x)" "w_root w' = w_root w" "w_next w' = w_next w + 1"
    "w_appenders w' = w_appenders w"
    by (simp_all add: w')
  have fresh: "w_loggers w (w_next w) = None" using log_okD(1) [OF ok] by (auto simp: registry_ok_def)
  have has: "has_formatter w' = has_formatter w"
    by (simp add: fun_eq_iff has_formatter_def frame the_appender_def)
  have "registry_ok w'" by (rule loggers.make_ok [OF log_okD(1) [OF ok] TrueI get])
  moreover have "rooted w'"
    using log_okD(2) [OF ok] fresh by (auto simp: rooted_def frame the_logger_def)
  ultimately show ?thesis
    using ok by (auto simp: log_ok_def frame has new_Logger_def less_Suc_eq)
qed (use ok get in \<open>simp add: getLogger_found\<close>)

lemma add_log_ok:
  assumes ok: "log_ok w" and l: "w_loggers w l = Some x" and a: "w_appenders w a = Some y"
    and add: "addAppender l (Some a) w = (r, w')"
  shows "log_ok w' \<and> r = Inr ()"
proof -
  let ?w1 = "if ap_formatter y = None then put_appender a (y\<lparr>ap_formatter := lg_formatter x\<rparr>) w else w"
  have f: "lg_formatter x \<noteq> None" by (rule log_okD(4) [OF ok l])
  have ok1: "log_ok ?w1"
    using ok f log_okD(6) [OF ok a] by (auto intro: log_ok_put_appender [OF ok a])
  have l1: "w_loggers ?w1 l = Some x" using l by simp
  have "has_formatter ?w1 a" using a f by (auto simp: has_formatter_def the_appender_def)
  moreover have "has_formatter ?w1 b" if "b \<in> set (lg_appenders x)" for b
    by (rule log_okD(5) [OF ok1 l1 that])
  ultimately have "log_ok (put_logger l (x\<lparr>lg_appenders := lg_appenders x @ [a]\<rparr>) ?w1)"
    using f by (intro log_ok_put_logger [OF ok1 l1]) auto
  then show ?thesis
    using add l a by (auto simp: addAppender_def appender_getFormatter_def Let_def split: if_splits)
qed

lemma setFormatter_log_ok:
  assumes ok: "log_ok w" and l: "w_loggers w l = Some x"
  shows "log_ok (setFormatter l (Some f) w)"
proof -
  have "log_ok (fold (inherit (Some f)) as v) \<and> w_loggers (fold (inherit (Some f)) as v) = w_loggers v"
    if "log_ok v" "\<forall>a \<in> set as. w_appenders v a \<noteq> None" for as v
    using that
  proof (induction as arbitrary: v)
    case (Cons a as)
    then obtain y where y: "w_appenders v a = Some y" by auto
    have "log_ok (inherit (Some f) a v)"
      using Cons.prems(1) y by (auto simp: inherit_def intro!: log_ok_put_appender [OF _ y])
    moreover have "dom (w_appenders (inherit (Some f) a v)) = dom (w_appenders v)"
      by (rule inherit_dom) (simp add: y)
    then have "\<forall>b \<in> set as. w_appenders (inherit (Some f) a v) b \<noteq> None"
      using Cons.prems(2) by (auto simp: dom_def set_eq_iff)
    ultimately show ?case using Cons.IH by simp
  qed simp
  moreover have "log_ok (put_logger l (x\<lparr>lg_formatter := Some f\<rparr>) w)"
    using log_okD(5) [OF ok l] by (intro log_ok_put_logger [OF ok l]) auto
  moreover have "\<forall>a \<in> set (lg_appenders x). w_appenders w a \<noteq> None"
    using log_okD(5) [OF ok l] by (auto simp: has_formatter_def)
  ultimately show ?thesis using l by (simp add: setFormatter_def Let_def)
qed

lemma log_ok_targets:
  assumes ok: "log_ok w" and l: "w_loggers w l \<noteq> None" and a: "a \<in> set (targets w l lev)"
  shows "has_formatter w a"
proof -
  obtain k x where "w_loggers w k = Some x" "a \<in> set (lg_appenders x)"
    using a l log_okD(2) [OF ok] by (auto simp: targets_def rooted_def Let_def split: if_splits option.splits)
  then show ?thesis by (rule log_okD(5) [OF ok])
qed

lemma log_ok_log:
  assumes ok: "log_ok w" and l: "w_loggers w l \<noteq> None"
  shows "\<exists>w'. log env l lev ev w = (Inr (), w') \<and> log_ok w' \<and> same_setup w w'
    \<and> w_cout w' = w_cout w @ concat (map (stdout_text env w lev ev) (targets w l lev))"
proof -
  have r: "rooted w" by (rule log_okD(2) [OF ok])
  have "has_formatter w a" if "a \<in> set (targets w l lev)" for a
    by (rule log_ok_targets [OF ok l that])
  then have "\<exists>w'. efor (\<lambda>a. appender_log env a lev ev) (targets w l lev) w = (Inr (), w') \<and> same_setup w w'
      \<and> w_cout w' = w_cout w @ concat (map (stdout_text env w lev ev) (targets w l lev))"
    using appenders.deliver_all by blast
  moreover have "log env l lev ev w = efor (\<lambda>a. appender_log env a lev ev) (targets w l lev) w"
    using logger_log_targets [OF r l, of 0] by (simp add: log_def numeral_2_eq_2)
  ultimately show ?thesis using log_ok_same_setup [OF ok] by auto
qed

lemma log_ok_step:
  assumes "log_step w w'" and ok: "log_ok w"
  shows "log_ok w'"
  using assms(1)
proof cases
  case (get n l)
  show ?thesis by (rule log_ok_get [OF ok get])
next
  case (new_stdout lev a)
  show ?thesis by (rule log_ok_alloc [OF ok _ _ new_stdout]) (simp_all add: new_StdoutLogAppender_def)
next
  case (new_file env fname lev a)
  show ?thesis by (rule log_ok_alloc [OF ok _ _ new_file]) (simp_all add: new_FileLogAppender_def)
next
  case (ap_level a lev)
  then obtain x where x: "w_appenders w a = Some x" by auto
  with log_okD(6) [OF ok x] show ?thesis
    unfolding ap_level(1) appender_setLevel_def by (intro log_ok_put_appender [OF ok x]) simp_all
next
  case (ap_format a f)
  then obtain x where x: "w_appenders w a = Some x" by auto
  then show ?thesis
    unfolding ap_format(1) appender_setFormatter_def by (intro log_ok_put_appender [OF ok x]) simp_all
next
  case (level l lev)
  then obtain x where x: "w_loggers w l = Some x" by auto
  with log_okD(4,5) [OF ok x] show ?thesis
    unfolding level(1) logger_setLevel_def by (intro log_ok_put_logger [OF ok x]) simp_all
next
  case (add l a r)
  then show ?thesis using add_log_ok [OF ok] by blast
next
  case (del l a)
  then obtain x where x: "w_loggers w l = Some x" by auto
  with log_okD(4,5) [OF ok x] show ?thesis
    unfolding del(1) delAppender_def Let_def
    by (intro log_ok_put_logger [OF ok x]) (auto dest: notin_set_remove1)
next
  case (clear l)
  then obtain x where x: "w_loggers w l = Some x" by auto
  with log_okD(4) [OF ok x] show ?thesis
    unfolding clear(1) clearAppender_def by (intro log_ok_put_logger [OF ok x]) simp_all
next
  case (format l f)
  then show ?thesis using setFormatter_log_ok [OF ok] by auto
next
  case (format_string l val)
  moreover have "log_ok (cout s w)" for s
    by (rule log_ok_same_setup [OF ok]) (simp add: same_setup_def settings_def)
  ultimately show ?thesis
    using setFormatter_log_ok [OF ok] by (auto simp: setFormatter_string_def Let_def)
next
  case (logs l env lev ev r)
  then show ?thesis using log_ok_log [OF ok, of l env lev ev] by auto
qed

text \<open>The state behind the manager's constructor.\<close>

definition manager_world :: log_world where
  "manager_world = empty_log_world\<lparr>
     w_loggers := [0 \<mapsto> (new_Logger ''root'')\<lparr>lg_appenders := [1]\<rparr>],
     w_appenders := [1 \<mapsto> (new_StdoutLogAppender DEBUG)\<lparr>ap_formatter := Some (LogFormatter default_pattern)\<rparr>],
     w_next := 2, w_registry := [(''root'', 0)]\<rparr>"

lemma LogManager_world: "LogManager empty_log_world = (Inr (), manager_world)"
  by (simp add: LogManager_def manager_world_def empty_log_world_def alloc_logger_def alloc_appender_def
      addAppender_def new_Logger_def new_StdoutLogAppender_def the_logger_def the_appender_def
      put_logger_def put_appender_def appender_getFormatter_def ebind_def emodify_def Let_def)

lemma manager_lookups [simp]:
  "the_logger manager_world 0 = (new_Logger ''root'')\<lparr>lg_appenders := [1]\<rparr>"
  "the_appender manager_world 1 = (new_StdoutLogAppender DEBUG)\<lparr>ap_formatter := Some (LogFormatter default_pattern)\<rparr>"
  "w_loggers manager_world l = (if l = 0 then Some ((new_Logger ''root'')\<lparr>lg_appenders := [1]\<rparr>) else None)"
  "w_appenders manager_world a = (if a = 1 then
     Some ((new_StdoutLogAppender DEBUG)\<lparr>ap_formatter := Some (LogFormatter default_pattern)\<rparr>) else None)"
  "w_root manager_world = 0" "w_next manager_world = 2" "w_registry manager_world = [(''root'', 0)]"
  "w_cout manager_world = []"
  by (simp_all add: manager_world_def the_logger_def the_appender_def empty_log_world_def)

lemma log_ok_manager: "log_ok manager_world"
proof -
  have "registry_ok manager_world"
    by (auto simp: registry_ok_def smap_ok_Cons new_Logger_def split: if_splits)
  moreover have "rooted manager_world" by (simp add: rooted_def new_Logger_def)
  ultimately show ?thesis
    by (auto simp: log_ok_def new_Logger_def new_StdoutLogAppender_def has_formatter_def split: if_splits)
qed

lemma log_ok_started: "manager_started w \<Longrightarrow> log_ok w"
  by (erule manager_started.cases) (simp add: LogManager_world log_ok_manager)

interpretation logging: invariant_system manager_started log_step log_ok
  by unfold_locales (auto intro: log_ok_started log_ok_step)

text \<open>C14. Logging never fails: whatever operations have been made on loggers and appenders that
  exist, with formatters that are not null, a log call on any logger returns normally, and the
  recursion to the root logger has ended.\<close>

theorem log_never_fails:
  assumes "reach manager_started log_step w" and "w_loggers w l \<noteq> None"
  shows "\<exists>w'. log env l lev ev w = (Inr (), w') \<and> logger_log 2 env l lev ev w = Some (Inr (), w')"
proof -
  have ok: "log_ok w" by (rule logging.reach_inv [OF assms(1)])
  obtain w' where "log env l lev ev w = (Inr (), w')" using log_ok_log [OF ok assms(2)] by blast
  moreover have "logger_log 2 env l lev ev w \<noteq> None"
    using logger_log_targets [OF log_okD(2) [OF ok] assms(2), of 0] by (simp add: numeral_2_eq_2)
  ultimately show ?thesis by (auto simp: log_def)
qed

text \<open>The condition on formatters is needed: an appender whose formatter is set to null while a
  logger uses it makes every record that reaches it use a null pointer.\<close>

theorem null_formatter_crashes:
  assumes "w_loggers w l = Some x" and "lg_appenders x = a # as" and "w_appenders w a \<noteq> None"
    and "lg_level x \<le> lev" and "ap_level (the_appender w a) \<le> lev"
  shows "fst (log env l lev ev (appender_setFormatter a None w)) = Inl (Null_pointer ''m_formatter'')"
  using assms
  by (cases "ap_kind (the_appender w a)")
    (simp_all add: log_def numeral_2_eq_2 appender_setFormatter_def appender_log_def stdout_log_def
      file_log_def Let_def)

end
