(* ===== verification/Yaml.thy ===== *)
theory Yaml
  imports Prelude "HOL-Library.AList"
begin

text \<open>
  The part of \<open>yaml-cpp\<close> the code calls. The library is not part of the repository, so its
  operations are the fields of a record that the definitions take as an argument; what the code
  relies on of its documented behaviour is the predicate \<open>yaml_laws\<close>. A concrete tree type with a
  text form that satisfies the laws is defined for the witnesses.
\<close>

section \<open>The interface\<close>

text \<open>
  \<open>y_Load\<close> is \<open>YAML::Load\<close>, \<open>y_Emit\<close> is \<open>ss << node\<close>, \<open>y_size\<close> and \<open>y_at\<close> are \<open>node.size()\<close> and
  \<open>node[i]\<close>, \<open>y_entries\<close> is the iteration from \<open>begin()\<close> to \<open>end()\<close> with \<open>first\<close> and \<open>second\<close>,
  \<open>y_get\<close> is \<open>node[key]\<close>, \<open>y_as_string\<close> is \<open>node.as<std::string>()\<close>; a default-constructed node is
  \<open>y_null\<close>, \<open>y_str\<close> is the node of a string, \<open>y_push\<close> is \<open>node.push_back(n)\<close> and \<open>y_put\<close> is
  \<open>node[key] = n\<close>.
\<close>

record 'n yaml =
  y_Load :: "string \<Rightarrow> 'n outcome"
  y_Emit :: "'n \<Rightarrow> string"
  y_IsMap :: "'n \<Rightarrow> bool"
  y_IsScalar :: "'n \<Rightarrow> bool"
  y_IsDefined :: "'n \<Rightarrow> bool"
  y_Scalar :: "'n \<Rightarrow> string outcome"
  y_size :: "'n \<Rightarrow> nat"
  y_at :: "'n \<Rightarrow> nat \<Rightarrow> 'n"
  y_entries :: "'n \<Rightarrow> ('n \<times> 'n) list"
  y_get :: "'n \<Rightarrow> string \<Rightarrow> 'n outcome"
  y_as_string :: "'n \<Rightarrow> string outcome"
  y_null :: 'n
  y_str :: "string \<Rightarrow> 'n"
  y_push :: "'n \<Rightarrow> 'n \<Rightarrow> 'n"
  y_put :: "'n \<Rightarrow> string \<Rightarrow> 'n \<Rightarrow> 'n"

text \<open>The node the code builds by pushing nodes, and by assigning keys, one after the other.\<close>

definition y_seq :: "'n yaml \<Rightarrow> 'n list \<Rightarrow> 'n" where
  "y_seq Y ns = foldl (y_push Y) (y_null Y) ns"

definition y_map :: "'n yaml \<Rightarrow> (string \<times> 'n) list \<Rightarrow> 'n" where
  "y_map Y ps = foldl (\<lambda>n (k, v). y_put Y n k v) (y_null Y) ps"

definition y_items :: "'n yaml \<Rightarrow> 'n \<Rightarrow> 'n list" where
  "y_items Y n = map (y_at Y n) [0..<y_size Y n]"

text \<open>
  The nodes the code has to do with: those it loads, and those it builds of strings, sequences and maps with
  distinct keys. An undefined node, as \<open>node[key]\<close> returns it for a missing key, is none of them.
\<close>

inductive yaml_node :: "'n yaml \<Rightarrow> 'n \<Rightarrow> bool" for Y where
  loaded: "y_Load Y s = Inr n \<Longrightarrow> yaml_node Y n"
| str: "yaml_node Y (y_str Y s)"
| seq: "(\<And>n. n \<in> set ns \<Longrightarrow> yaml_node Y n) \<Longrightarrow> yaml_node Y (y_seq Y ns)"
| map: "distinct (map fst ps) \<Longrightarrow> (\<And>n. n \<in> snd ` set ps \<Longrightarrow> yaml_node Y n) \<Longrightarrow> yaml_node Y (y_map Y ps)"

lemma strings_node: "distinct (map fst ps) \<Longrightarrow> snd ` set ps \<subseteq> range (y_str Y) \<Longrightarrow> yaml_node Y (y_map Y ps)"
  by (rule yaml_node.map, assumption) (drule subsetD, assumption, erule rangeE, simp add: yaml_node.str)

definition yaml_laws :: "'n yaml \<Rightarrow> bool" where
  "yaml_laws Y \<longleftrightarrow>
     (\<forall>n. yaml_node Y n \<longrightarrow> y_Load Y (y_Emit Y n) = Inr n)
     \<and> (\<forall>ns. y_items Y (y_seq Y ns) = ns)
     \<and> (\<forall>ps. distinct (map fst ps) \<longrightarrow> y_entries Y (y_map Y ps) = map (\<lambda>(k, v). (y_str Y k, v)) ps)
     \<and> (\<forall>ps k v. distinct (map fst ps) \<and> map_of ps k = Some v \<longrightarrow> y_get Y (y_map Y ps) k = Inr v)
     \<and> (\<forall>ps k. distinct (map fst ps) \<and> map_of ps k = None \<longrightarrow>
          (\<exists>u. y_get Y (y_map Y ps) k = Inr u \<and> \<not> y_IsDefined Y u))
     \<and> (\<forall>s. y_Scalar Y (y_str Y s) = Inr s \<and> y_as_string Y (y_str Y s) = Inr s \<and> y_IsDefined Y (y_str Y s))
     \<and> (\<forall>ns. ns \<noteq> [] \<longrightarrow> y_IsDefined Y (y_seq Y ns))"

lemma yaml_lawsD:
  assumes "yaml_laws Y"
  shows "yaml_node Y n \<Longrightarrow> y_Load Y (y_Emit Y n) = Inr n" "y_items Y (y_seq Y ns) = ns"
    "distinct (map fst ps) \<Longrightarrow> y_entries Y (y_map Y ps) = map (\<lambda>(k, v). (y_str Y k, v)) ps"
    "distinct (map fst ps) \<Longrightarrow> map_of ps k = Some v \<Longrightarrow> y_get Y (y_map Y ps) k = Inr v"
    "distinct (map fst ps) \<Longrightarrow> map_of ps k = None \<Longrightarrow>
       \<exists>u. y_get Y (y_map Y ps) k = Inr u \<and> \<not> y_IsDefined Y u"
    "y_Scalar Y (y_str Y s) = Inr s" "y_as_string Y (y_str Y s) = Inr s" "y_IsDefined Y (y_str Y s)"
    "ns \<noteq> [] \<Longrightarrow> y_IsDefined Y (y_seq Y ns)"
  using assms unfolding yaml_laws_def by (elim conjE; (simp; fail | blast))+

section \<open>Trees\<close>

datatype tree = TUndef | TNull | TStr string | TSeq "tree list" | TMap "(string \<times> tree) list"

definition put_str :: "string \<Rightarrow> string" where
  "put_str s = concat (map (\<lambda>c. [CHR ''1'', c]) s) @ ''0''"

fun get_str :: "string \<Rightarrow> (string \<times> string) option" where
  "get_str (a # r) =
     (if a = CHR ''0'' then Some ([], r)
      else (case r of [] \<Rightarrow> None | c # t \<Rightarrow> map_option (\<lambda>(s, u). (c # s, u)) (get_str t)))"
| "get_str [] = None"

lemma get_put_str: "get_str (put_str s @ r) = Some (s, r)"
  by (induction s) (simp_all add: put_str_def)

fun emit_tree :: "tree \<Rightarrow> string" where
  "emit_tree TUndef = ''u''"
| "emit_tree TNull = ''n''"
| "emit_tree (TStr s) = ''s'' @ put_str s"
| "emit_tree (TSeq ts) = ''q'' @ concat (map (\<lambda>t. ''1'' @ emit_tree t) ts) @ ''0''"
| "emit_tree (TMap ps) = ''m'' @ concat (map (\<lambda>(k, t). ''1'' @ put_str k @ emit_tree t) ps) @ ''0''"

text \<open>The bound counts the nodes still to be read.\<close>

fun read_tree :: "nat \<Rightarrow> string \<Rightarrow> (tree \<times> string) option"
  and read_seq :: "nat \<Rightarrow> string \<Rightarrow> (tree list \<times> string) option"
  and read_map :: "nat \<Rightarrow> string \<Rightarrow> ((string \<times> tree) list \<times> string) option" where
  "read_tree 0 r = None"
| "read_tree (Suc d) r =
     (case r of
        [] \<Rightarrow> None
      | c # t \<Rightarrow>
          if c = CHR ''u'' then Some (TUndef, t)
          else if c = CHR ''n'' then Some (TNull, t)
          else if c = CHR ''s'' then map_option (\<lambda>(s, u). (TStr s, u)) (get_str t)
          else if c = CHR ''q'' then map_option (\<lambda>(ts, u). (TSeq ts, u)) (read_seq d t)
          else map_option (\<lambda>(ps, u). (TMap ps, u)) (read_map d t))"
| "read_seq 0 r = None"
| "read_seq (Suc d) r =
     (case r of
        [] \<Rightarrow> None
      | c # t \<Rightarrow>
          if c = CHR ''0'' then Some ([], t)
          else (case read_tree d t of
                  None \<Rightarrow> None
                | Some (x, u) \<Rightarrow> map_option (\<lambda>(ts, v). (x # ts, v)) (read_seq d u)))"
| "read_map 0 r = None"
| "read_map (Suc d) r =
     (case r of
        [] \<Rightarrow> None
      | c # t \<Rightarrow>
          if c = CHR ''0'' then Some ([], t)
          else (case get_str t of
                  None \<Rightarrow> None
                | Some (k, t1) \<Rightarrow>
                    (case read_tree d t1 of
                       None \<Rightarrow> None
                     | Some (x, u) \<Rightarrow> map_option (\<lambda>(ps, v). ((k, x) # ps, v)) (read_map d u))))"

lemma read_emit_seq:
  assumes "\<And>t d r. t \<in> set ts \<Longrightarrow> length (emit_tree t) \<le> d \<Longrightarrow> read_tree d (emit_tree t @ r) = Some (t, r)"
    and "length (concat (map (\<lambda>t. ''1'' @ emit_tree t) ts)) < d"
  shows "read_seq d (concat (map (\<lambda>t. ''1'' @ emit_tree t) ts) @ ''0'' @ r) = Some (ts, r)"
  using assms
proof (induction ts arbitrary: d)
  case Nil
  then show ?case by (cases d) simp_all
next
  case (Cons t ts)
  obtain e where d: "d = Suc e" using Cons.prems(2) by (cases d) simp_all
  have "read_tree e (emit_tree t @ concat (map (\<lambda>t. ''1'' @ emit_tree t) ts) @ ''0'' @ r) =
      Some (t, concat (map (\<lambda>t. ''1'' @ emit_tree t) ts) @ ''0'' @ r)"
    by (rule Cons.prems(1)) (use Cons.prems(2) d in simp_all)
  moreover have "read_seq e (concat (map (\<lambda>t. ''1'' @ emit_tree t) ts) @ ''0'' @ r) = Some (ts, r)"
    by (rule Cons.IH) (use Cons.prems d in auto)
  ultimately show ?case using d by simp
qed

lemma read_emit_map:
  assumes "\<And>k t d r. (k, t) \<in> set ps \<Longrightarrow> length (emit_tree t) \<le> d \<Longrightarrow> read_tree d (emit_tree t @ r) = Some (t, r)"
    and "length (concat (map (\<lambda>(k, t). ''1'' @ put_str k @ emit_tree t) ps)) < d"
  shows "read_map d (concat (map (\<lambda>(k, t). ''1'' @ put_str k @ emit_tree t) ps) @ ''0'' @ r) = Some (ps, r)"
  using assms
proof (induction ps arbitrary: d)
  case Nil
  then show ?case by (cases d) simp_all
next
  case (Cons p ps)
  obtain k t where p: "p = (k, t)" by (cases p)
  obtain e where d: "d = Suc e" using Cons.prems(2) by (cases d) simp_all
  let ?rest = "concat (map (\<lambda>(k, t). ''1'' @ put_str k @ emit_tree t) ps) @ ''0'' @ r"
  have "read_tree e (emit_tree t @ ?rest) = Some (t, ?rest)"
    by (rule Cons.prems(1) [of k]) (use Cons.prems(2) d p in simp_all)
  moreover have "read_map e ?rest = Some (ps, r)"
    by (rule Cons.IH) (use Cons.prems d p in auto)
  ultimately show ?case using d p by (simp add: get_put_str)
qed

lemma read_emit_tree: "length (emit_tree t) \<le> d \<Longrightarrow> read_tree d (emit_tree t @ r) = Some (t, r)"
proof (induction t arbitrary: d r rule: emit_tree.induct)
  case (3 s)
  then show ?case by (cases d) (simp_all add: get_put_str)
next
  case (4 ts)
  then obtain e where d: "d = Suc e" by (cases d) simp_all
  have "read_seq e (concat (map (\<lambda>t. ''1'' @ emit_tree t) ts) @ ''0'' @ r) = Some (ts, r)"
    by (rule read_emit_seq) (use 4 d in auto)
  then show ?case using d by simp
next
  case (5 ps)
  then obtain e where d: "d = Suc e" by (cases d) simp_all
  have "read_map e (concat (map (\<lambda>(k, t). ''1'' @ put_str k @ emit_tree t) ps) @ ''0'' @ r) = Some (ps, r)"
    by (rule read_emit_map) (use 5 d in auto)
  then show ?case using d by simp
qed (case_tac d; simp)+

section \<open>The instance\<close>

definition tree_Load :: "string \<Rightarrow> tree outcome" where
  "tree_Load s =
     (case read_tree (length s) s of
        Some (t, []) \<Rightarrow> Inr t
      | _ \<Rightarrow> Inr (TStr s))"

fun tree_push :: "tree \<Rightarrow> tree \<Rightarrow> tree" where
  "tree_push (TSeq ts) t = TSeq (ts @ [t])"
| "tree_push _ t = TSeq [t]"

fun tree_put :: "tree \<Rightarrow> string \<Rightarrow> tree \<Rightarrow> tree" where
  "tree_put (TMap ps) k t = TMap (AList.update k t ps)"
| "tree_put _ k t = TMap [(k, t)]"

fun tree_items :: "tree \<Rightarrow> tree list" where
  "tree_items (TSeq ts) = ts"
| "tree_items _ = []"

fun tree_pairs :: "tree \<Rightarrow> (string \<times> tree) list" where
  "tree_pairs (TMap ps) = ps"
| "tree_pairs _ = []"

fun tree_string :: "tree \<Rightarrow> string outcome" where
  "tree_string (TStr s) = Inr s"
| "tree_string TNull = Inr ''null''"
| "tree_string _ = Inl (Throw ''bad conversion'')"

definition tree_yaml :: "tree yaml" where
  "tree_yaml =
     \<lparr>y_Load = tree_Load, y_Emit = emit_tree,
      y_IsMap = (\<lambda>t. case t of TMap _ \<Rightarrow> True | _ \<Rightarrow> False),
      y_IsScalar = (\<lambda>t. case t of TStr _ \<Rightarrow> True | _ \<Rightarrow> False),
      y_IsDefined = (\<lambda>t. t \<noteq> TUndef),
      y_Scalar = (\<lambda>t. case t of TStr s \<Rightarrow> Inr s | _ \<Rightarrow> Inr []),
      y_size = (\<lambda>t. length (tree_items t) + length (tree_pairs t)),
      y_at = (\<lambda>t i. if i < length (tree_items t) then tree_items t ! i else TUndef),
      y_entries = (\<lambda>t. map (\<lambda>(k, v). (TStr k, v)) (tree_pairs t)),
      y_get = (\<lambda>t k. case map_of (tree_pairs t) k of Some v \<Rightarrow> Inr v | None \<Rightarrow> Inr TUndef),
      y_as_string = tree_string, y_null = TNull, y_str = TStr, y_push = tree_push, y_put = tree_put\<rparr>"

lemma tree_seq: "y_seq tree_yaml ns = (if ns = [] then TNull else TSeq ns)"
proof -
  have "foldl tree_push (TSeq ts) xs = TSeq (ts @ xs)" for ts xs
    by (induction xs arbitrary: ts) simp_all
  then show ?thesis by (cases ns) (simp_all add: y_seq_def tree_yaml_def)
qed

lemma tree_put_fresh: "k \<notin> fst ` set qs \<Longrightarrow> tree_put (TMap qs) k v = TMap (qs @ [(k, v)])"
  by (induction qs) auto

lemma tree_map_step:
  "distinct (map fst (qs @ ps)) \<Longrightarrow> foldl (\<lambda>n (k, v). tree_put n k v) (TMap qs) ps = TMap (qs @ ps)"
proof (induction ps arbitrary: qs)
  case (Cons p ps)
  obtain k v where p: "p = (k, v)" by (cases p)
  have "tree_put (TMap qs) k v = TMap (qs @ [p])" using Cons.prems p by (simp only: p) (rule tree_put_fresh, auto)
  moreover have "foldl (\<lambda>n (k, v). tree_put n k v) (TMap (qs @ [p])) ps = TMap ((qs @ [p]) @ ps)"
    by (rule Cons.IH) (use Cons.prems in simp)
  ultimately show ?case by (simp add: p)
qed simp

lemma tree_map: "distinct (map fst ps) \<Longrightarrow> y_map tree_yaml ps = (if ps = [] then TNull else TMap ps)"
  using tree_map_step [of "[hd ps]" "tl ps"]
  by (cases ps) (auto simp: y_map_def tree_yaml_def)

lemma tree_items_seq: "y_items tree_yaml (TSeq ns) = ns" "y_items tree_yaml TNull = []"
  by (auto simp: y_items_def tree_yaml_def intro: nth_equalityI)

lemma tree_loads: "y_Load tree_yaml (y_Emit tree_yaml n) = Inr n"
  using read_emit_tree [of n "length (emit_tree n)" "[]"] by (simp add: tree_yaml_def tree_Load_def)

lemma tree_laws: "yaml_laws tree_yaml"
  unfolding yaml_laws_def
proof (intro conjI allI impI; (elim conjE)?)
  fix n :: tree
  show "y_Load tree_yaml (y_Emit tree_yaml n) = Inr n" by (rule tree_loads)
next
  fix ns
  show "y_items tree_yaml (y_seq tree_yaml ns) = ns" by (simp add: tree_seq tree_items_seq)
next
  fix ps :: "(string \<times> tree) list"
  assume d: "distinct (map fst ps)"
  show "y_entries tree_yaml (y_map tree_yaml ps) = map (\<lambda>(k, v). (y_str tree_yaml k, v)) ps"
    by (simp add: tree_map [OF d]) (simp add: tree_yaml_def)
  show "y_get tree_yaml (y_map tree_yaml ps) k = Inr v" if "map_of ps k = Some v" for k v
    using that by (auto simp: tree_map [OF d]) (simp_all add: tree_yaml_def)
  show "\<exists>u. y_get tree_yaml (y_map tree_yaml ps) k = Inr u \<and> \<not> y_IsDefined tree_yaml u"
    if "map_of ps k = None" for k
    using that by (auto simp: tree_map [OF d]) (simp_all add: tree_yaml_def)
qed (simp_all add: tree_seq, simp_all add: tree_yaml_def)

end
