(* ===== verification/Config_Cast.thy ===== *)
theory Config_Cast
  imports Yaml "HOL-Library.Multiset"
begin

text \<open>
  The \<open>LexicalCast\<close> templates of \<open>mocker/config.h\<close> for containers: from YAML text to a vector, list,
  set, unordered set, map or unordered map and back. The element type's casts are the arguments
  \<open>from\<close> and \<open>to\<close> (the primary template is \<open>boost::lexical_cast\<close>), so nested containers are nested
  applications.
\<close>

section \<open>The casts\<close>

type_synonym 'a from_str = "string \<Rightarrow> 'a outcome"
type_synonym 'a to_str = "'a \<Rightarrow> string outcome"

text \<open>
  The loop all the sequence-like casts share: each node is written to the stream and the text is
  cast; the first exception ends it.
\<close>

definition cast_items :: "'n yaml \<Rightarrow> 'a from_str \<Rightarrow> 'n list \<Rightarrow> 'a list outcome" where
  "cast_items Y from ns = omap (\<lambda>n. from (y_Emit Y n)) ns"

definition vector_from_str :: "'n yaml \<Rightarrow> 'a from_str \<Rightarrow> 'a list from_str" where
  "vector_from_str Y from v = obind (y_Load Y v) (\<lambda>node. cast_items Y from (y_items Y node))"

definition list_from_str :: "'n yaml \<Rightarrow> 'a from_str \<Rightarrow> 'a list from_str" where
  "list_from_str Y from v = obind (y_Load Y v) (\<lambda>node. cast_items Y from (y_items Y node))"

text \<open>The element's text is parsed again before it is pushed.\<close>

definition load_items :: "'n yaml \<Rightarrow> 'a to_str \<Rightarrow> 'a list \<Rightarrow> 'n list outcome" where
  "load_items Y to v = omap (\<lambda>i. obind (to i) (y_Load Y)) v"

definition vector_to_str :: "'n yaml \<Rightarrow> 'a to_str \<Rightarrow> 'a list to_str" where
  "vector_to_str Y to v = obind (load_items Y to v) (\<lambda>ns. Inr (y_Emit Y (y_seq Y ns)))"

definition list_to_str :: "'n yaml \<Rightarrow> 'a to_str \<Rightarrow> 'a list to_str" where
  "list_to_str Y to v = obind (load_items Y to v) (\<lambda>ns. Inr (y_Emit Y (y_seq Y ns)))"

text \<open>\<open>std::set\<close> with the element type's \<open>operator<\<close> as \<open>lt\<close>.\<close>

definition set_from_str :: "('a \<Rightarrow> 'a \<Rightarrow> bool) \<Rightarrow> 'n yaml \<Rightarrow> 'a from_str \<Rightarrow> 'a list from_str" where
  "set_from_str lt Y from v =
     obind (y_Load Y v) (\<lambda>node. obind (cast_items Y from (y_items Y node))
       (\<lambda>xs. Inr (fold (oset_insert lt) xs [])))"

definition set_to_str :: "'n yaml \<Rightarrow> 'a to_str \<Rightarrow> 'a list to_str" where
  "set_to_str Y to v = obind (load_items Y to v) (\<lambda>ns. Inr (y_Emit Y (y_seq Y ns)))"

text \<open>
  \<open>std::unordered_set\<close>: the elements without duplicates; \<open>order\<close> is the order in which the
  container is iterated.
\<close>

definition uset_insert :: "'a \<Rightarrow> 'a list \<Rightarrow> 'a list" where
  "uset_insert x xs = (if x \<in> set xs then xs else xs @ [x])"

definition uset_from_str :: "'n yaml \<Rightarrow> 'a from_str \<Rightarrow> 'a list from_str" where
  "uset_from_str Y from v =
     obind (y_Load Y v) (\<lambda>node. obind (cast_items Y from (y_items Y node))
       (\<lambda>xs. Inr (fold uset_insert xs [])))"

definition uset_to_str :: "('a list \<Rightarrow> 'a list) \<Rightarrow> 'n yaml \<Rightarrow> 'a to_str \<Rightarrow> 'a list to_str" where
  "uset_to_str order Y to v = obind (load_items Y to (order v)) (\<lambda>ns. Inr (y_Emit Y (y_seq Y ns)))"

text \<open>
  The maps: the key's scalar and the cast of the value's text, in the order of the entries;
  \<open>insert\<close> keeps the value that a key already has.
\<close>

definition cast_entries :: "'n yaml \<Rightarrow> 'a from_str \<Rightarrow> ('n \<times> 'n) list \<Rightarrow> (string \<times> 'a) list outcome" where
  "cast_entries Y from ps =
     omap (\<lambda>(k, v). obind (y_Scalar Y k) (\<lambda>s. obind (from (y_Emit Y v)) (\<lambda>x. Inr (s, x)))) ps"

definition map_from_str :: "'n yaml \<Rightarrow> 'a from_str \<Rightarrow> (string, 'a) smap from_str" where
  "map_from_str Y from v =
     obind (y_Load Y v) (\<lambda>node. obind (cast_entries Y from (y_entries Y node))
       (\<lambda>ps. Inr (fold (\<lambda>(k, x). smap_insert k x) ps [])))"

definition load_entries :: "'n yaml \<Rightarrow> 'a to_str \<Rightarrow> (string \<times> 'a) list \<Rightarrow> (string \<times> 'n) list outcome" where
  "load_entries Y to m = omap (\<lambda>(k, x). obind (to x) (\<lambda>s. obind (y_Load Y s) (\<lambda>n. Inr (k, n)))) m"

definition map_to_str :: "'n yaml \<Rightarrow> 'a to_str \<Rightarrow> (string, 'a) smap to_str" where
  "map_to_str Y to m = obind (load_entries Y to m) (\<lambda>ps. Inr (y_Emit Y (y_map Y ps)))"

text \<open>\<open>std::unordered_map\<close>, as an association list with distinct keys.\<close>

definition umap_insert :: "string \<Rightarrow> 'a \<Rightarrow> (string \<times> 'a) list \<Rightarrow> (string \<times> 'a) list" where
  "umap_insert k x m = (if k \<in> fst ` set m then m else m @ [(k, x)])"

definition umap_from_str :: "'n yaml \<Rightarrow> 'a from_str \<Rightarrow> (string \<times> 'a) list from_str" where
  "umap_from_str Y from v =
     obind (y_Load Y v) (\<lambda>node. obind (cast_entries Y from (y_entries Y node))
       (\<lambda>ps. Inr (fold (\<lambda>(k, x). umap_insert k x) ps [])))"

definition umap_to_str :: "((string \<times> 'a) list \<Rightarrow> (string \<times> 'a) list) \<Rightarrow> 'n yaml \<Rightarrow> 'a to_str
    \<Rightarrow> (string \<times> 'a) list to_str" where
  "umap_to_str order Y to m = obind (load_entries Y to (order m)) (\<lambda>ps. Inr (y_Emit Y (y_map Y ps)))"

section \<open>Values that survive the text form\<close>

text \<open>
  A value survives if its text, parsed and written again as part of a larger document, is cast back
  to it. That is what a container needs from its elements and what it gives to a container around
  it.
\<close>

definition survives :: "'n yaml \<Rightarrow> 'a from_str \<Rightarrow> 'a to_str \<Rightarrow> 'a \<Rightarrow> bool" where
  "survives Y from to x \<longleftrightarrow> (\<exists>s n. to x = Inr s \<and> y_Load Y s = Inr n \<and> from (y_Emit Y n) = Inr x)"

lemma load_cast_items:
  assumes "\<forall>x \<in> set v. survives Y from to x"
  shows "\<exists>ns. load_items Y to v = Inr ns \<and> cast_items Y from ns = Inr v \<and> yaml_node Y (y_seq Y ns)"
proof -
  have "\<exists>ns. load_items Y to v = Inr ns \<and> cast_items Y from ns = Inr v \<and> (\<forall>n \<in> set ns. yaml_node Y n)"
  using assms
proof (induction v)
  case (Cons x v)
  then obtain ns s n where "load_items Y to v = Inr ns" "cast_items Y from ns = Inr v" "\<forall>n \<in> set ns. yaml_node Y n"
    "to x = Inr s" "y_Load Y s = Inr n" "from (y_Emit Y n) = Inr x"
    by (auto simp: survives_def)
  then show ?case
    by (intro exI [of _ "n # ns"]) (auto simp: load_items_def cast_items_def intro: yaml_node.loaded)
qed (simp add: load_items_def cast_items_def)
  then show ?thesis by (blast intro: yaml_node.seq)
qed

lemma load_cast_entries:
  assumes "\<forall>(k, x) \<in> set m. survives Y from to x" and "yaml_laws Y"
  shows "\<exists>ps. load_entries Y to m = Inr ps \<and> map fst ps = map fst m
    \<and> cast_entries Y from (map (\<lambda>(k, v). (y_str Y k, v)) ps) = Inr m
    \<and> (distinct (map fst m) \<longrightarrow> yaml_node Y (y_map Y ps))"
proof -
  have "\<exists>ps. load_entries Y to m = Inr ps \<and> map fst ps = map fst m
    \<and> cast_entries Y from (map (\<lambda>(k, v). (y_str Y k, v)) ps) = Inr m \<and> (\<forall>n \<in> snd ` set ps. yaml_node Y n)"
  using assms(1)
proof (induction m)
  case (Cons p m)
  obtain k x where p: "p = (k, x)" by (cases p)
  with Cons obtain ps s n where "load_entries Y to m = Inr ps" "map fst ps = map fst m"
    "cast_entries Y from (map (\<lambda>(k, v). (y_str Y k, v)) ps) = Inr m" "\<forall>n \<in> snd ` set ps. yaml_node Y n"
    "to x = Inr s" "y_Load Y s = Inr n" "from (y_Emit Y n) = Inr x"
    by (auto simp: survives_def)
  then show ?case
    by (intro exI [of _ "(k, n) # ps"])
      (auto simp: p load_entries_def cast_entries_def yaml_lawsD(6) [OF assms(2)] intro: yaml_node.loaded)
qed (simp add: load_entries_def cast_entries_def)
  then obtain ps where "load_entries Y to m = Inr ps" "map fst ps = map fst m"
    "cast_entries Y from (map (\<lambda>(k, v). (y_str Y k, v)) ps) = Inr m" "\<forall>n \<in> snd ` set ps. yaml_node Y n" by blast
  then show ?thesis by (metis yaml_node.map)
qed

text \<open>A cast to and from a document that is written in one piece.\<close>

lemma survivesI:
  assumes "yaml_laws Y" and "to x = Inr (y_Emit Y n)" and "from (y_Emit Y n) = Inr x" and "yaml_node Y n"
  shows "survives Y from to x"
  using assms yaml_lawsD(1) [OF assms(1)] by (auto simp: survives_def)

lemma vector_survives:
  assumes "yaml_laws Y" and "\<forall>x \<in> set v. survives Y from to x"
  shows "survives Y (vector_from_str Y from) (vector_to_str Y to) v"
proof -
  obtain ns where ns: "load_items Y to v = Inr ns" "cast_items Y from ns = Inr v" "yaml_node Y (y_seq Y ns)"
    using load_cast_items [OF assms(2)] by blast
  show ?thesis
    by (rule survivesI [OF assms(1), of _ _ "y_seq Y ns"])
      (simp_all add: vector_to_str_def vector_from_str_def ns yaml_lawsD(1,2) [OF assms(1)])
qed

text \<open>Inserting the elements of a strictly ordered list one by one gives the list back.\<close>

lemma fold_oset_insert_sorted:
  assumes "sorted_wrt lt (acc @ xs)" and "\<And>x y. lt x y \<Longrightarrow> \<not> lt y x"
  shows "fold (oset_insert lt) xs acc = acc @ xs"
  using assms(1)
proof (induction xs arbitrary: acc)
  case (Cons x xs)
  have "oset_insert lt x acc = acc @ [x]"
    using Cons.prems assms(2) by (intro oset_insert_last) (auto simp: sorted_wrt_append)
  with Cons show ?case by simp
qed simp

lemma fold_smap_insert_sorted:
  assumes "smap_ok (acc @ m)"
  shows "fold (\<lambda>(k, x). smap_insert k x) m acc = acc @ m"
  using assms
proof (induction m arbitrary: acc)
  case (Cons p m)
  obtain k x where p: "p = (k, x)" by (cases p)
  have less: "k' < k" if "k' \<in> fst ` set acc" for k'
    using Cons.prems that by (auto simp: smap_ok_def sorted_wrt_append p)
  then have "map_of acc k = None" by (auto simp: map_of_eq_None_iff)
  then have "smap_insert k x acc = acc @ [p]" using less by (simp add: smap_insert_def p)
  with Cons show ?case by (simp add: p)
qed simp

text \<open>Vectors, lists and sets read back what they wrote, if the elements survive the text form (sets
  in the order of their elements); and a vector that is read back survives as an element of another
  container, so the casts can be nested.\<close>

theorem sequence_roundtrip:
  assumes "yaml_laws Y" and "\<forall>x \<in> set v. survives Y from to x"
    and "sorted_wrt lt v" and "\<forall>x y. lt x y \<longrightarrow> \<not> lt y x"
  shows "(\<exists>s. vector_to_str Y to v = Inr s \<and> vector_from_str Y from s = Inr v)
    \<and> (\<exists>s. list_to_str Y to v = Inr s \<and> list_from_str Y from s = Inr v)
    \<and> (\<exists>s. set_to_str Y to v = Inr s \<and> set_from_str lt Y from s = Inr v)
    \<and> survives Y (vector_from_str Y from) (vector_to_str Y to) v"
proof -
  obtain ns where ns: "load_items Y to v = Inr ns" "cast_items Y from ns = Inr v" "yaml_node Y (y_seq Y ns)"
    using load_cast_items [OF assms(2)] by blast
  have "fold (oset_insert lt) v [] = v" using fold_oset_insert_sorted [of lt "[]" v] assms(3,4) by simp
  with ns vector_survives [OF assms(1,2)] show ?thesis
    by (simp add: vector_to_str_def vector_from_str_def list_to_str_def list_from_str_def
        set_to_str_def set_from_str_def yaml_lawsD(1,2) [OF assms(1)])
qed

text \<open>A map reads back what it wrote, key by key, if its values survive the text form.\<close>

theorem map_roundtrip:
  assumes "yaml_laws Y" and "smap_ok m" and "\<forall>(k, x) \<in> set m. survives Y from to x"
  shows "\<exists>s. map_to_str Y to m = Inr s \<and> map_from_str Y from s = Inr m"
proof -
  obtain ps where ps: "load_entries Y to m = Inr ps" "map fst ps = map fst m"
    "cast_entries Y from (map (\<lambda>(k, v). (y_str Y k, v)) ps) = Inr m" "yaml_node Y (y_map Y ps)"
    using load_cast_entries [OF assms(3,1)] smap_ok_distinct [OF assms(2)] by blast
  then have "distinct (map fst ps)" using assms(2) by simp
  with ps fold_smap_insert_sorted [of "[]" m] assms(2) show ?thesis
    by (simp add: map_to_str_def map_from_str_def yaml_lawsD(1,3) [OF assms(1)])
qed

lemma fold_uset_insert: "distinct (acc @ xs) \<Longrightarrow> fold uset_insert xs acc = acc @ xs"
  by (induction xs arbitrary: acc) (simp_all add: uset_insert_def)

lemma fold_umap_insert:
  "distinct (map fst (acc @ m)) \<Longrightarrow> fold (\<lambda>(k, x). umap_insert k x) m acc = acc @ m"
  by (induction m arbitrary: acc) (auto simp: umap_insert_def)

text \<open>Unordered sets and maps read back the same elements, whatever order the containers are
  iterated in.\<close>

theorem unordered_roundtrip:
  assumes "yaml_laws Y" and "distinct v" and "mset (order v) = mset v"
    and "\<forall>x \<in> set v. survives Y from to x"
    and "distinct (map fst m)" and "mset (order' m) = mset m" and "\<forall>(k, x) \<in> set m. survives Y from to x"
  shows "(\<exists>s w. uset_to_str order Y to v = Inr s \<and> uset_from_str Y from s = Inr w \<and> mset w = mset v)
    \<and> (\<exists>s n. umap_to_str order' Y to m = Inr s \<and> umap_from_str Y from s = Inr n \<and> mset n = mset m)"
proof
  have v: "set (order v) = set v" "distinct (order v)"
    using assms(2,3) mset_eq_setD mset_eq_imp_distinct_iff by blast+
  then obtain ns where ns: "load_items Y to (order v) = Inr ns" "cast_items Y from ns = Inr (order v)"
    "yaml_node Y (y_seq Y ns)"
    using load_cast_items [of "order v" Y "from" to] assms(4) by auto
  show "\<exists>s w. uset_to_str order Y to v = Inr s \<and> uset_from_str Y from s = Inr w \<and> mset w = mset v"
    using ns fold_uset_insert [of "[]" "order v"] v(2) assms(3)
    by (simp add: uset_to_str_def uset_from_str_def yaml_lawsD(1,2) [OF assms(1)])
  have m: "set (order' m) = set m" using assms(6) by (rule mset_eq_setD)
  have d: "distinct (map fst (order' m))"
    using assms(5,6) by (metis mset_eq_imp_distinct_iff mset_map)
  obtain ps where ps: "load_entries Y to (order' m) = Inr ps" "map fst ps = map fst (order' m)"
    "cast_entries Y from (map (\<lambda>(k, v). (y_str Y k, v)) ps) = Inr (order' m)" "yaml_node Y (y_map Y ps)"
    using load_cast_entries [of "order' m" Y "from" to] assms(1,7) m d by auto
  have "distinct (map fst ps)" using d ps(2) by simp
  with ps fold_umap_insert [of "[]" "order' m"] d assms(6)
  show "\<exists>s n. umap_to_str order' Y to m = Inr s \<and> umap_from_str Y from s = Inr n \<and> mset n = mset m"
    by (simp add: umap_to_str_def umap_from_str_def yaml_lawsD(1,3) [OF assms(1)])
qed

lemma fold_smap_insert_first:
  "smap_ok acc \<Longrightarrow> smap_ok (fold (\<lambda>(k, x). smap_insert k x) ps acc)
     \<and> map_of (fold (\<lambda>(k, x). smap_insert k x) ps acc) = (\<lambda>k. case map_of acc k of None \<Rightarrow> map_of ps k | Some y \<Rightarrow> Some y)"
proof (induction ps arbitrary: acc)
  case Nil
  then show ?case by (simp add: fun_eq_iff split: option.split)
next
  case (Cons p ps)
  obtain k x where p: "p = (k, x)" by (cases p)
  have "smap_ok (smap_insert k x acc)" using Cons.prems by simp
  from Cons.IH [OF this] show ?case by (auto simp: p fun_eq_iff split: option.split)
qed

text \<open>When the text has a key twice, the first value is kept; the map that is read is in key order
  and has exactly the keys of the text.\<close>

theorem map_keeps_first:
  assumes "map_from_str Y from v = Inr m"
  shows "\<exists>node ps. y_Load Y v = Inr node \<and> cast_entries Y from (y_entries Y node) = Inr ps
    \<and> smap_ok m \<and> map_of m = map_of ps"
  using assms fold_smap_insert_first [of "[]"]
  by (auto simp: map_from_str_def obind_Inr_iff)

section \<open>Witnesses\<close>

text \<open>Strings as elements, in the text form of the trees.\<close>

definition tree_from_str :: "string from_str" where
  "tree_from_str s = obind (tree_Load s) tree_string"

definition tree_to_str :: "string to_str" where
  "tree_to_str x = Inr (emit_tree (TStr x))"

lemma tree_survives: "survives tree_yaml tree_from_str tree_to_str x"
  using tree_loads [of "TStr x"] yaml_node.str [of tree_yaml x]
  by (intro survivesI [OF tree_laws, of _ _ "TStr x"])
    (simp_all add: tree_from_str_def tree_to_str_def tree_yaml_def)

theorem sequence_roundtrip_witness:
  "\<exists>s. set_to_str tree_yaml tree_to_str [''a'', ''b''] = Inr s
     \<and> set_from_str (<) tree_yaml tree_from_str s = Inr [''a'', ''b'']"
proof -
  have "\<forall>x y :: string. x < y \<longrightarrow> \<not> y < x" by (auto dest: less_asym)
  then show ?thesis
    using sequence_roundtrip [OF tree_laws, of "[''a'', ''b'']" tree_from_str tree_to_str "(<)"] tree_survives
    by (simp add: less_char_def)
qed

theorem map_roundtrip_witness:
  "\<exists>s. map_to_str tree_yaml tree_to_str [(''a'', ''1''), (''b'', ''2'')] = Inr s
     \<and> map_from_str tree_yaml tree_from_str s = Inr [(''a'', ''1''), (''b'', ''2'')]"
  by (rule map_roundtrip [OF tree_laws]) (simp_all add: tree_survives smap_ok_Cons less_char_def)

theorem unordered_roundtrip_witness:
  "\<exists>s w. uset_to_str rev tree_yaml tree_to_str [''a'', ''b''] = Inr s
     \<and> uset_from_str tree_yaml tree_from_str s = Inr w \<and> mset w = {#''a'', ''b''#}"
  using unordered_roundtrip [OF tree_laws, of "[''a'', ''b'']" rev tree_from_str tree_to_str "[]" rev] tree_survives
  by simp

theorem map_keeps_first_witness:
  "\<exists>m. map_from_str tree_yaml tree_from_str (emit_tree (TMap [(''k'', TStr ''1''), (''k'', TStr ''2'')])) = Inr m
     \<and> map_of m ''k'' = Some ''1''"
proof -
  have loads: "tree_Load (emit_tree t) = Inr t" for t
    using tree_loads [of t] by (simp add: tree_yaml_def)
  let ?v = "emit_tree (TMap [(''k'', TStr ''1''), (''k'', TStr ''2'')])"
  have cast: "cast_entries tree_yaml tree_from_str (y_entries tree_yaml (TMap [(''k'', TStr ''1''), (''k'', TStr ''2'')]))
      = Inr [(''k'', ''1''), (''k'', ''2'')]"
    unfolding cast_entries_def tree_yaml_def
    by (simp del: emit_tree.simps add: tree_from_str_def loads)
  have load: "y_Load tree_yaml ?v = Inr (TMap [(''k'', TStr ''1''), (''k'', TStr ''2'')])"
    using tree_loads by (simp add: tree_yaml_def del: emit_tree.simps)
  have m: "map_from_str tree_yaml tree_from_str ?v = Inr [(''k'', ''1'')]"
    unfolding map_from_str_def load obind_simps cast by (simp add: smap_insert_def)
  from map_keeps_first [OF m] load cast show ?thesis using m by auto
qed

end
