(* ===== verification/Config.thy ===== *)
theory Config
  imports Config_Cast
begin

text \<open>
  \<open>ConfigVarBase\<close>, \<open>ConfigVar\<close> and \<open>Config\<close> of \<open>mocker/config.h\<close> and \<open>mocker/config.cpp\<close>: the
  variables with their listeners, the registry with the two \<open>Lookup\<close> functions, and loading a YAML
  document into the variables. Variables of all types are in one registry; \<open>'v\<close> is the union of the
  value types and a variable carries the name of its type, which \<open>dynamic_pointer_cast\<close> and
  \<open>getTypeName\<close> read.
\<close>

section \<open>State\<close>

type_synonym ref = nat

text \<open>
  A listener is a \<open>std::function\<close>; \<open>None\<close> is an empty one. It gets the old and the new value and
  acts on the rest of the program's state, \<open>'w\<close>.
\<close>

type_synonym ('v, 'w) on_change = "('v \<Rightarrow> 'v \<Rightarrow> ('w, unit) eff) option"

record config_var_base =
  cv_name :: string
  cv_description :: string

record ('v, 'w) config_var = config_var_base +
  cv_type :: string
  cv_val :: 'v
  cv_cbs :: "(64 word, ('v, 'w) on_change) smap"

text \<open>\<open>s_fun_id\<close> is static in a template's member function: there is one counter per type.\<close>

record ('v, 'w) config =
  cf_vars :: "ref \<Rightarrow> ('v, 'w) config_var option"
  cf_data :: "(string, ref) smap"
  cf_next :: ref
  cf_fun_id :: "string \<Rightarrow> 64 word"
  cf_world :: 'w

text \<open>
  The casts and the comparison of each type, and the log: \<open>report\<close> is what a message does to the
  rest of the state.
\<close>

record ('v, 'w) cfg_env =
  from_str :: "string \<Rightarrow> 'v from_str"
  to_str :: "string \<Rightarrow> 'v to_str"
  veq :: "string \<Rightarrow> 'v \<Rightarrow> 'v \<Rightarrow> bool"
  report :: "string \<Rightarrow> 'w \<Rightarrow> 'w"

definition the_var :: "('v, 'w) config \<Rightarrow> ref \<Rightarrow> ('v, 'w) config_var" where
  "the_var c p = the (cf_vars c p)"

definition put_var :: "ref \<Rightarrow> ('v, 'w) config_var \<Rightarrow> ('v, 'w) config \<Rightarrow> ('v, 'w) config" where
  "put_var p x c = c\<lparr>cf_vars := (cf_vars c)(p \<mapsto> x)\<rparr>"

definition say :: "('v, 'w) cfg_env \<Rightarrow> string \<Rightarrow> ('v, 'w) config \<Rightarrow> ('v, 'w) config" where
  "say env msg c = c\<lparr>cf_world := report env msg (cf_world c)\<rparr>"

section \<open>Variables\<close>

text \<open>The constructors of \<open>ConfigVarBase\<close> and \<open>ConfigVar\<close>: the name is stored in lower case.\<close>

definition ConfigVarBase :: "string \<Rightarrow> string \<Rightarrow> config_var_base" where
  "ConfigVarBase name description = \<lparr>cv_name = map tolower name, cv_description = description\<rparr>"

definition new_ConfigVar :: "string \<Rightarrow> string \<Rightarrow> 'v \<Rightarrow> string \<Rightarrow> ('v, 'w) config_var" where
  "new_ConfigVar ty name default_value description =
     (let base = ConfigVarBase name description in
      \<lparr>cv_name = cv_name base, cv_description = cv_description base, cv_type = ty,
       cv_val = default_value, cv_cbs = []\<rparr>)"

declare ConfigVarBase_def [simp] Let_def [where s = "ConfigVarBase n d" for n d, simp]

definition getValue :: "('v, 'w) config \<Rightarrow> ref \<Rightarrow> 'v" where
  "getValue c p = cv_val (the_var c p)"

definition call_listener :: "('v, 'w) on_change \<Rightarrow> 'v \<Rightarrow> 'v \<Rightarrow> ('w, unit) eff" where
  "call_listener cb old_value new_value =
     (case cb of None \<Rightarrow> efail (Throw ''bad_function_call'') | Some f \<Rightarrow> f old_value new_value)"

text \<open>
  \<open>setValue\<close>: nothing happens for an equal value; otherwise the listeners are called in the order
  of their keys and then the value is stored. A listener that throws ends the call.
\<close>

definition setValue :: "('v, 'w) cfg_env \<Rightarrow> ref \<Rightarrow> 'v \<Rightarrow> (('v, 'w) config, unit) eff" where
  "setValue env p v c =
     (let x = the_var c p in
      if veq env (cv_type x) v (cv_val x) then (Inr (), c)
      else
        (case efor (\<lambda>(k, cb). call_listener cb (cv_val x) v) (cv_cbs x) (cf_world c) of
           (Inl e, w) \<Rightarrow> (Inl e, c\<lparr>cf_world := w\<rparr>)
         | (Inr _, w) \<Rightarrow> (Inr (), put_var p (x\<lparr>cv_val := v\<rparr>) (c\<lparr>cf_world := w\<rparr>))))"

text \<open>\<open>toString\<close> and \<open>fromString\<close> catch every \<open>std::exception\<close> and report it.\<close>

definition toString :: "('v, 'w) cfg_env \<Rightarrow> ref \<Rightarrow> (('v, 'w) config, string) eff" where
  "toString env p c =
     (let ty = cv_type (the_var c p) in
      case to_str env ty (getValue c p) of
        Inr s \<Rightarrow> (Inr s, c)
      | Inl e \<Rightarrow>
          if is_exception e
          then (Inr [], say env (''ConfigVar::ToString exception'' @ what e @ '' convert: '' @ ty @ '' to string'') c)
          else (Inl e, c))"

definition fromString :: "('v, 'w) cfg_env \<Rightarrow> ref \<Rightarrow> string \<Rightarrow> (('v, 'w) config, bool) eff" where
  "fromString env p val c =
     (let ty = cv_type (the_var c p);
          (r, c1) = (case from_str env ty val of Inl e \<Rightarrow> (Inl e, c) | Inr v \<Rightarrow> setValue env p v c)
      in case r of
           Inr _ \<Rightarrow> (Inr True, c1)
         | Inl e \<Rightarrow>
             if is_exception e
             then (Inr False, say env (''ConfigVar::FromString exception'' @ what e @ '' convert: string to '' @ ty) c1)
             else (Inl e, c1))"

definition getTypeName :: "('v, 'w) config \<Rightarrow> ref \<Rightarrow> string" where
  "getTypeName c p = cv_type (the_var c p)"

definition addListener :: "ref \<Rightarrow> ('v, 'w) on_change \<Rightarrow> ('v, 'w) config \<Rightarrow> 64 word \<times> ('v, 'w) config" where
  "addListener p cb c =
     (let x = the_var c p; fun_id = cf_fun_id c (cv_type x) + 1
      in (fun_id, put_var p (x\<lparr>cv_cbs := smap_put fun_id cb (cv_cbs x)\<rparr>)
            (c\<lparr>cf_fun_id := (cf_fun_id c)(cv_type x := fun_id)\<rparr>)))"

definition delListener :: "ref \<Rightarrow> 64 word \<Rightarrow> ('v, 'w) config \<Rightarrow> ('v, 'w) config" where
  "delListener p key c =
     (let x = the_var c p in put_var p (x\<lparr>cv_cbs := smap_erase key (cv_cbs x)\<rparr>) c)"

definition getListener :: "('v, 'w) config \<Rightarrow> ref \<Rightarrow> 64 word \<Rightarrow> ('v, 'w) on_change" where
  "getListener c p key =
     (case map_of (cv_cbs (the_var c p)) key of None \<Rightarrow> None | Some cb \<Rightarrow> cb)"

definition clearListener :: "ref \<Rightarrow> ('v, 'w) config \<Rightarrow> ('v, 'w) config" where
  "clearListener p c = put_var p ((the_var c p)\<lparr>cv_cbs := []\<rparr>) c"

section \<open>The registry\<close>

definition name_chars :: string where
  "name_chars = ''abcdefghijklmnopqrstuvwxyz._0123456789''"

text \<open>\<open>Lookup(name, default_value, description)\<close>; the result \<open>None\<close> is the null pointer.\<close>

definition Lookup :: "('v, 'w) cfg_env \<Rightarrow> string \<Rightarrow> string \<Rightarrow> 'v \<Rightarrow> string
    \<Rightarrow> (('v, 'w) config, ref option) eff" where
  "Lookup env ty name default_value description c =
     (case map_of (cf_data c) name of
        Some p \<Rightarrow>
          if cv_type (the_var c p) = ty then (Inr (Some p), say env (''Lookup name='' @ name @ '' exists'') c)
          else
            (case toString env p c of
               (Inl e, c1) \<Rightarrow> (Inl e, c1)
             | (Inr s, c1) \<Rightarrow>
                 (Inr None, say env (''Lookup name='' @ name @ '' exists but type not '' @ ty @ '' real_type=''
                                       @ getTypeName c p @ '' '' @ s) c1))
      | None \<Rightarrow>
          if \<not> only_chars name_chars name then
            (Inl (Throw name), say env (''Lookup name invalid '' @ name) c)
          else
            (Inr (Some (cf_next c)),
             (put_var (cf_next c) (new_ConfigVar ty name default_value description) c)
               \<lparr>cf_next := cf_next c + 1, cf_data := smap_put name (cf_next c) (cf_data c)\<rparr>))"

text \<open>\<open>Lookup(name)\<close>, which creates nothing, and \<open>LookupBase\<close>.\<close>

definition Lookup_only :: "string \<Rightarrow> string \<Rightarrow> ('v, 'w) config \<Rightarrow> ref option" where
  "Lookup_only ty name c =
     (case map_of (cf_data c) name of
        None \<Rightarrow> None
      | Some p \<Rightarrow> if cv_type (the_var c p) = ty then Some p else None)"

definition LookupBase :: "string \<Rightarrow> ('v, 'w) config \<Rightarrow> ref option" where
  "LookupBase name c = map_of (cf_data c) name"

definition Visit :: "(ref \<Rightarrow> (('v, 'w) config, unit) eff) \<Rightarrow> (('v, 'w) config, unit) eff" where
  "Visit cb c = efor (\<lambda>(k, p). cb p) (cf_data c) c"

section \<open>Loading a document\<close>

definition join :: "string \<Rightarrow> string \<Rightarrow> string" where
  "join prefix key = (if prefix = [] then key else prefix @ ''.'' @ key)"

text \<open>
  \<open>ListAllMember\<close>: the nodes of the document with their paths, a map before its entries; a path with
  a character outside \<open>name_chars\<close> is reported and its whole subtree is skipped. The state is the
  rest of the program and the output list; \<open>d\<close> bounds the depth of the recursion.
\<close>

fun ListAllMember :: "('w \<Rightarrow> string \<Rightarrow> 'w) \<Rightarrow> 'n yaml \<Rightarrow> nat \<Rightarrow> string \<Rightarrow> 'n
    \<Rightarrow> ('w \<times> (string \<times> 'n) list, unit) eff" where
  "ListAllMember rep Y 0 prefix node s = (Inl (Assertion ''depth''), s)"
| "ListAllMember rep Y (Suc d) prefix node s =
     (case s of (w, output) \<Rightarrow>
        if \<not> only_chars name_chars prefix then
          (Inr (), (rep w (''Config invalid name: '' @ prefix @ '' : '' @ y_Emit Y node), output))
        else if y_IsMap Y node then
          efor (\<lambda>(k, v) s1.
                  case y_Scalar Y k of
                    Inl e \<Rightarrow> (Inl e, s1)
                  | Inr key \<Rightarrow> ListAllMember rep Y d (join prefix key) v s1)
            (y_entries Y node) (w, output @ [(prefix, node)])
        else (Inr (), (w, output @ [(prefix, node)])))"

text \<open>The loop of \<open>LoadFromYaml\<close>: a scalar is loaded as it is, any other node as its text.\<close>

definition node_text :: "'n yaml \<Rightarrow> 'n \<Rightarrow> string outcome" where
  "node_text Y node = (if y_IsScalar Y node then y_Scalar Y node else Inr (y_Emit Y node))"

definition load_node :: "('v, 'w) cfg_env \<Rightarrow> 'n yaml \<Rightarrow> string \<times> 'n \<Rightarrow> (('v, 'w) config, unit) eff" where
  "load_node env Y i c =
     (case i of (path, node) \<Rightarrow>
        if path = [] then (Inr (), c)
        else
          (case LookupBase (map tolower path) c of
             None \<Rightarrow> (Inr (), c)
           | Some p \<Rightarrow>
               (case node_text Y node of
                  Inl e \<Rightarrow> (Inl e, c)
                | Inr str \<Rightarrow> (case fromString env p str c of (Inl e, c1) \<Rightarrow> (Inl e, c1) | (Inr _, c1) \<Rightarrow> (Inr (), c1)))))"

definition LoadFromYaml :: "('v, 'w) cfg_env \<Rightarrow> 'n yaml \<Rightarrow> nat \<Rightarrow> 'n \<Rightarrow> (('v, 'w) config, unit) eff" where
  "LoadFromYaml env Y d root c =
     (case ListAllMember (\<lambda>w msg. report env msg w) Y d [] root (cf_world c, []) of
        (Inl e, (w, _)) \<Rightarrow> (Inl e, c\<lparr>cf_world := w\<rparr>)
      | (Inr _, (w, all_nodes)) \<Rightarrow> efor (load_node env Y) all_nodes (c\<lparr>cf_world := w\<rparr>))"

end
