(* ===== verification/Log_Config.thy ===== *)
theory Log_Config
  imports Logger_Setup Config
begin

text \<open>
  The last part of \<open>mocker/log.cpp\<close>: the configuration of loggers. \<open>LogAppenderDefine\<close> and
  \<open>LogDefine\<close> with their comparisons, their casts from and to YAML text, and the listener that
  \<open>LogIniter\<close> adds to the variable \<open>logs\<close>, which applies a new set of definitions to the loggers.
\<close>

section \<open>Definitions of loggers\<close>

text \<open>\<open>AppenderType\<close>; the enumerators are \<open>UNKNOWN\<close>, \<open>StdLogAppender\<close> and \<open>FileLogAppender\<close>.\<close>

datatype appender_type = AtUnknown | AtStd | AtFile

record log_appender_define =
  ad_type :: appender_type
  ad_level :: level
  ad_formatter :: string
  ad_file :: string

record log_define =
  ld_name :: string
  ld_level :: level
  ld_formatter :: string
  ld_appenders :: "log_appender_define list"

definition lad_eq :: "log_appender_define \<Rightarrow> log_appender_define \<Rightarrow> bool" where
  "lad_eq a oth \<longleftrightarrow> ad_type a = ad_type oth \<and> ad_level a = ad_level oth
     \<and> ad_formatter a = ad_formatter oth \<and> ad_file a = ad_file oth"

text \<open>\<open>LogDefine::operator==\<close> compares the vector \<open>appenders\<close> with itself.\<close>

definition ld_eq :: "log_define \<Rightarrow> log_define \<Rightarrow> bool" where
  "ld_eq a oth \<longleftrightarrow> ld_name a = ld_name oth \<and> ld_level a = ld_level oth
     \<and> ld_formatter a = ld_formatter oth \<and> list_all2 lad_eq (ld_appenders a) (ld_appenders a)"

definition ld_less :: "log_define \<Rightarrow> log_define \<Rightarrow> bool" where
  "ld_less a oth \<longleftrightarrow> ld_name a < ld_name oth"

text \<open>The default member initialisers.\<close>

definition new_LogAppenderDefine :: log_appender_define where
  "new_LogAppenderDefine = \<lparr>ad_type = AtUnknown, ad_level = UNKNOWN, ad_formatter = [], ad_file = []\<rparr>"

definition new_LogDefine :: log_define where
  "new_LogDefine = \<lparr>ld_name = [], ld_level = UNKNOWN, ld_formatter = [], ld_appenders = []\<rparr>"

section \<open>The casts\<close>

text \<open>A message on the standard output, in red; the state of the casts is what was written there.\<close>

definition red :: "string \<Rightarrow> string" where
  "red msg = CHR 0x1B # ''[31m'' @ msg @ CHR 0x1B # ''[0m'' @ [CHR 0x0A]"

definition lift :: "'a outcome \<Rightarrow> ('s, 'a) eff" where
  "lift m s = (m, s)"

definition complain :: "string \<Rightarrow> (string, unit) eff" where
  "complain msg = emodify (\<lambda>out. out @ red msg)"

text \<open>\<open>node[key]\<close> if it is defined, and its string.\<close>

definition get_defined :: "'n yaml \<Rightarrow> 'n \<Rightarrow> string \<Rightarrow> 'n option outcome" where
  "get_defined Y node key = obind (y_get Y node key) (\<lambda>n. Inr (if y_IsDefined Y n then Some n else None))"

definition get_string :: "'n yaml \<Rightarrow> 'n \<Rightarrow> string \<Rightarrow> string option outcome" where
  "get_string Y node key = obind (get_defined Y node key) (\<lambda>n.
     case n of None \<Rightarrow> Inr None | Some m \<Rightarrow> obind (y_as_string Y m) (\<lambda>s. Inr (Some s)))"

definition level_of :: "string option \<Rightarrow> level" where
  "level_of s = (case s of None \<Rightarrow> UNKNOWN | Some str \<Rightarrow> FromString str)"

text \<open>One node of \<open>appenders\<close>; \<open>None\<close> where the loop continues without a definition.\<close>

definition appender_define :: "'n yaml \<Rightarrow> 'n \<Rightarrow> 'n \<Rightarrow> (string, log_appender_define option) eff" where
  "appender_define Y node ap =
     ebind (lift (get_string Y ap ''type'')) (\<lambda>ty0.
       case ty0 of
         None \<Rightarrow>
           ebind (complain (''[MOCKER ERROR] log config error: appender type is null, '' @ y_Emit Y node))
             (\<lambda>_. ereturn None)
       | Some ty \<Rightarrow>
           ebind (lift (get_string Y ap ''level'')) (\<lambda>lev.
             let lad = new_LogAppenderDefine\<lparr>ad_level := level_of lev\<rparr> in
             if ty = ''FileLogAppender'' then
               ebind (lift (get_string Y ap ''file'')) (\<lambda>fname.
                 case fname of
                   None \<Rightarrow>
                     ebind (complain (''[MOCKER ERROR] log config error: FileAppender file is null, '' @ y_Emit Y ap))
                       (\<lambda>_. ereturn None)
                 | Some f \<Rightarrow>
                     ebind (lift (get_string Y ap ''formatter'')) (\<lambda>fmt.
                       ereturn (Some (lad\<lparr>ad_type := AtFile, ad_file := f,
                                          ad_formatter := case_option [] (\<lambda>x. x) fmt\<rparr>))))
             else if ty = ''StdoutLogAppender'' then
               ebind (lift (get_string Y ap ''formatter'')) (\<lambda>fmt.
                 ereturn (Some (lad\<lparr>ad_type := AtStd, ad_formatter := case_option [] (\<lambda>x. x) fmt\<rparr>)))
             else
               ebind (complain (''[MOCKER ERROR] log config error: appender type is invalid, '' @ y_Emit Y ap))
                 (\<lambda>_. ereturn (Some lad))))"

fun appender_defines :: "'n yaml \<Rightarrow> 'n \<Rightarrow> 'n list \<Rightarrow> (string, log_appender_define list) eff" where
  "appender_defines Y node [] out = (Inr [], out)"
| "appender_defines Y node (ap # aps) out =
     ebind (appender_define Y node ap) (\<lambda>r.
       ebind (appender_defines Y node aps) (\<lambda>rs.
         ereturn (case r of None \<Rightarrow> rs | Some lad \<Rightarrow> lad # rs))) out"

text \<open>
  \<open>LexicalCast<std::string, LogDefine>\<close>: a missing name is reported and then read all the same.
\<close>

definition LogDefine_from_str :: "'n yaml \<Rightarrow> string \<Rightarrow> (string, log_define) eff" where
  "LogDefine_from_str Y v =
     ebind (lift (y_Load Y v)) (\<lambda>node.
     ebind (lift (get_defined Y node ''name'')) (\<lambda>nm.
     ebind (if nm = None
            then complain (''[MOCKER ERROR] log config error: name is null, '' @ y_Emit Y node)
            else ereturn ()) (\<lambda>_.
     ebind (lift (obind (y_get Y node ''name'') (y_as_string Y))) (\<lambda>name.
     ebind (lift (get_string Y node ''level'')) (\<lambda>lev.
     ebind (lift (get_string Y node ''formatter'')) (\<lambda>fmt.
     ebind (lift (get_defined Y node ''appenders'')) (\<lambda>aps.
     ebind (case aps of None \<Rightarrow> ereturn [] | Some n \<Rightarrow> appender_defines Y node (y_items Y n)) (\<lambda>defs.
       ereturn \<lparr>ld_name = name, ld_level = level_of lev, ld_formatter = case_option [] (\<lambda>x. x) fmt,
                ld_appenders = defs\<rparr>))))))))"

text \<open>\<open>LexicalCast<LogDefine, std::string>\<close>.\<close>

definition appender_node :: "'n yaml \<Rightarrow> log_appender_define \<Rightarrow> 'n" where
  "appender_node Y ap = y_map Y
     ((case ad_type ap of
         AtFile \<Rightarrow> [(''type'', y_str Y ''FileLogAppender''), (''file'', y_str Y (ad_file ap))]
       | AtStd \<Rightarrow> [(''type'', y_str Y ''StdoutLogAppender'')]
       | AtUnknown \<Rightarrow> [])
      @ (if ad_level ap \<noteq> UNKNOWN then [(''level'', y_str Y (ToString (ad_level ap)))] else [])
      @ (if ad_formatter ap \<noteq> [] then [(''formatter'', y_str Y (ad_formatter ap))] else []))"

definition LogDefine_to_str :: "'n yaml \<Rightarrow> log_define \<Rightarrow> string outcome" where
  "LogDefine_to_str Y v =
     Inr (y_Emit Y (y_map Y
       ([(''name'', y_str Y (ld_name v)), (''level'', y_str Y (ToString (ld_level v)))]
        @ (if ld_formatter v \<noteq> [] then [(''formatter'', y_str Y (ld_formatter v))] else [])
        @ (if ld_appenders v \<noteq> []
           then [(''appenders'', y_seq Y (map (appender_node Y) (ld_appenders v)))] else []))))"

section \<open>The listener\<close>

text \<open>
  One definition of an appender: the appender is made, gets its level and, if the pattern is valid,
  its own formatter, and is added to the logger. There is no object for an unknown type, and then
  \<open>ap->setLevel\<close> uses a null pointer.
\<close>

fun type_number :: "appender_type \<Rightarrow> nat" where
  "type_number AtUnknown = 0"
| "type_number AtStd = 1"
| "type_number AtFile = 2"

definition define_formatter :: "string \<Rightarrow> log_appender_define \<Rightarrow> ref \<Rightarrow> log_world \<Rightarrow> log_world" where
  "define_formatter name ad a w =
     (if ad_formatter ad = [] then w
      else
        (let fmt = LogFormatter (ad_formatter ad) in
         if \<not> formatter.m_error fmt then appender_setFormatter a (Some fmt) w
         else cout (red (''[MOCKER ERROR]logger name='' @ name @ '' appender type='' @ show_nat (type_number (ad_type ad))
                          @ '' formatter='' @ ad_formatter ad @ '' is invalid'')) w))"

definition add_define :: "log_env \<Rightarrow> string \<Rightarrow> ref \<Rightarrow> log_appender_define \<Rightarrow> (log_world, unit) eff" where
  "add_define env name l ad w =
     (case (case ad_type ad of
              AtStd \<Rightarrow> Some (new_StdoutLogAppender UNKNOWN)
            | AtFile \<Rightarrow> Some (new_FileLogAppender env (ad_file ad) UNKNOWN)
            | AtUnknown \<Rightarrow> None) of
        None \<Rightarrow> (Inl (Null_pointer ''ap''), w)
      | Some x \<Rightarrow>
          (case alloc_appender x w of (a, w1) \<Rightarrow>
             addAppender l (Some a) (define_formatter name ad a (appender_setLevel a (ad_level ad) w1))))"

text \<open>
  One definition of a logger. \<open>logger\<close> stays null for a definition that the old set has unchanged.
\<close>

definition apply_define :: "log_env \<Rightarrow> log_define list \<Rightarrow> log_define \<Rightarrow> (log_world, unit) eff" where
  "apply_define env old_value i w =
     (if (case oset_find ld_less i old_value of None \<Rightarrow> True | Some it \<Rightarrow> \<not> ld_eq i it) then
        (case getLogger (ld_name i) w of (l, w1) \<Rightarrow>
           (let w2 = logger_setLevel l (ld_level i) w1;
                w3 = (if ld_formatter i \<noteq> [] then setFormatter_string l (ld_formatter i) w2 else w2)
            in efor (add_define env (ld_name i) l) (ld_appenders i) (clearAppender l w3)))
      else (Inl (Null_pointer ''logger''), w))"

text \<open>A definition that is gone: its logger gets the level \<open>REMOVED\<close> and loses its appenders.\<close>

definition remove_define :: "log_define list \<Rightarrow> log_define \<Rightarrow> log_world \<Rightarrow> log_world" where
  "remove_define new_value i w =
     (if oset_find ld_less i new_value = None then
        (case getLogger (ld_name i) w of (l, w1) \<Rightarrow> clearAppender l (logger_setLevel l REMOVED w1))
      else w)"

text \<open>The listener; \<open>note\<close> is the event of its first statement, "on logger configuration changed".\<close>

definition log_listener :: "log_env \<Rightarrow> log_event \<Rightarrow> log_define list \<Rightarrow> log_define list \<Rightarrow> (log_world, unit) eff"
  where
  "log_listener env note old_value new_value =
     ebind (\<lambda>w. log env (w_root w) INFO note w) (\<lambda>_.
     ebind (efor (apply_define env old_value) new_value) (\<lambda>_.
       emodify (fold (remove_define new_value) old_value)))"

end
