(* ===== verification/Log_Config_Cast.thy ===== *)
theory Log_Config_Cast
  imports Log_Config
begin

text \<open>
  The text form of logger definitions: what is read back from what was written, and what becomes of
  an appender whose type the code does not know.
\<close>

lemma lift_bind [simp]:
  "ebind (lift (Inr x)) f s = f x s" "ebind (lift (Inl e)) f s = (Inl e, s)"
  by (simp_all add: ebind_def lift_def)

text \<open>Reading the keys of a node that was written as a map.\<close>

lemma get_defined_map:
  assumes "yaml_laws Y" and "distinct (map fst ps)"
  shows "get_defined Y (y_map Y ps) k =
    Inr (case map_of ps k of None \<Rightarrow> None | Some v \<Rightarrow> if y_IsDefined Y v then Some v else None)"
proof (cases "map_of ps k")
  case None
  then obtain u where "y_get Y (y_map Y ps) k = Inr u" "\<not> y_IsDefined Y u"
    using yaml_lawsD(5) [OF assms] by blast
  with None show ?thesis by (simp add: get_defined_def)
next
  case (Some v)
  with yaml_lawsD(4) [OF assms Some] show ?thesis by (simp add: get_defined_def)
qed

lemma get_string_map:
  assumes "yaml_laws Y" and "distinct (map fst ps)" and "map_of ps k = map_option (y_str Y) s"
  shows "get_string Y (y_map Y ps) k = Inr s"
  using assms(3) yaml_lawsD(7,8) [OF assms(1)]
  by (cases s) (simp_all add: get_string_def get_defined_map [OF assms(1,2)])

text \<open>The definitions that can be written: known types, no file for a standard output appender, and no
  level \<open>REMOVED\<close>, which has no text.\<close>

definition writable_lad :: "log_appender_define \<Rightarrow> bool" where
  "writable_lad ap \<longleftrightarrow> ad_type ap \<noteq> AtUnknown \<and> (ad_type ap = AtStd \<longrightarrow> ad_file ap = []) \<and> ad_level ap \<noteq> REMOVED"

lemma level_of_text:
  "l \<noteq> REMOVED \<Longrightarrow> level_of (if l \<noteq> UNKNOWN then Some (ToString l) else None) = l"
  by (simp add: level_of_def FromString_ToString)

lemma level_of_Some: "l \<noteq> REMOVED \<Longrightarrow> level_of (Some (ToString l)) = l"
  by (simp add: level_of_def FromString_ToString)

text \<open>What is read from a node of an appender, by the strings under its keys.\<close>

lemma appender_define_keys:
  assumes laws: "yaml_laws Y" and d: "distinct (map fst ps)"
    and ty: "map_of ps ''type'' = Some (y_str Y ty)" and lev: "map_of ps ''level'' = map_option (y_str Y) lev"
    and fmt: "map_of ps ''formatter'' = map_option (y_str Y) fmt" and fil: "map_of ps ''file'' = map_option (y_str Y) fil"
    and known: "ty = ''StdoutLogAppender'' \<or> ty = ''FileLogAppender'' \<and> fil \<noteq> None"
  shows "appender_define Y node (y_map Y ps) out =
    (Inr (Some \<lparr>ad_type = (if ty = ''FileLogAppender'' then AtFile else AtStd), ad_level = level_of lev,
                ad_formatter = case_option [] (\<lambda>x. x) fmt,
                ad_file = (if ty = ''FileLogAppender'' then the fil else [])\<rparr>), out)"
proof -
  have "get_string Y (y_map Y ps) ''type'' = Inr (Some ty)"
    by (rule get_string_map [OF laws d]) (simp add: ty)
  moreover note get_string_map [OF laws d lev] get_string_map [OF laws d fmt] get_string_map [OF laws d fil]
  ultimately show ?thesis
    using known by (auto simp: appender_define_def new_LogAppenderDefine_def Let_def)
qed

lemma appender_node_ok: "yaml_node Y (appender_node Y ap)"
  unfolding appender_node_def by (rule strings_node) (auto split: appender_type.splits)

lemma appender_define_node:
  assumes "yaml_laws Y" and "writable_lad ap"
  shows "appender_define Y node (appender_node Y ap) out = (Inr (Some ap), out)"
proof -
  let ?ty = "if ad_type ap = AtFile then ''FileLogAppender'' else ''StdoutLogAppender''"
  let ?lev = "if ad_level ap \<noteq> UNKNOWN then Some (ToString (ad_level ap)) else None"
  let ?fmt = "if ad_formatter ap \<noteq> [] then Some (ad_formatter ap) else None"
  let ?fil = "if ad_type ap = AtFile then Some (ad_file ap) else None"
  have "ad_type ap \<noteq> AtUnknown" "ad_level ap \<noteq> REMOVED" "ad_type ap = AtStd \<longrightarrow> ad_file ap = []"
    using assms(2) by (simp_all add: writable_lad_def)
  then show ?thesis
    unfolding appender_node_def
    by (subst appender_define_keys [OF assms(1), where ty = ?ty and lev = ?lev and fmt = ?fmt and fil = ?fil])
      (cases "ad_type ap"; simp add: level_of_text)+
qed

lemma appender_defines_nodes:
  assumes "yaml_laws Y" and "\<forall>ap \<in> set aps. writable_lad ap"
  shows "appender_defines Y node (map (appender_node Y) aps) out = (Inr aps, out)"
  using assms(2)
  by (induction aps) (simp_all add: ebind_def appender_define_node [OF assms(1)])

text \<open>What is read from the text of a logger's node.\<close>

lemma LogDefine_from_keys:
  assumes laws: "yaml_laws Y" and d: "distinct (map fst ps)"
    and nm: "map_of ps ''name'' = Some (y_str Y nm)" and lev: "map_of ps ''level'' = map_option (y_str Y) lev"
    and fmt: "map_of ps ''formatter'' = map_option (y_str Y) fmt"
    and aps: "map_of ps ''appenders'' = (if ns = [] then None else Some (y_seq Y ns))"
    and defs: "appender_defines Y (y_map Y ps) ns out = (Inr defs, out)" and node: "yaml_node Y (y_map Y ps)"
  shows "LogDefine_from_str Y (y_Emit Y (y_map Y ps)) out =
    (Inr \<lparr>ld_name = nm, ld_level = level_of lev, ld_formatter = case_option [] (\<lambda>x. x) fmt, ld_appenders = defs\<rparr>, out)"
proof -
  note laws' = yaml_lawsD(1) [OF laws node] yaml_lawsD(2-) [OF laws]
  have "get_defined Y (y_map Y ps) ''name'' = Inr (Some (y_str Y nm))"
    by (simp add: get_defined_map [OF laws d] nm laws'(8))
  moreover have "y_get Y (y_map Y ps) ''name'' = Inr (y_str Y nm)" by (rule laws'(4) [OF d nm])
  moreover have "get_defined Y (y_map Y ps) ''appenders'' = Inr (if ns = [] then None else Some (y_seq Y ns))"
    using laws'(9) by (simp add: get_defined_map [OF laws d] aps)
  moreover note get_string_map [OF laws d lev] get_string_map [OF laws d fmt]
  moreover have "ebind (appender_defines Y (y_map Y ps) ns) f out = f defs out" for f :: "_ \<Rightarrow> (string, log_define) eff"
    by (simp add: ebind_def defs)
  ultimately show ?thesis
    using defs by (cases "ns = []") (simp_all add: LogDefine_from_str_def laws'(1,2,7), simp add: ebind_def)
qed

lemma LogDefine_reads_back:
  assumes "yaml_laws Y" and "ld_level d \<noteq> REMOVED" and "\<forall>ap \<in> set (ld_appenders d). writable_lad ap"
  shows "\<exists>s. LogDefine_to_str Y d = Inr s \<and> LogDefine_from_str Y s out = (Inr d, out)"
proof -
  let ?fmt = "if ld_formatter d \<noteq> [] then Some (ld_formatter d) else None"
  let ?nodes = "map (appender_node Y) (ld_appenders d)"
  show ?thesis
    unfolding LogDefine_to_str_def
    by (subst Inr_inject, simp, subst LogDefine_from_keys [OF assms(1), where nm = "ld_name d" and fmt = ?fmt
        and lev = "Some (ToString (ld_level d))" and ns = ?nodes])
      (auto simp: appender_defines_nodes [OF assms(1,3)] level_of_Some assms(2)
        intro!: yaml_node.map yaml_node.seq appender_node_ok intro: yaml_node.str)
qed

text \<open>C22. A definition of a logger survives its text form, with a YAML library that reads back what it wrote, if its level and those of its appenders are not the
  mark of removal, each appender has one of the two known types, and one for the standard output has no file
  name (which is not written): what \<open>LexicalCast<LogDefine, std::string>\<close> wrote is read back as the same
  definition, appenders included, and nothing is printed.\<close>

theorem LogDefine_roundtrip:
  assumes "yaml_laws Y" and "ld_level d \<noteq> REMOVED" and "\<forall>ap \<in> set (ld_appenders d). writable_lad ap"
  shows "\<exists>s. LogDefine_to_str Y d = Inr s \<and> LogDefine_from_str Y s out = (Inr d, out)"
  by (rule LogDefine_reads_back [OF assms])

text \<open>An appender whose type is neither of the two known ones is reported when it is read but kept as
  a definition without a type (there is no \<open>continue\<close> as for the other two errors), and applying
  such a definition uses a null pointer.\<close>

theorem unknown_appender_type_crashes:
  assumes "get_string Y ap ''type'' = Inr (Some ty)" and "ty \<noteq> ''FileLogAppender''" and "ty \<noteq> ''StdoutLogAppender''"
    and "get_string Y ap ''level'' = Inr lev"
  shows "\<exists>lad msg. appender_define Y node ap out = (Inr (Some lad), out @ msg) \<and> msg \<noteq> []
    \<and> ad_type lad = AtUnknown \<and> fst (add_define env name l lad w) = Inl (Null_pointer ''ap'')"
  using assms
  by (simp add: appender_define_def complain_def red_def new_LogAppenderDefine_def add_define_def Let_def)

text \<open>Two definitions that differ only in their appenders compare equal, so setting the variable
  \<open>logs\<close> to definitions with the same names, levels and formatters changes nothing, whatever their
  appenders are: the value is not stored and no listener runs.\<close>

theorem appender_changes_are_ignored:
  assumes "veq env (cv_type (the_var c p)) = oset_eq ld_eq"
    and "map (\<lambda>d. (ld_name d, ld_level d, ld_formatter d)) v
       = map (\<lambda>d. (ld_name d, ld_level d, ld_formatter d)) (cv_val (the_var c p))"
  shows "setValue env p v c = (Inr (), c)"
proof -
  have refl: "list_all2 lad_eq aps aps" for aps by (induction aps) (simp_all add: lad_eq_def)
  have "list_all2 ld_eq xs ys"
    if "map (\<lambda>d. (ld_name d, ld_level d, ld_formatter d)) xs = map (\<lambda>d. (ld_name d, ld_level d, ld_formatter d)) ys"
    for xs ys
    using that by (induction xs arbitrary: ys) (auto simp: ld_eq_def refl)
  with assms show ?thesis by (simp add: setValue_def oset_eq_def Let_def)
qed

end
