(* ===== verification/Log_Config_Apply.thy ===== *)
theory Log_Config_Apply
  imports Log_Config_Cast
begin

text \<open>
  Applying a set of definitions to the loggers: after the listener has run, every defined logger
  has the level, the formatter and exactly the appenders of its definition, and the loggers whose
  definition is gone are silent. A definition that did not change stops the listener.
\<close>

section \<open>One appender\<close>

definition kind_of :: "appender_type \<Rightarrow> appender_kind" where
  "kind_of ty = (if ty = AtFile then FileLogAppender else StdoutLogAppender)"

text \<open>The appender at \<open>a\<close> is what \<open>ad\<close> defines, for a logger with the formatter \<open>f\<close>.\<close>

definition ap_matches :: "log_world \<Rightarrow> formatter option \<Rightarrow> log_appender_define \<Rightarrow> ref \<Rightarrow> bool" where
  "ap_matches w f ad a \<longleftrightarrow> (\<exists>y. w_appenders w a = Some y \<and> ap_kind y = kind_of (ad_type ad)
     \<and> ap_level y = ad_level ad \<and> (ad_type ad = AtFile \<longrightarrow> ap_filename y = ad_file ad)
     \<and> (ap_hasFormatter y \<longleftrightarrow> ad_formatter ad \<noteq> [] \<and> \<not> formatter.m_error (LogFormatter (ad_formatter ad)))
     \<and> ap_formatter y = (if ad_formatter ad \<noteq> [] \<and> \<not> formatter.m_error (LogFormatter (ad_formatter ad))
                         then Some (LogFormatter (ad_formatter ad)) else f))"

definition base_appender :: "log_env \<Rightarrow> log_appender_define \<Rightarrow> appender" where
  "base_appender env ad =
     (if ad_type ad = AtFile then new_FileLogAppender env (ad_file ad) UNKNOWN else new_StdoutLogAppender UNKNOWN)"

lemma base_appender_simps [simp]:
  "ap_kind (base_appender env ad) = kind_of (ad_type ad)" "\<not> ap_hasFormatter (base_appender env ad)"
  "ap_formatter (base_appender env ad) = None"
  "ad_type ad = AtFile \<Longrightarrow> ap_filename (base_appender env ad) = ad_file ad"
  by (simp_all add: base_appender_def kind_of_def new_FileLogAppender_def new_StdoutLogAppender_def)

lemma log_ok_cout: "log_ok w \<Longrightarrow> log_ok (cout s w)"
  using log_ok_same_setup [of w "cout s w"] by (simp add: same_setup_def settings_def)

lemma add_define_ok:
  assumes ok: "log_ok w" and l: "w_loggers w l = Some x" and ty: "ad_type ad \<noteq> AtUnknown"
  shows "\<exists>w'. add_define env name l ad w = (Inr (), w') \<and> log_ok w' \<and> w_next w' = w_next w + 1
    \<and> w_loggers w' = (w_loggers w)(l \<mapsto> x\<lparr>lg_appenders := lg_appenders x @ [w_next w]\<rparr>)
    \<and> w_registry w' = w_registry w \<and> w_root w' = w_root w
    \<and> (\<forall>b. b \<noteq> w_next w \<longrightarrow> w_appenders w' b = w_appenders w b)
    \<and> ap_matches w' (lg_formatter x) ad (w_next w)"
proof -
  let ?a = "w_next w" and ?y = "base_appender env ad"
  let ?w1 = "(put_appender ?a ?y w)\<lparr>w_next := w_next w + 1\<rparr>"
  let ?w2 = "appender_setLevel ?a (ad_level ad) ?w1"
  let ?w3 = "define_formatter name ad ?a ?w2"
  have alloc: "alloc_appender ?y w = (?a, ?w1)" by (simp add: alloc_appender_def)
  have ok1: "log_ok ?w1" by (rule log_ok_alloc [OF ok _ _ alloc]) simp_all
  have ok2: "log_ok ?w2" by (rule log_ok_step [OF log_step.ap_level ok1]) simp
  have a2: "w_appenders ?w2 ?a = Some (?y\<lparr>ap_level := ad_level ad\<rparr>)"
    by (simp add: appender_setLevel_def put_appender_def the_appender_def)
  have ok3: "log_ok ?w3"
    using ok2 log_ok_step [OF log_step.ap_format ok2, of ?a] a2
    by (auto simp: define_formatter_def Let_def log_ok_cout)
  have frame3: "w_loggers ?w3 = w_loggers w" "w_registry ?w3 = w_registry w" "w_root ?w3 = w_root w"
    "w_next ?w3 = w_next w + 1" "\<forall>b. b \<noteq> ?a \<longrightarrow> w_appenders ?w3 b = w_appenders w b"
    by (simp_all add: define_formatter_def appender_setLevel_def appender_setFormatter_def Let_def)
  let ?own = "ad_formatter ad \<noteq> [] \<and> \<not> formatter.m_error (LogFormatter (ad_formatter ad))"
  have a3: "w_appenders ?w3 ?a = Some (?y\<lparr>ap_level := ad_level ad, ap_hasFormatter := ?own,
      ap_formatter := (if ?own then Some (LogFormatter (ad_formatter ad)) else None)\<rparr>)"
    using a2 by (simp add: define_formatter_def appender_setFormatter_def Let_def)
  obtain r w' where add: "addAppender l (Some ?a) ?w3 = (r, w')" by (cases "addAppender l (Some ?a) ?w3")
  have l3: "w_loggers ?w3 l = Some x" using l frame3(1) by simp
  have res: "log_ok w' \<and> r = Inr ()" by (rule add_log_ok [OF ok3 l3 a3 add])
  have "add_define env name l ad w = (r, w')"
    using ty alloc add by (cases "ad_type ad") (simp_all add: add_define_def base_appender_def)
  moreover have "w_next w' = w_next w + 1 \<and> w_registry w' = w_registry w \<and> w_root w' = w_root w
      \<and> w_loggers w' = (w_loggers w)(l \<mapsto> x\<lparr>lg_appenders := lg_appenders x @ [?a]\<rparr>)
      \<and> (\<forall>b. b \<noteq> ?a \<longrightarrow> w_appenders w' b = w_appenders w b)"
    using add frame3 l3 by (auto simp: addAppender_def Let_def split: if_splits)
  moreover have "ap_matches w' (lg_formatter x) ad ?a"
    using add a3 l3 by (auto simp: addAppender_def appender_getFormatter_def ap_matches_def Let_def split: if_splits)
  ultimately show ?thesis using res by blast
qed

lemma ap_matches_frame:
  "w_appenders w' a = w_appenders w a \<Longrightarrow> ap_matches w' f ad a = ap_matches w f ad a"
  by (simp add: ap_matches_def)

lemma add_defines_ok:
  assumes "log_ok w" and "w_loggers w l = Some x" and "\<forall>ad \<in> set ads. ad_type ad \<noteq> AtUnknown"
  shows "\<exists>w' as. efor (add_define env name l) ads w = (Inr (), w') \<and> log_ok w'
    \<and> as = [w_next w..<w_next w + length ads] \<and> w_next w' = w_next w + length ads
    \<and> w_loggers w' = (w_loggers w)(l \<mapsto> x\<lparr>lg_appenders := lg_appenders x @ as\<rparr>)
    \<and> w_registry w' = w_registry w \<and> w_root w' = w_root w
    \<and> (\<forall>b < w_next w. w_appenders w' b = w_appenders w b)
    \<and> list_all2 (ap_matches w' (lg_formatter x)) ads as"
  using assms
proof (induction ads arbitrary: w x)
  case Nil
  then show ?case by (auto simp: fun_upd_idem_iff)
next
  case (Cons ad ads)
  let ?x1 = "x\<lparr>lg_appenders := lg_appenders x @ [w_next w]\<rparr>"
  obtain w1 where w1: "add_define env name l ad w = (Inr (), w1)" "log_ok w1" "w_next w1 = w_next w + 1"
    "w_loggers w1 = (w_loggers w)(l \<mapsto> ?x1)" "w_registry w1 = w_registry w" "w_root w1 = w_root w"
    "\<forall>b. b \<noteq> w_next w \<longrightarrow> w_appenders w1 b = w_appenders w b" "ap_matches w1 (lg_formatter x) ad (w_next w)"
    using add_define_ok [OF Cons.prems(1,2), of ad env name] Cons.prems(3) by auto
  obtain w' as where w': "efor (add_define env name l) ads w1 = (Inr (), w')" "log_ok w'"
    "as = [w_next w1..<w_next w1 + length ads]" "w_next w' = w_next w1 + length ads"
    "w_loggers w' = (w_loggers w1)(l \<mapsto> ?x1\<lparr>lg_appenders := lg_appenders ?x1 @ as\<rparr>)"
    "w_registry w' = w_registry w1" "w_root w' = w_root w1"
    "\<forall>b < w_next w1. w_appenders w' b = w_appenders w1 b" "list_all2 (ap_matches w' (lg_formatter ?x1)) ads as"
  proof -
    have "w_loggers w1 l = Some ?x1" "\<forall>ad \<in> set ads. ad_type ad \<noteq> AtUnknown" using w1(4) Cons.prems(3) by simp_all
    from that Cons.IH [OF w1(2) this] show thesis by blast
  qed
  have as: "w_next w # as = [w_next w..<w_next w + length (ad # ads)]"
    using w'(3) w1(3) by (simp add: upt_conv_Cons del: upt_Suc)
  have "ap_matches w' (lg_formatter x) ad (w_next w)"
    using w1(8) w'(8) w1(3) ap_matches_frame [of w' "w_next w" w1] by simp
  then have "list_all2 (ap_matches w' (lg_formatter x)) (ad # ads) [w_next w..<w_next w + length (ad # ads)]"
    unfolding as [symmetric] using w'(9) by simp
  then show ?case
    using w1 w' as by (intro exI [of _ w'] exI [of _ "w_next w # as"]) (simp del: upt_Suc)
qed

section \<open>One logger\<close>

lemma setFormatter_string_frame:
  assumes l: "w_loggers w l = Some x"
  shows "w_loggers (setFormatter_string l val w) =
      (w_loggers w)(l \<mapsto> x\<lparr>lg_formatter := (if formatter.m_error (LogFormatter val) then lg_formatter x
                                       else Some (LogFormatter val))\<rparr>)
    \<and> w_registry (setFormatter_string l val w) = w_registry w \<and> w_root (setFormatter_string l val w) = w_root w
    \<and> w_next (setFormatter_string l val w) = w_next w
    \<and> (\<forall>b. b \<notin> set (lg_appenders x) \<longrightarrow> w_appenders (setFormatter_string l val w) b = w_appenders w b)"
proof -
  have "b \<notin> set as \<Longrightarrow> w_appenders (fold (inherit f) as v) b = w_appenders v b" for b f as v
    by (induction as arbitrary: v) (simp_all add: inherit_def)
  moreover have "x\<lparr>lg_formatter := lg_formatter x\<rparr> = x" by simp
  ultimately show ?thesis
    using l by (auto simp: setFormatter_string_def setFormatter_def Let_def fun_upd_idem_iff)
qed

text \<open>
  Logger \<open>l\<close> is what \<open>i\<close> defines; its appenders are at addresses from \<open>m\<close> up to \<open>n\<close>.
\<close>

definition is_defined :: "log_world \<Rightarrow> log_define \<Rightarrow> ref \<Rightarrow> ref \<Rightarrow> bool" where
  "is_defined w i m n \<longleftrightarrow> (\<exists>l x. map_of (w_registry w) (ld_name i) = Some l \<and> w_loggers w l = Some x
     \<and> lg_level x = ld_level i
     \<and> (ld_formatter i \<noteq> [] \<and> \<not> formatter.m_error (LogFormatter (ld_formatter i)) \<longrightarrow>
          lg_formatter x = Some (LogFormatter (ld_formatter i)))
     \<and> list_all2 (ap_matches w (lg_formatter x)) (ld_appenders i) (lg_appenders x)
     \<and> set (lg_appenders x) \<subseteq> {m..<n})"

text \<open>What the other loggers and their appenders notice of a step for the logger named \<open>nm\<close>.\<close>

definition apart :: "string \<Rightarrow> log_world \<Rightarrow> log_world \<Rightarrow> bool" where
  "apart nm w w' \<longleftrightarrow> w_next w \<le> w_next w' \<and> w_root w' = w_root w
     \<and> (\<forall>n. n \<noteq> nm \<longrightarrow> map_of (w_registry w') n = map_of (w_registry w) n)
     \<and> (\<forall>k. map_of (w_registry w') nm \<noteq> Some k \<longrightarrow> w_loggers w' k = w_loggers w k)
     \<and> (\<forall>b < w_next w. (\<forall>k x. map_of (w_registry w) nm = Some k \<and> w_loggers w k = Some x \<longrightarrow>
            b \<notin> set (lg_appenders x)) \<longrightarrow> w_appenders w' b = w_appenders w b)"

lemma getLogger_ok:
  assumes ok: "log_ok w" and get: "getLogger nm w = (l, w1)"
  shows "\<exists>x. w_loggers w1 l = Some x \<and> log_ok w1 \<and> w_next w \<le> w_next w1 \<and> w_root w1 = w_root w
    \<and> map_of (w_registry w1) = (map_of (w_registry w))(nm \<mapsto> l) \<and> w_appenders w1 = w_appenders w
    \<and> (\<forall>k. k \<noteq> l \<longrightarrow> w_loggers w1 k = w_loggers w k) \<and> lg_name x = nm
    \<and> (map_of (w_registry w) nm = Some l \<and> w_loggers w l = Some x \<or> lg_appenders x = [])"
proof -
  have ok1: "log_ok w1" by (rule log_ok_get [OF ok get])
  have reg: "map_of (w_registry w1) = (map_of (w_registry w))(nm \<mapsto> l)"
    by (rule loggers.make_registers [OF log_okD(1) [OF ok] TrueI get])
  then have "map_of (w_registry w1) nm = Some l" by simp
  then obtain x where x: "w_loggers w1 l = Some x" "lg_name x = nm"
    using log_okD(1) [OF ok1] unfolding registry_ok_def by blast
  show ?thesis
  proof (cases "map_of (w_registry w) nm")
    case None
    then have w1: "l = w_next w" "w1 = (put_logger (w_next w) ((new_Logger nm)\<lparr>lg_root := Some (w_root w)\<rparr>) w)
        \<lparr>w_next := w_next w + 1, w_registry := smap_put nm (w_next w) (w_registry w)\<rparr>"
      using get by (auto simp: getLogger_new)
    then have "lg_appenders x = []" using x by (auto simp: new_Logger_def)
    with ok1 reg x w1 show ?thesis by (intro exI [of _ x]) simp
  next
    case (Some k)
    with get have "l = k" "w1 = w" by (simp_all add: getLogger_found)
    with ok1 reg x Some show ?thesis by auto
  qed
qed

lemma apply_define_ok:
  assumes ok: "log_ok w" and known: "\<forall>ad \<in> set (ld_appenders i). ad_type ad \<noteq> AtUnknown"
    and changed: "\<forall>it. oset_find ld_less i old = Some it \<longrightarrow> \<not> ld_eq i it"
  shows "\<exists>w'. apply_define env old i w = (Inr (), w') \<and> log_ok w' \<and> is_defined w' i (w_next w) (w_next w')
    \<and> apart (ld_name i) w w'"
proof -
  obtain l w1 where get: "getLogger (ld_name i) w = (l, w1)" by (cases "getLogger (ld_name i) w")
  obtain x where x: "w_loggers w1 l = Some x" "log_ok w1" "w_next w \<le> w_next w1" "w_root w1 = w_root w"
    "map_of (w_registry w1) = (map_of (w_registry w))(ld_name i \<mapsto> l)" "w_appenders w1 = w_appenders w"
    "\<forall>k. k \<noteq> l \<longrightarrow> w_loggers w1 k = w_loggers w k"
    "map_of (w_registry w) (ld_name i) = Some l \<and> w_loggers w l = Some x \<or> lg_appenders x = []"
    using getLogger_ok [OF ok get] by blast
  let ?err = "formatter.m_error (LogFormatter (ld_formatter i))"
  let ?w2 = "logger_setLevel l (ld_level i) w1"
  let ?w3 = "if ld_formatter i \<noteq> [] then setFormatter_string l (ld_formatter i) ?w2 else ?w2"
  let ?w4 = "clearAppender l ?w3"
  let ?f = "if ld_formatter i \<noteq> [] \<and> \<not> ?err then Some (LogFormatter (ld_formatter i)) else lg_formatter x"
  have ok2: "log_ok ?w2" by (rule log_ok_step [OF log_step.level x(2)]) (simp add: x(1))
  have l2: "w_loggers ?w2 l = Some (x\<lparr>lg_level := ld_level i\<rparr>)" by (simp add: logger_setLevel_def x(1))
  have ok3: "log_ok ?w3"
    using ok2 log_ok_step [OF log_step.format_string ok2, of l] l2 by auto
  have frame3: "w_loggers ?w3 = (w_loggers w1)(l \<mapsto> x\<lparr>lg_level := ld_level i, lg_formatter := ?f\<rparr>)"
    "w_registry ?w3 = w_registry w1" "w_root ?w3 = w_root w1" "w_next ?w3 = w_next w1"
    "\<forall>b. b \<notin> set (lg_appenders x) \<longrightarrow> w_appenders ?w3 b = w_appenders w1 b"
    using setFormatter_string_frame [OF l2, of "ld_formatter i"] x(1) by (auto simp: logger_setLevel_def)
  let ?x4 = "x\<lparr>lg_level := ld_level i, lg_formatter := ?f, lg_appenders := []\<rparr>"
  have l3: "w_loggers ?w3 l = Some (x\<lparr>lg_level := ld_level i, lg_formatter := ?f\<rparr>)" using frame3(1) by simp
  have ok4: "log_ok ?w4" by (rule log_ok_step [OF log_step.clear ok3]) (simp add: l3)
  have frame4: "w_loggers ?w4 = (w_loggers w1)(l \<mapsto> ?x4)" "w_registry ?w4 = w_registry w1"
    "w_root ?w4 = w_root w1" "w_next ?w4 = w_next w1" "w_appenders ?w4 = w_appenders ?w3"
    using frame3 l3 by (simp_all add: clearAppender_def)
  then have l4: "w_loggers ?w4 l = Some ?x4" by simp
  obtain w' as where w': "efor (add_define env (ld_name i) l) (ld_appenders i) ?w4 = (Inr (), w')" "log_ok w'"
    "as = [w_next ?w4..<w_next ?w4 + length (ld_appenders i)]" "w_next w' = w_next ?w4 + length (ld_appenders i)"
    "w_loggers w' = (w_loggers ?w4)(l \<mapsto> ?x4\<lparr>lg_appenders := lg_appenders ?x4 @ as\<rparr>)"
    "w_registry w' = w_registry ?w4" "w_root w' = w_root ?w4"
    "\<forall>b < w_next ?w4. w_appenders w' b = w_appenders ?w4 b"
    "list_all2 (ap_matches w' (lg_formatter ?x4)) (ld_appenders i) as"
    using add_defines_ok [OF ok4 l4 known, of env "ld_name i"] by blast
  have "apply_define env old i w = (Inr (), w')"
    using changed w'(1) get by (auto simp: apply_define_def Let_def split: option.split)
  moreover have "is_defined w' i (w_next w) (w_next w')"
    unfolding is_defined_def
    by (rule exI [of _ l], rule exI [of _ "?x4\<lparr>lg_appenders := as\<rparr>"])
      (use w' frame4 x(3,5) in auto)
  moreover have "apart (ld_name i) w w'"
    unfolding apart_def
  proof (intro conjI allI impI)
    fix b
    assume b: "b < w_next w" "\<forall>k x. map_of (w_registry w) (ld_name i) = Some k \<and> w_loggers w k = Some x \<longrightarrow>
        b \<notin> set (lg_appenders x)"
    then have "b \<notin> set (lg_appenders x)" using x(8) by auto
    then show "w_appenders w' b = w_appenders w b" using w'(8) frame4(4,5) frame3(5) x(3,6) b(1) by simp
  qed (use w' frame4 x(3,4,5,7) in \<open>auto split: if_splits\<close>)
  ultimately show ?thesis using w'(2) by blast
qed

section \<open>All loggers\<close>

lemma ld_less_linear: "ld_less i j \<or> ld_less j i \<longleftrightarrow> ld_name i \<noteq> ld_name j"
  by (auto simp: ld_less_def)

lemma oset_find_define: "oset_find ld_less i xs = None \<longleftrightarrow> ld_name i \<notin> ld_name ` set xs"
  by (auto simp: oset_find_None ld_less_linear)

text \<open>
  Between two definitions: those that were applied describe their loggers, whose appenders were made
  since the listener started at address \<open>s\<close>; the appenders of all other loggers are older.
\<close>

definition progress :: "ref \<Rightarrow> log_define list \<Rightarrow> log_world \<Rightarrow> bool" where
  "progress s ds w \<longleftrightarrow> log_ok w \<and> s \<le> w_next w \<and> (\<forall>i \<in> set ds. is_defined w i s (w_next w))
     \<and> (\<forall>n k x. n \<notin> ld_name ` set ds \<and> map_of (w_registry w) n = Some k \<and> w_loggers w k = Some x \<longrightarrow>
          (\<forall>a \<in> set (lg_appenders x). a < s))"

lemma is_definedI:
  assumes "map_of (w_registry w) (ld_name i) = Some l" and "w_loggers w l = Some x" and "lg_level x = ld_level i"
    and "ld_formatter i \<noteq> [] \<Longrightarrow> \<not> formatter.m_error (LogFormatter (ld_formatter i)) \<Longrightarrow>
          lg_formatter x = Some (LogFormatter (ld_formatter i))"
    and "list_all2 (ap_matches w (lg_formatter x)) (ld_appenders i) (lg_appenders x)"
    and "set (lg_appenders x) \<subseteq> {m..<n}"
  shows "is_defined w i m n"
  using assms unfolding is_defined_def by blast

lemma is_definedE:
  assumes "is_defined w i m n"
  obtains l x where "map_of (w_registry w) (ld_name i) = Some l" "w_loggers w l = Some x" "lg_level x = ld_level i"
    "ld_formatter i \<noteq> [] \<and> \<not> formatter.m_error (LogFormatter (ld_formatter i)) \<longrightarrow>
          lg_formatter x = Some (LogFormatter (ld_formatter i))"
    "list_all2 (ap_matches w (lg_formatter x)) (ld_appenders i) (lg_appenders x)"
    "set (lg_appenders x) \<subseteq> {m..<n}"
  using assms unfolding is_defined_def by blast

lemma registry_names:
  assumes "log_ok w" and "map_of (w_registry w) n = Some l" and "map_of (w_registry w) m = Some l"
  shows "n = m"
proof -
  obtain x where "w_loggers w l = Some x" "lg_name x = n"
    using log_okD(1) [OF assms(1)] assms(2) unfolding registry_ok_def by blast
  moreover obtain y where "w_loggers w l = Some y" "lg_name y = m"
    using log_okD(1) [OF assms(1)] assms(3) unfolding registry_ok_def by blast
  ultimately show ?thesis by simp
qed

lemma is_defined_apart:
  assumes def: "is_defined w j s n" and n: "n \<le> w_next w" and ok: "log_ok w'" and ap: "apart nm w w'"
    and other: "ld_name j \<noteq> nm"
    and old: "\<forall>k x. map_of (w_registry w) nm = Some k \<and> w_loggers w k = Some x \<longrightarrow> (\<forall>a \<in> set (lg_appenders x). a < s)"
    and m: "n \<le> m"
  shows "is_defined w' j s m"
proof -
  obtain l x where l: "map_of (w_registry w) (ld_name j) = Some l" "w_loggers w l = Some x" "lg_level x = ld_level j"
    "ld_formatter j \<noteq> [] \<and> \<not> formatter.m_error (LogFormatter (ld_formatter j)) \<longrightarrow>
          lg_formatter x = Some (LogFormatter (ld_formatter j))"
    "list_all2 (ap_matches w (lg_formatter x)) (ld_appenders j) (lg_appenders x)" "set (lg_appenders x) \<subseteq> {s..<n}"
    using def by (rule is_definedE)
  have reg: "map_of (w_registry w') (ld_name j) = Some l" using ap other l(1) unfolding apart_def by simp
  then have "map_of (w_registry w') nm \<noteq> Some l" using registry_names [OF ok reg, of nm] other by auto
  then have lg: "w_loggers w' l = Some x" using ap l(2) unfolding apart_def by simp
  have "w_appenders w' a = w_appenders w a" if "a \<in> set (lg_appenders x)" for a
  proof -
    have a: "s \<le> a" "a < w_next w" using l(6) n that by (auto simp: subset_iff)
    then have "\<forall>k x. map_of (w_registry w) nm = Some k \<and> w_loggers w k = Some x \<longrightarrow> a \<notin> set (lg_appenders x)"
      using old by fastforce
    with ap a(2) show ?thesis unfolding apart_def by blast
  qed
  then have same: "a \<in> set (lg_appenders x) \<Longrightarrow> ap_matches w' f ad a = ap_matches w f ad a" for f ad a
    by (intro ap_matches_frame)
  have matches: "list_all2 (ap_matches w' (lg_formatter x)) (ld_appenders j) (lg_appenders x)"
    by (rule list.rel_mono_strong [OF l(5)]) (simp add: same)
  have "set (lg_appenders x) \<subseteq> {s..<m}" using l(6) m by (auto simp: subset_iff)
  with l(4) show ?thesis by (intro is_definedI [OF reg lg l(3) _ matches]) auto
qed

lemma progress_start: "log_ok w \<Longrightarrow> progress (w_next w) [] w"
proof -
  assume ok: "log_ok w"
  have "a < w_next w" if "w_loggers w k = Some x" "a \<in> set (lg_appenders x)" for k x a
  proof -
    have "w_appenders w a \<noteq> None" using log_okD(5) [OF ok that] by (simp add: has_formatter_def)
    then show ?thesis by (rule log_okD(3) [OF ok])
  qed
  then show ?thesis using ok by (auto simp: progress_def)
qed

lemma progress_step:
  assumes prog: "progress s ds w" and new: "ld_name i \<notin> ld_name ` set ds"
    and known: "\<forall>ad \<in> set (ld_appenders i). ad_type ad \<noteq> AtUnknown"
    and changed: "\<forall>it. oset_find ld_less i old = Some it \<longrightarrow> \<not> ld_eq i it"
  shows "\<exists>w'. apply_define env old i w = (Inr (), w') \<and> progress s (ds @ [i]) w' \<and> apart (ld_name i) w w'"
proof -
  have ok: "log_ok w" "s \<le> w_next w" using prog unfolding progress_def by blast+
  obtain w' where w': "apply_define env old i w = (Inr (), w')" "log_ok w'" "is_defined w' i (w_next w) (w_next w')"
    "apart (ld_name i) w w'"
    using apply_define_ok [OF ok(1) known changed, of env] by blast
  have next': "w_next w \<le> w_next w'" using w'(4) unfolding apart_def by blast
  have older: "\<forall>k x. map_of (w_registry w) (ld_name i) = Some k \<and> w_loggers w k = Some x \<longrightarrow>
      (\<forall>a \<in> set (lg_appenders x). a < s)"
    using prog new unfolding progress_def by blast
  have "is_defined w' j s (w_next w')" if j: "j \<in> set ds" for j
  proof (rule is_defined_apart [OF _ order_refl w'(2,4) _ older next'])
    show "is_defined w j s (w_next w)" using prog j unfolding progress_def by blast
    show "ld_name j \<noteq> ld_name i" using new imageI [OF j, of ld_name] by metis
  qed
  moreover have "is_defined w' i s (w_next w')"
    using w'(3) ok(2) unfolding is_defined_def by (fastforce simp: subset_iff)
  moreover have "\<forall>a \<in> set (lg_appenders x). a < s"
    if n: "n \<notin> ld_name ` set (ds @ [i])" "map_of (w_registry w') n = Some k" "w_loggers w' k = Some x" for n k x
  proof -
    have ne: "n \<noteq> ld_name i" "n \<notin> ld_name ` set ds" using n(1) by auto
    have reg: "map_of (w_registry w) n = Some k" using w'(4) n(2) ne(1) unfolding apart_def by simp
    have "map_of (w_registry w') (ld_name i) \<noteq> Some k" using registry_names [OF w'(2) n(2)] ne(1) by auto
    then have "w_loggers w k = Some x" using w'(4) n(3) unfolding apart_def by simp
    with reg ne(2) prog show ?thesis unfolding progress_def by blast
  qed
  ultimately have "progress s (ds @ [i]) w'"
    using w'(2) ok(2) next' unfolding progress_def by (simp add: ball_Un) blast
  with w'(1,4) show ?thesis by blast
qed

text \<open>A logger outside the names \<open>N\<close> is not touched.\<close>

definition others_same :: "string set \<Rightarrow> log_world \<Rightarrow> log_world \<Rightarrow> bool" where
  "others_same N w w' \<longleftrightarrow> (\<forall>n. n \<notin> N \<longrightarrow> map_of (w_registry w') n = map_of (w_registry w) n
     \<and> (\<forall>k. map_of (w_registry w) n = Some k \<longrightarrow> w_loggers w' k = w_loggers w k))"

lemma others_same_refl: "others_same N w w"
  by (simp add: others_same_def)

lemma others_same_trans:
  "others_same N w1 w2 \<Longrightarrow> others_same M w2 w3 \<Longrightarrow> N \<subseteq> L \<Longrightarrow> M \<subseteq> L \<Longrightarrow> others_same L w1 w3"
  unfolding others_same_def by (metis subsetD)

lemma apart_others: "apart nm w w' \<Longrightarrow> log_ok w' \<Longrightarrow> others_same {nm} w w'"
  unfolding others_same_def
proof (intro allI impI conjI)
  fix n
  assume ap: "apart nm w w'" and ok: "log_ok w'" and n: "n \<notin> {nm}"
  show reg: "map_of (w_registry w') n = map_of (w_registry w) n" using ap n unfolding apart_def by simp
  fix k
  assume "map_of (w_registry w) n = Some k"
  then have "map_of (w_registry w') nm \<noteq> Some k" using registry_names [OF ok, of n k nm] reg n by auto
  then show "w_loggers w' k = w_loggers w k" using ap unfolding apart_def by blast
qed

lemma apply_all_ok:
  assumes ok: "log_ok w" and dist: "distinct (map ld_name ds)"
    and known: "\<forall>i \<in> set ds. \<forall>ad \<in> set (ld_appenders i). ad_type ad \<noteq> AtUnknown"
    and changed: "\<forall>i \<in> set ds. \<forall>it. oset_find ld_less i old = Some it \<longrightarrow> \<not> ld_eq i it"
  shows "\<exists>w'. efor (apply_define env old) ds w = (Inr (), w') \<and> progress (w_next w) ds w'
    \<and> others_same (ld_name ` set ds) w w'"
  using dist known changed
proof (induction ds rule: rev_induct)
  case Nil
  then show ?case using progress_start [OF ok] by (simp add: others_same_refl)
next
  case (snoc i ds)
  obtain w1 where w1: "efor (apply_define env old) ds w = (Inr (), w1)" "progress (w_next w) ds w1"
    "others_same (ld_name ` set ds) w w1"
    using snoc by auto
  have "ld_name i \<notin> ld_name ` set ds" using snoc.prems(1) by auto
  moreover have "\<forall>ad \<in> set (ld_appenders i). ad_type ad \<noteq> AtUnknown"
    "\<forall>it. oset_find ld_less i old = Some it \<longrightarrow> \<not> ld_eq i it"
    using snoc.prems(2,3) by simp_all
  ultimately obtain w' where w': "apply_define env old i w1 = (Inr (), w')" "progress (w_next w) (ds @ [i]) w'"
    "apart (ld_name i) w1 w'"
    using progress_step [OF w1(2)] by blast
  have "log_ok w'" using w'(2) unfolding progress_def by blast
  then have "others_same (ld_name ` set (ds @ [i])) w w'"
    by (rule others_same_trans [OF w1(3) apart_others [OF w'(3)]]) auto
  then show ?case using w1(1) w'(1,2) by (auto simp: efor_append ebind_def)
qed

end
