(* ===== verification/Log_Config_Listener.thy ===== *)
theory Log_Config_Listener
  imports Log_Config_Apply
begin

text \<open>
  The listener of the variable \<open>logs\<close> as a whole: what the loggers are after it has run, and the case
  in which it does not return.
\<close>

section \<open>Removed definitions\<close>

text \<open>A logger that hands nothing on: level \<open>REMOVED\<close>, which is above every other, and no appenders.\<close>

definition silent :: "log_world \<Rightarrow> string \<Rightarrow> bool" where
  "silent w n \<longleftrightarrow> (\<exists>l x. map_of (w_registry w) n = Some l \<and> w_loggers w l = Some x \<and> lg_level x = REMOVED
     \<and> lg_appenders x = [])"

lemma remove_define_ok:
  assumes ok: "log_ok w" and gone: "ld_name i \<notin> ld_name ` set new"
  shows "log_ok (remove_define new i w) \<and> silent (remove_define new i w) (ld_name i)
    \<and> others_same {ld_name i} w (remove_define new i w)
    \<and> w_appenders (remove_define new i w) = w_appenders w \<and> w_next w \<le> w_next (remove_define new i w)"
proof -
  obtain l w1 where get: "getLogger (ld_name i) w = (l, w1)" by (cases "getLogger (ld_name i) w")
  obtain x where x: "w_loggers w1 l = Some x" "log_ok w1" "w_next w \<le> w_next w1"
    "map_of (w_registry w1) = (map_of (w_registry w))(ld_name i \<mapsto> l)" "w_appenders w1 = w_appenders w"
    "\<forall>k. k \<noteq> l \<longrightarrow> w_loggers w1 k = w_loggers w k"
    using getLogger_ok [OF ok get] by blast
  let ?w2 = "logger_setLevel l REMOVED w1"
  let ?w3 = "clearAppender l ?w2"
  have rem: "remove_define new i w = ?w3" using gone get by (simp add: remove_define_def oset_find_define)
  have l2: "w_loggers ?w2 l = Some (x\<lparr>lg_level := REMOVED\<rparr>)" by (simp add: logger_setLevel_def x(1))
  have ok2: "log_ok ?w2" by (rule log_ok_step [OF log_step.level x(2)]) (simp add: x(1))
  have ok3: "log_ok ?w3" by (rule log_ok_step [OF log_step.clear ok2]) (simp add: l2)
  have frame: "w_loggers ?w3 = (w_loggers w1)(l \<mapsto> x\<lparr>lg_level := REMOVED, lg_appenders := []\<rparr>)"
    "w_registry ?w3 = w_registry w1" "w_appenders ?w3 = w_appenders w" "w_next ?w3 = w_next w1"
    using x(1,5) by (simp_all add: clearAppender_def logger_setLevel_def)
  have "map_of (w_registry w1) (ld_name i) = Some l" using x(4) by simp
  then have silent: "silent ?w3 (ld_name i)" by (simp add: silent_def frame)
  have same: "others_same {ld_name i} w ?w3"
    unfolding others_same_def
  proof (intro allI impI conjI)
    fix n
    assume n: "n \<notin> {ld_name i}"
    show reg: "map_of (w_registry ?w3) n = map_of (w_registry w) n" using n x(4) by (simp add: frame)
    fix k
    assume "map_of (w_registry w) n = Some k"
    then have k: "map_of (w_registry ?w3) n = Some k" using reg by simp
    have "map_of (w_registry ?w3) (ld_name i) = Some l" using x(4) by (simp add: frame)
    then have "k \<noteq> l" using registry_names [OF ok3 k, of "ld_name i"] n by auto
    then show "w_loggers ?w3 k = w_loggers w k" using x(6) by (simp add: frame)
  qed
  show ?thesis using ok3 silent same frame(3,4) x(3) by (simp add: rem)
qed

lemma remove_define_kept: "ld_name i \<in> ld_name ` set new \<Longrightarrow> remove_define new i w = w"
  by (simp add: remove_define_def oset_find_define)

lemma is_defined_others:
  assumes def: "is_defined w j s n" and same: "others_same N w w'" "w_appenders w' = w_appenders w"
    and j: "ld_name j \<notin> N" and m: "n \<le> m"
  shows "is_defined w' j s m"
proof -
  obtain l x where l: "map_of (w_registry w) (ld_name j) = Some l" "w_loggers w l = Some x" "lg_level x = ld_level j"
    "ld_formatter j \<noteq> [] \<and> \<not> formatter.m_error (LogFormatter (ld_formatter j)) \<longrightarrow>
          lg_formatter x = Some (LogFormatter (ld_formatter j))"
    "list_all2 (ap_matches w (lg_formatter x)) (ld_appenders j) (lg_appenders x)" "set (lg_appenders x) \<subseteq> {s..<n}"
    using def by (rule is_definedE)
  have "ap_matches w' = ap_matches w" by (simp add: ap_matches_def fun_eq_iff same(2))
  moreover have "map_of (w_registry w') (ld_name j) = Some l" "w_loggers w' l = Some x"
    using same(1) j l(1,2) unfolding others_same_def by simp_all
  moreover have "set (lg_appenders x) \<subseteq> {s..<m}" using l(6) m by (auto simp: subset_iff)
  ultimately show ?thesis using l(3-5) by (intro is_definedI) auto
qed

lemma silent_others: "silent w n \<Longrightarrow> others_same N w w' \<Longrightarrow> n \<notin> N \<Longrightarrow> silent w' n"
  unfolding silent_def others_same_def by fastforce

lemma remove_all_ok:
  assumes ok: "log_ok w" and new: "\<forall>j \<in> set new. is_defined w j s (w_next w)"
  shows "(\<forall>j \<in> set new. is_defined (fold (remove_define new) old w) j s (w_next (fold (remove_define new) old w)))
    \<and> log_ok (fold (remove_define new) old w)
    \<and> (\<forall>i \<in> set old. ld_name i \<notin> ld_name ` set new \<longrightarrow> silent (fold (remove_define new) old w) (ld_name i))
    \<and> others_same (ld_name ` set old) w (fold (remove_define new) old w)"
proof (induction old rule: rev_induct)
  case Nil
  then show ?case using ok new by (simp add: others_same_refl)
next
  case (snoc i old)
  let ?w = "fold (remove_define new) old w" and ?w' = "remove_define new i (fold (remove_define new) old w)"
  show ?case
  proof (cases "ld_name i \<in> ld_name ` set new")
    case True
    have "others_same (ld_name ` set (old @ [i])) w ?w"
      using snoc others_same_trans [of "ld_name ` set old" w ?w "{}" ?w] by (auto simp: others_same_refl)
    with snoc True show ?thesis by (simp add: remove_define_kept)
  next
    case False
    have rem: "log_ok ?w'" "silent ?w' (ld_name i)" "others_same {ld_name i} ?w ?w'" "w_appenders ?w' = w_appenders ?w"
      "w_next ?w \<le> w_next ?w'"
      using remove_define_ok [OF _ False, of ?w] snoc by blast+
    have "is_defined ?w' j s (w_next ?w')" if "j \<in> set new" for j
    proof (rule is_defined_others [OF _ rem(3,4) _ rem(5)])
      show "is_defined ?w j s (w_next ?w)" using snoc that by blast
      show "ld_name j \<notin> {ld_name i}" using False imageI [OF that, of ld_name] by auto
    qed
    moreover have "silent ?w' (ld_name k)" if "k \<in> set (old @ [i])" "ld_name k \<notin> ld_name ` set new" for k
    proof (cases "ld_name k = ld_name i")
      case False
      with that snoc have "silent ?w (ld_name k)" by auto
      then show ?thesis by (rule silent_others [OF _ rem(3)]) (use False in simp)
    qed (use rem(2) in simp)
    moreover have "others_same (ld_name ` set (old @ [i])) w ?w'"
      by (rule others_same_trans [OF _ rem(3)]) (use snoc in auto)
    ultimately show ?thesis using rem(1) by simp
  qed
qed

section \<open>The listener\<close>

lemma others_same_setup: "same_setup w w' \<Longrightarrow> others_same {} w w'"
  by (simp add: same_setup_def others_same_def)

lemma log_listener_applies:
  assumes ok: "log_ok w" and dist: "distinct (map ld_name new)"
    and known: "\<forall>i \<in> set new. \<forall>ad \<in> set (ld_appenders i). ad_type ad \<noteq> AtUnknown"
    and changed: "\<forall>i \<in> set new. \<forall>it. oset_find ld_less i old = Some it \<longrightarrow> \<not> ld_eq i it"
  shows "\<exists>w'. log_listener env ev old new w = (Inr (), w') \<and> log_ok w'
    \<and> (\<forall>i \<in> set new. is_defined w' i (w_next w) (w_next w'))
    \<and> (\<forall>i \<in> set old. ld_name i \<notin> ld_name ` set new \<longrightarrow> silent w' (ld_name i))
    \<and> others_same (ld_name ` (set old \<union> set new)) w w'"
proof -
  have "w_loggers w (w_root w) \<noteq> None" using log_okD(2) [OF ok] by (auto simp: rooted_def)
  then obtain w1 where w1: "log env (w_root w) INFO ev w = (Inr (), w1)" "log_ok w1" "same_setup w w1"
    using log_ok_log [OF ok, of "w_root w" env INFO ev] by blast
  have n1: "w_next w1 = w_next w" using w1(3) by (simp add: same_setup_def)
  obtain w2 where w2: "efor (apply_define env old) new w1 = (Inr (), w2)" "progress (w_next w1) new w2"
    "others_same (ld_name ` set new) w1 w2"
    using apply_all_ok [OF w1(2) dist known changed, of env] by blast
  let ?w' = "fold (remove_define new) old w2"
  have ok2: "log_ok w2" "\<forall>j \<in> set new. is_defined w2 j (w_next w1) (w_next w2)"
    using w2(2) unfolding progress_def by blast+
  note rem = remove_all_ok [OF ok2, of old]
  have "others_same (ld_name ` (set old \<union> set new)) w w2"
    by (rule others_same_trans [OF others_same_setup [OF w1(3)] w2(3)]) auto
  then have "others_same (ld_name ` (set old \<union> set new)) w ?w'"
    by (rule others_same_trans) (use rem in auto)
  moreover have "log_listener env ev old new w = (Inr (), ?w')"
    using w1(1) w2(1) by (simp add: log_listener_def ebind_def)
  ultimately show ?thesis using rem n1 by auto
qed

text \<open>The listener of \<open>logs\<close> brings the loggers to the new set of definitions, provided every
  definition in it is new or changed and has known appender types. Every defined logger exists and has
  the level, the formatter (if its pattern is valid) and exactly the appenders of its definition, in
  order, all made by this run; loggers whose definition is gone have level REMOVED and no appenders; the
  loggers that neither set names are as they were, and the store stays well formed.\<close>

theorem listener_applies_definitions:
  assumes ok: "log_ok w" and dist: "distinct (map ld_name new)"
    and known: "\<forall>i \<in> set new. \<forall>ad \<in> set (ld_appenders i). ad_type ad \<noteq> AtUnknown"
    and changed: "\<forall>i \<in> set new. \<forall>it. oset_find ld_less i old = Some it \<longrightarrow> \<not> ld_eq i it"
  shows "\<exists>w'. log_listener env ev old new w = (Inr (), w') \<and> log_ok w'
    \<and> (\<forall>i \<in> set new. is_defined w' i (w_next w) (w_next w'))
    \<and> (\<forall>i \<in> set old. ld_name i \<notin> ld_name ` set new \<longrightarrow> silent w' (ld_name i))
    \<and> others_same (ld_name ` (set old \<union> set new)) w w'"
  by (rule log_listener_applies [OF assms])

text \<open>C37. A definition that is in the old set and in the new one without a change makes the listener use
  a null pointer: \<open>logger\<close> is only assigned for a definition that is new or changed. The definitions
  before it have been applied, those behind it have not.\<close>

theorem unchanged_definition_crashes:
  assumes ok: "log_ok w" and dist: "distinct (map ld_name pre)"
    and known: "\<forall>i \<in> set pre. \<forall>ad \<in> set (ld_appenders i). ad_type ad \<noteq> AtUnknown"
    and changed: "\<forall>i \<in> set pre. \<forall>it. oset_find ld_less i old = Some it \<longrightarrow> \<not> ld_eq i it"
    and same: "oset_find ld_less d old = Some it" "ld_eq d it"
  shows "\<exists>w'. log_listener env ev old (pre @ d # post) w = (Inl (Null_pointer ''logger''), w')
    \<and> (\<forall>i \<in> set pre. is_defined w' i (w_next w) (w_next w'))
    \<and> others_same (ld_name ` set pre) w w'"
proof -
  have "w_loggers w (w_root w) \<noteq> None" using log_okD(2) [OF ok] by (auto simp: rooted_def)
  then obtain w1 where w1: "log env (w_root w) INFO ev w = (Inr (), w1)" "log_ok w1" "same_setup w w1"
    using log_ok_log [OF ok, of "w_root w" env INFO ev] by blast
  have n1: "w_next w1 = w_next w" using w1(3) by (simp add: same_setup_def)
  obtain w2 where w2: "efor (apply_define env old) pre w1 = (Inr (), w2)" "progress (w_next w1) pre w2"
    "others_same (ld_name ` set pre) w1 w2"
    using apply_all_ok [OF w1(2) dist known changed, of env] by blast
  have "log_listener env ev old (pre @ d # post) w = (Inl (Null_pointer ''logger''), w2)"
    using w1(1) w2(1) same by (simp add: log_listener_def ebind_def efor_append apply_define_def)
  moreover have "others_same (ld_name ` set pre) w w2"
    by (rule others_same_trans [OF others_same_setup [OF w1(3)] w2(3)]) auto
  moreover have "\<forall>i \<in> set pre. is_defined w2 i (w_next w) (w_next w2)"
    using w2(2) unfolding progress_def n1 by blast
  ultimately show ?thesis by blast
qed

end
