(* ===== verification/Logger_Yaml.thy ===== *)
theory Logger_Yaml
  imports Log_Config_Cast
begin

text \<open>
  The \<open>toYamlString\<close> functions of the appenders, of \<open>Logger\<close> and of \<open>LogManager\<close> in
  \<open>mocker/log.cpp\<close>, and what the configuration reads from their texts.
\<close>

section \<open>The texts\<close>

text \<open>The pattern an appender shows: only that of a formatter of its own.\<close>

definition own_pattern :: "appender \<Rightarrow> string option" where
  "own_pattern x = (case ap_formatter x of
      Some f \<Rightarrow> if ap_hasFormatter x then Some (m_pattern f) else None
    | None \<Rightarrow> None)"

definition optional :: "'n yaml \<Rightarrow> string \<Rightarrow> string option \<Rightarrow> (string \<times> 'n) list" where
  "optional Y k s = (case s of None \<Rightarrow> [] | Some v \<Rightarrow> [(k, y_str Y v)])"

definition level_text :: "level \<Rightarrow> string option" where
  "level_text lev = (if lev \<noteq> UNKNOWN then Some (ToString lev) else None)"

definition stdout_keys :: "'n yaml \<Rightarrow> appender \<Rightarrow> (string \<times> 'n) list" where
  "stdout_keys Y x = [(''type'', y_str Y ''StdoutLogAppender'')] @ optional Y ''level'' (level_text (ap_level x))
     @ optional Y ''formatter'' (own_pattern x)"

definition stdout_toYamlString :: "'n yaml \<Rightarrow> appender \<Rightarrow> string" where
  "stdout_toYamlString Y x = y_Emit Y (y_map Y (stdout_keys Y x))"

definition file_keys :: "'n yaml \<Rightarrow> appender \<Rightarrow> (string \<times> 'n) list" where
  "file_keys Y x = [(''type'', y_str Y ''FileLogAppender''), (''file'', y_str Y (ap_filename x))]
     @ optional Y ''level'' (level_text (ap_level x)) @ optional Y ''formatter'' (own_pattern x)"

definition file_toYamlString :: "'n yaml \<Rightarrow> appender \<Rightarrow> string" where
  "file_toYamlString Y x = y_Emit Y (y_map Y (file_keys Y x))"

definition appender_toYamlString :: "'n yaml \<Rightarrow> appender \<Rightarrow> string" where
  "appender_toYamlString Y x =
     (case ap_kind x of StdoutLogAppender \<Rightarrow> stdout_toYamlString Y x | FileLogAppender \<Rightarrow> file_toYamlString Y x)"

text \<open>
  \<open>Logger::toYamlString\<close>: the appenders' texts are parsed and pushed to \<open>node["appenders"]\<close>, which is
  only made when there is one.
\<close>

definition logger_toYamlString :: "'n yaml \<Rightarrow> log_world \<Rightarrow> ref \<Rightarrow> string outcome" where
  "logger_toYamlString Y w l =
     (let x = the_logger w l in
      obind (omap (\<lambda>a. y_Load Y (appender_toYamlString Y (the_appender w a))) (lg_appenders x)) (\<lambda>ns.
        Inr (y_Emit Y (y_map Y
          ([(''name'', y_str Y (lg_name x)), (''level'', y_str Y (ToString (lg_level x)))]
           @ optional Y ''formatter'' (map_option m_pattern (lg_formatter x))
           @ (if lg_appenders x \<noteq> [] then [(''appenders'', y_seq Y ns)] else []))))))"

text \<open>\<open>LogManager::toYamlString\<close>: the loggers in the order of their names.\<close>

definition manager_toYamlString :: "'n yaml \<Rightarrow> log_world \<Rightarrow> string outcome" where
  "manager_toYamlString Y w =
     obind (omap (\<lambda>(n, l). obind (logger_toYamlString Y w l) (y_Load Y)) (w_registry w)) (\<lambda>ns.
       Inr (y_Emit Y (y_seq Y ns)))"

section \<open>Reading them back\<close>

text \<open>The definitions that describe an appender and a logger as they are.\<close>

definition define_of_appender :: "appender \<Rightarrow> log_appender_define" where
  "define_of_appender x =
     \<lparr>ad_type = (case ap_kind x of FileLogAppender \<Rightarrow> AtFile | StdoutLogAppender \<Rightarrow> AtStd), ad_level = ap_level x,
      ad_formatter = case_option [] (\<lambda>p. p) (own_pattern x),
      ad_file = (case ap_kind x of FileLogAppender \<Rightarrow> ap_filename x | StdoutLogAppender \<Rightarrow> [])\<rparr>"

definition define_of_logger :: "log_world \<Rightarrow> ref \<Rightarrow> log_define" where
  "define_of_logger w l =
     (let x = the_logger w l in
      \<lparr>ld_name = lg_name x, ld_level = lg_level x,
       ld_formatter = case_option [] (\<lambda>p. p) (map_option m_pattern (lg_formatter x)),
       ld_appenders = map (\<lambda>a. define_of_appender (the_appender w a)) (lg_appenders x)\<rparr>)"

lemma map_of_optional:
  "map_of (optional Y k s) k' = (if k' = k then map_option (y_str Y) s else None)"
  "fst ` set (optional Y k s) \<subseteq> {k}" "distinct (map fst (optional Y k s))"
  by (auto simp: optional_def split: option.split)

lemma optional_keys: "k' \<noteq> k \<Longrightarrow> k' \<notin> fst ` set (optional Y k s)"
  using map_of_optional(2) [of Y k s] by blast

lemma distinct_keys [simp]:
  "distinct (map fst (stdout_keys Y x))" "distinct (map fst (file_keys Y x))"
  by (auto simp: stdout_keys_def file_keys_def optional_def split: option.splits)

lemma appender_keys_node: "yaml_node Y (y_map Y (stdout_keys Y x))" "yaml_node Y (y_map Y (file_keys Y x))"
  by (rule strings_node, simp, auto simp: stdout_keys_def file_keys_def optional_def split: option.splits)+

lemma level_of_level_text: "lev \<noteq> REMOVED \<Longrightarrow> level_of (level_text lev) = lev"
  by (simp add: level_text_def level_of_text)

lemma appender_text_read:
  assumes "yaml_laws Y" and "ap_level x \<noteq> REMOVED"
  shows "\<exists>n. y_Load Y (appender_toYamlString Y x) = Inr n
    \<and> (\<forall>node out. appender_define Y node n out = (Inr (Some (define_of_appender x)), out))"
proof (cases "ap_kind x")
  case StdoutLogAppender
  have "appender_define Y node (y_map Y (stdout_keys Y x)) out = (Inr (Some (define_of_appender x)), out)" for node out
    by (subst appender_define_keys [OF assms(1), where ty = "''StdoutLogAppender''" and fil = None
        and lev = "level_text (ap_level x)" and fmt = "own_pattern x"])
      (simp_all add: StdoutLogAppender define_of_appender_def level_of_level_text assms(2),
       simp_all add: stdout_keys_def map_of_optional map_add_def split: option.split)
  then show ?thesis
    by (simp add: appender_toYamlString_def StdoutLogAppender stdout_toYamlString_def
        yaml_lawsD(1) [OF assms(1) appender_keys_node(1)])
next
  case FileLogAppender
  have "appender_define Y node (y_map Y (file_keys Y x)) out = (Inr (Some (define_of_appender x)), out)" for node out
    by (subst appender_define_keys [OF assms(1), where ty = "''FileLogAppender''" and fil = "Some (ap_filename x)"
        and lev = "level_text (ap_level x)" and fmt = "own_pattern x"])
      (simp_all add: FileLogAppender define_of_appender_def level_of_level_text assms(2),
       simp_all add: file_keys_def map_of_optional map_add_def split: option.split)
  then show ?thesis
    by (simp add: appender_toYamlString_def FileLogAppender file_toYamlString_def
        yaml_lawsD(1) [OF assms(1) appender_keys_node(2)])
qed

lemma appender_texts_read:
  assumes "yaml_laws Y" and "\<forall>x \<in> set xs. ap_level x \<noteq> REMOVED"
  shows "\<exists>ns. omap (\<lambda>x. y_Load Y (appender_toYamlString Y x)) xs = Inr ns \<and> (ns = [] \<longleftrightarrow> xs = [])
    \<and> (\<forall>node. appender_defines Y node ns out = (Inr (map define_of_appender xs), out)) \<and> (\<forall>n \<in> set ns. yaml_node Y n)"
  using assms(2)
proof (induction xs)
  case (Cons x xs)
  then obtain ns where ns: "omap (\<lambda>x. y_Load Y (appender_toYamlString Y x)) xs = Inr ns"
    "\<forall>node. appender_defines Y node ns out = (Inr (map define_of_appender xs), out)" "\<forall>n \<in> set ns. yaml_node Y n" by auto
  have "ap_level x \<noteq> REMOVED" using Cons.prems by simp
  then obtain n where "y_Load Y (appender_toYamlString Y x) = Inr n"
    "\<forall>node out. appender_define Y node n out = (Inr (Some (define_of_appender x)), out)"
    using appender_text_read [OF assms(1)] by blast
  with ns show ?case by (intro exI [of _ "n # ns"]) (auto simp: ebind_def intro: yaml_node.loaded)
qed simp

lemma logger_text_read:
  assumes "yaml_laws Y" and "lg_level (the_logger w l) \<noteq> REMOVED"
    and "\<forall>a \<in> set (lg_appenders (the_logger w l)). ap_level (the_appender w a) \<noteq> REMOVED"
  shows "\<exists>s. logger_toYamlString Y w l = Inr s \<and> LogDefine_from_str Y s out = (Inr (define_of_logger w l), out)"
proof -
  let ?x = "the_logger w l"
  let ?aps = "map (the_appender w) (lg_appenders ?x)"
  have "\<forall>y \<in> set ?aps. ap_level y \<noteq> REMOVED" using assms(3) by simp
  then obtain ns where ns: "omap (\<lambda>x. y_Load Y (appender_toYamlString Y x)) ?aps = Inr ns" "ns = [] \<longleftrightarrow> ?aps = []"
    "\<forall>node. appender_defines Y node ns out = (Inr (map define_of_appender ?aps), out)" "\<forall>n \<in> set ns. yaml_node Y n"
    using appender_texts_read [OF assms(1)] by blast
  have load: "omap (\<lambda>a. y_Load Y (appender_toYamlString Y (the_appender w a))) (lg_appenders ?x) = Inr ns"
    using ns(1) by (simp add: omap_map)
  let ?ps = "[(''name'', y_str Y (lg_name ?x)), (''level'', y_str Y (ToString (lg_level ?x)))]
      @ optional Y ''formatter'' (map_option m_pattern (lg_formatter ?x))
      @ (if lg_appenders ?x \<noteq> [] then [(''appenders'', y_seq Y ns)] else [])"
  have d: "distinct (map fst ?ps)" by (auto simp: optional_def split: option.splits)
  have node: "yaml_node Y (y_map Y ?ps)"
  proof (rule yaml_node.map [OF d])
    have "yaml_node Y (y_seq Y ns)" by (rule yaml_node.seq) (use ns(4) in blast)
    then show "yaml_node Y n" if "n \<in> snd ` set ?ps" for n
      using that yaml_node.str [of Y] by (auto simp: optional_def split: option.splits if_splits)
  qed
  have keys: "map_of ?ps ''name'' = Some (y_str Y (lg_name ?x))"
    "map_of ?ps ''level'' = map_option (y_str Y) (Some (ToString (lg_level ?x)))"
    "map_of ?ps ''formatter'' = map_option (y_str Y) (map_option m_pattern (lg_formatter ?x))"
    "map_of ?ps ''appenders'' = (if ns = [] then None else Some (y_seq Y ns))"
    using ns(2) by (simp_all add: map_of_optional map_add_def split: option.split)
  have "logger_toYamlString Y w l = Inr (y_Emit Y (y_map Y ?ps))"
    by (simp add: logger_toYamlString_def load Let_def)
  moreover have "LogDefine_from_str Y (y_Emit Y (y_map Y ?ps)) out = (Inr (define_of_logger w l), out)"
    using LogDefine_from_keys [OF assms(1) d keys ns(3) [rule_format] node] assms(2)
    by (simp add: define_of_logger_def level_of_Some Let_def comp_def)
  ultimately show ?thesis by blast
qed

text \<open>The text a logger writes of itself is a definition the configuration can read, and it reads
  exactly that logger: name, level, pattern and appenders in order, each with its type, file, level and
  own pattern. So what \<open>LogManager::toYamlString\<close> shows can be used as the value of \<open>logs\<close>. The level
  \<open>REMOVED\<close> has no text of its own and is excluded.\<close>

theorem logger_text_reads_back:
  assumes "yaml_laws Y" and "lg_level (the_logger w l) \<noteq> REMOVED"
    and "\<forall>a \<in> set (lg_appenders (the_logger w l)). ap_level (the_appender w a) \<noteq> REMOVED"
  shows "\<exists>s. logger_toYamlString Y w l = Inr s \<and> LogDefine_from_str Y s out = (Inr (define_of_logger w l), out)"
  by (rule logger_text_read [OF assms])

end
