(* ===== verification/Config_Vars.thy ===== *)
theory Config_Vars
  imports Config
begin

text \<open>
  Configuration variables one by one and in the registry: when listeners run and in which order,
  what a failing cast or listener leaves behind, and which variable a name stands for.
\<close>

section \<open>Rewriting\<close>

lemma var_frame [simp]:
  "the_var (put_var p x c) q = (if q = p then x else the_var c q)"
  "cf_vars (put_var p x c) = (cf_vars c)(p \<mapsto> x)" "cf_data (put_var p x c) = cf_data c"
  "cf_next (put_var p x c) = cf_next c" "cf_fun_id (put_var p x c) = cf_fun_id c"
  "cf_world (put_var p x c) = cf_world c"
  "the_var (c\<lparr>cf_world := w\<rparr>) q = the_var c q" "the_var (c\<lparr>cf_fun_id := f\<rparr>) q = the_var c q"
  "the_var (c\<lparr>cf_next := m\<rparr>) q = the_var c q" "the_var (c\<lparr>cf_data := d\<rparr>) q = the_var c q"
  by (simp_all add: put_var_def the_var_def)

lemma say_frame [simp]:
  "the_var (say env msg c) q = the_var c q" "cf_vars (say env msg c) = cf_vars c"
  "cf_data (say env msg c) = cf_data c" "cf_next (say env msg c) = cf_next c"
  "cf_fun_id (say env msg c) = cf_fun_id c"
  by (simp_all add: say_def the_var_def)

section \<open>Listeners\<close>

text \<open>Adding listeners one after the other, with the keys that are returned.\<close>

fun add_all :: "ref \<Rightarrow> ('v, 'w) on_change list \<Rightarrow> ('v, 'w) config \<Rightarrow> 64 word list \<times> ('v, 'w) config" where
  "add_all p [] c = ([], c)"
| "add_all p (f # fs) c =
     (case addListener p f c of (k, c1) \<Rightarrow> (case add_all p fs c1 of (ks, c2) \<Rightarrow> (k # ks, c2)))"

text \<open>The keys of a variable's listeners are not above its type's counter.\<close>

definition keys_ok :: "('v, 'w) config \<Rightarrow> ref \<Rightarrow> bool" where
  "keys_ok c p \<longleftrightarrow> smap_ok (cv_cbs (the_var c p))
     \<and> (\<forall>k \<in> fst ` set (cv_cbs (the_var c p)). k \<le> cf_fun_id c (cv_type (the_var c p)))"

lemma add_all_cbs:
  assumes "keys_ok c p" and "unat (cf_fun_id c (cv_type (the_var c p))) + length fs < 2 ^ 64"
    and "add_all p fs c = (ks, c')"
  shows "cv_cbs (the_var c' p) = cv_cbs (the_var c p) @ zip ks fs \<and> length ks = length fs
    \<and> sorted_wrt (<) (cf_fun_id c (cv_type (the_var c p)) # ks) \<and> keys_ok c' p
    \<and> cv_val (the_var c' p) = cv_val (the_var c p) \<and> cv_type (the_var c' p) = cv_type (the_var c p)"
  using assms
proof (induction fs arbitrary: c ks)
  case Nil
  then show ?case by simp
next
  case (Cons f fs)
  let ?x = "the_var c p" and ?n = "cf_fun_id c (cv_type (the_var c p))"
  obtain k c1 where add: "addListener p f c = (k, c1)" by (cases "addListener p f c")
  then have k: "k = ?n + 1" by (auto simp: addListener_def Let_def)
  have less: "?n < k" "unat k = Suc (unat ?n)"
  proof -
    have "unat ?n + 1 < 2 ^ LENGTH(64)" using Cons.prems(2) by simp
    then show "unat k = Suc (unat ?n)" unfolding k by (simp add: unatSuc unat_word_ariths)
    then show "?n < k" by (simp add: word_less_nat_alt)
  qed
  have last: "smap_put k f (cv_cbs ?x) = cv_cbs ?x @ [(k, f)]"
    using Cons.prems(1) less(1) by (intro smap_put_last) (auto simp: keys_ok_def intro: order.strict_trans1)
  have c1: "cv_cbs (the_var c1 p) = cv_cbs ?x @ [(k, f)]" "cf_fun_id c1 (cv_type ?x) = k"
    "cv_type (the_var c1 p) = cv_type ?x" "cv_val (the_var c1 p) = cv_val ?x"
    using add last k by (auto simp: addListener_def Let_def)
  have "smap_ok (smap_put k f (cv_cbs ?x))" using Cons.prems(1) by (simp add: keys_ok_def)
  then have ok1: "keys_ok c1 p"
    using Cons.prems(1) less(1) unfolding keys_ok_def c1 last
    by (auto intro: order.strict_implies_order order.strict_trans1)
  obtain ks' where ks: "add_all p fs c1 = (ks', c')" "ks = k # ks'"
    using Cons.prems(3) add by (auto split: prod.splits)
  have "unat (cf_fun_id c1 (cv_type (the_var c1 p))) + length fs < 2 ^ 64"
    using Cons.prems(2) less(2) c1 by simp
  from Cons.IH [OF ok1 this ks(1)] show ?case
    using ks(2) less(1) c1 by (auto intro: less_trans)
qed

lemma efor_map: "efor (\<lambda>(k, cb). g cb) ps w = efor g (map snd ps) w"
  by (induction ps arbitrary: w) (auto split: prod.splits sum.splits)

lemma zip_snd: "length ks = length fs \<Longrightarrow> map snd (zip ks fs) = fs"
  by (induction ks fs rule: list_induct2) simp_all

text \<open>C31. Listeners run in the order in which they were added, each once, with the old value and the
  new one, before the value is stored; the keys that \<open>addListener\<close> returned are distinct. (As long as
  the 64 bit counter of the type does not wrap around.)\<close>

theorem listeners_in_order:
  assumes "keys_ok c p" and "unat (cf_fun_id c (cv_type (the_var c p))) + length fs < 2 ^ 64"
    and "add_all p fs c = (ks, c')"
    and "\<not> veq env (cv_type (the_var c p)) v (cv_val (the_var c p))"
    and "efor (\<lambda>f. call_listener f (cv_val (the_var c p)) v) (map snd (cv_cbs (the_var c p)) @ fs) (cf_world c') = (r, w')"
  shows "setValue env p v c' =
      (r, if r = Inr () then put_var p ((the_var c' p)\<lparr>cv_val := v\<rparr>) (c'\<lparr>cf_world := w'\<rparr>)
          else c'\<lparr>cf_world := w'\<rparr>)
    \<and> distinct ks \<and> length ks = length fs"
proof -
  note added = add_all_cbs [OF assms(1-3)]
  have "map snd (cv_cbs (the_var c' p)) = map snd (cv_cbs (the_var c p)) @ fs"
    using added by (simp add: zip_snd)
  moreover have "distinct ks" using added by (auto simp: strict_sorted_iff)
  ultimately show ?thesis
    using added assms(4,5) by (auto simp: setValue_def efor_map Let_def split: sum.splits)
qed

text \<open>A listener can be asked for and deleted by its key; deleting one leaves the others.\<close>

theorem listener_keys:
  assumes "addListener p cb c = (k, c')"
  shows "getListener c' p k = cb \<and> getListener (delListener p k c') p k = None
    \<and> (\<forall>j. j \<noteq> k \<longrightarrow> getListener (delListener p k c') p j = getListener c p j)
    \<and> getListener (clearListener p c') p j = None"
  using assms
  by (auto simp: addListener_def getListener_def delListener_def clearListener_def Let_def
      split: option.splits)

section \<open>Failing casts and listeners\<close>

lemma setValue_frame:
  assumes "setValue env p v c = (r, c')"
  shows "cf_data c' = cf_data c \<and> cf_next c' = cf_next c \<and> cf_fun_id c' = cf_fun_id c
    \<and> (\<forall>q. q \<noteq> p \<longrightarrow> cf_vars c' q = cf_vars c q)
    \<and> (r \<noteq> Inr () \<longrightarrow> cf_vars c' = cf_vars c)
    \<and> (r = Inr () \<longrightarrow> the_var c' p = the_var c p \<and> veq env (cv_type (the_var c p)) v (cv_val (the_var c p))
         \<or> the_var c' p = (the_var c p)\<lparr>cv_val := v\<rparr>)"
  using assms by (auto simp: setValue_def Let_def put_var_def the_var_def split: if_splits prod.splits sum.splits)

text \<open>What \<open>fromString\<close> does, by the outcome of the cast and of \<open>setValue\<close>.\<close>

lemma fromString_cases:
  obtains (cast) e where "from_str env (cv_type (the_var c p)) s = Inl e"
      "fromString env p s c = (if is_exception e then (Inr False, say env (''ConfigVar::FromString exception''
          @ what e @ '' convert: string to '' @ cv_type (the_var c p)) c) else (Inl e, c))"
  | (set_fails) v e c1 where "from_str env (cv_type (the_var c p)) s = Inr v" "setValue env p v c = (Inl e, c1)"
      "fromString env p s c = (if is_exception e then (Inr False, say env (''ConfigVar::FromString exception''
          @ what e @ '' convert: string to '' @ cv_type (the_var c p)) c1) else (Inl e, c1))"
  | (set) v c1 where "from_str env (cv_type (the_var c p)) s = Inr v" "setValue env p v c = (Inr (), c1)"
      "fromString env p s c = (Inr True, c1)"
proof (cases "from_str env (cv_type (the_var c p)) s")
  case (Inl e)
  then show thesis by (intro cast) (auto simp: fromString_def Let_def)
next
  case (Inr v)
  obtain r c1 where sv: "setValue env p v c = (r, c1)" by (cases "setValue env p v c")
  show thesis
  proof (cases r)
    case (Inl e)
    with Inr sv show thesis by (intro set_fails) (auto simp: fromString_def Let_def)
  next
    case (Inr u)
    with \<open>from_str env _ s = _\<close> sv show thesis by (intro set) (auto simp: fromString_def Let_def)
  qed
qed

text \<open>\<open>fromString\<close> lets no exception out, whether the cast or a listener throws: it returns false,
  and then no variable has changed; when it returns true, the variable has the value that was read
  or one that compares equal to it. No other variable ever changes.\<close>

theorem fromString_is_atomic:
  assumes "fromString env p s c = (r, c')"
  shows "(\<forall>e. r = Inl e \<longrightarrow> \<not> is_exception e)
    \<and> (r \<noteq> Inr True \<longrightarrow> cf_vars c' = cf_vars c)
    \<and> (r = Inr True \<longrightarrow> (\<exists>v. from_str env (cv_type (the_var c p)) s = Inr v
         \<and> (getValue c' p = v \<or> getValue c' p = getValue c p \<and> veq env (cv_type (the_var c p)) v (getValue c p))))
    \<and> (\<forall>q. q \<noteq> p \<longrightarrow> cf_vars c' q = cf_vars c q) \<and> cf_data c' = cf_data c"
proof (cases rule: fromString_cases [where env = env and c = c and p = p and s = s, case_names cast set_fails set])
  case (cast e)
  with assms show ?thesis by (auto split: if_splits)
next
  case (set_fails v e c1)
  with assms setValue_frame [OF set_fails(2)] show ?thesis by (auto split: if_splits)
next
  case (set v c1)
  with assms setValue_frame [OF set(2)] show ?thesis by (auto simp: getValue_def)
qed

section \<open>The registry\<close>

text \<open>
  Every registered name is made of the allowed characters and is the name of its variable; the
  addresses of variables are below \<open>cf_next\<close>.
\<close>

definition config_ok :: "('v, 'w) config \<Rightarrow> bool" where
  "config_ok c \<longleftrightarrow> smap_ok (cf_data c) \<and> (\<forall>p. cf_vars c p \<noteq> None \<longrightarrow> p < cf_next c)
     \<and> (\<forall>n p. map_of (cf_data c) n = Some p \<longrightarrow>
          only_chars name_chars n \<and> (\<exists>x. cf_vars c p = Some x \<and> cv_name x = n))"

lemma config_ok_name:
  "config_ok c \<Longrightarrow> map_of (cf_data c) n = Some p \<Longrightarrow>
     only_chars name_chars n \<and> (\<exists>x. cf_vars c p = Some x \<and> cv_name x = n)"
  unfolding config_ok_def by blast

lemma tolower_name_char: "ch \<in> set name_chars \<Longrightarrow> tolower ch = ch"
  unfolding name_chars_def by (simp, elim disjE; simp add: tolower_def)

lemma lower_names [simp]: "only_chars name_chars n \<Longrightarrow> map tolower n = n"
  by (induction n) (auto simp: only_chars_def tolower_name_char)

definition askable :: "string \<Rightarrow> ('v, 'w) config \<Rightarrow> string \<Rightarrow> bool" where
  "askable ty c n \<longleftrightarrow> only_chars name_chars n
     \<and> (\<forall>p. map_of (cf_data c) n = Some p \<longrightarrow> cv_type (the_var c p) = ty)"

text \<open>\<open>Lookup\<close> as a total function, for the names that can be asked for with a type.\<close>

definition make_var :: "('v, 'w) cfg_env \<Rightarrow> string \<Rightarrow> 'v \<Rightarrow> string \<Rightarrow> string \<Rightarrow> ('v, 'w) config
    \<Rightarrow> ref \<times> ('v, 'w) config" where
  "make_var env ty v d n c = (case Lookup env ty n v d c of (r, c1) \<Rightarrow> (the (projr r), c1))"

lemma Lookup_found:
  assumes "map_of (cf_data c) n = Some p" and "cv_type (the_var c p) = ty"
  shows "Lookup env ty n v d c = (Inr (Some p), say env (''Lookup name='' @ n @ '' exists'') c)"
  using assms by (simp add: Lookup_def)

lemma Lookup_new:
  assumes "map_of (cf_data c) n = None" and "only_chars name_chars n"
  shows "Lookup env ty n v d c = (Inr (Some (cf_next c)), (put_var (cf_next c) (new_ConfigVar ty n v d) c)
    \<lparr>cf_next := cf_next c + 1, cf_data := smap_put n (cf_next c) (cf_data c)\<rparr>)"
  using assms by (simp add: Lookup_def)

lemma config_ok_enter:
  assumes ok: "config_ok c" and n: "only_chars name_chars n"
  shows "config_ok ((put_var (cf_next c) (new_ConfigVar ty n v d) c)
    \<lparr>cf_next := cf_next c + 1, cf_data := smap_put n (cf_next c) (cf_data c)\<rparr>)"
proof -
  have fresh: "cf_vars c (cf_next c) = None" using ok by (auto simp: config_ok_def)
  then have "map_of (cf_data c) m = Some q \<Longrightarrow> q \<noteq> cf_next c" for m q
    using ok by (force simp: config_ok_def simp del: map_of_eq_Some_iff)
  with ok n fresh show ?thesis
    by (auto simp: config_ok_def new_ConfigVar_def less_Suc_eq simp del: map_of_eq_Some_iff split: if_splits)
qed

lemma config_ok_say [simp]: "config_ok (say env msg c) = config_ok c"
  by (simp add: config_ok_def)

interpretation variables: find_or_create "\<lambda>c. map_of (cf_data c)" "make_var env ty v d" config_ok
    "\<lambda>c. dom (cf_vars c)" "askable ty"
  for env :: "('v, 'w) cfg_env" and ty v d
proof unfold_locales
  fix c :: "('v, 'w) config" and n l c'
  show found: "fst (make_var env ty v d n c) = l" if "map_of (cf_data c) n = Some l" "askable ty c n"
    using that by (auto simp: make_var_def askable_def Lookup_found)
  assume ok: "config_ok c"
  show "l \<in> dom (cf_vars c)" if "map_of (cf_data c) n = Some l"
    using ok that by (fastforce simp: config_ok_def simp del: map_of_eq_Some_iff)
  assume valid: "askable ty c n" and make: "make_var env ty v d n c = (l, c')"
  show "l \<notin> dom (cf_vars c)" if "map_of (cf_data c) n = None"
    using ok that make valid by (auto simp: make_var_def Lookup_new config_ok_def askable_def)
  have *: "map_of (cf_data c') = (map_of (cf_data c))(n \<mapsto> l) \<and> config_ok c'
      \<and> (\<forall>m. askable ty c m \<longrightarrow> askable ty c' m)"
  proof (cases "map_of (cf_data c) n")
    case None
    then have c': "l = cf_next c" "c' = (put_var (cf_next c) (new_ConfigVar ty n v d) c)
        \<lparr>cf_next := cf_next c + 1, cf_data := smap_put n (cf_next c) (cf_data c)\<rparr>"
      using make valid by (auto simp: make_var_def Lookup_new askable_def)
    have "config_ok c'" unfolding c' by (rule config_ok_enter [OF ok]) (use valid in \<open>simp add: askable_def\<close>)
    moreover have "map_of (cf_data c) m = Some q \<Longrightarrow> q \<noteq> cf_next c" for m q
      using ok by (force simp: config_ok_def simp del: map_of_eq_Some_iff)
    ultimately show ?thesis
      using c' by (auto simp: askable_def new_ConfigVar_def simp del: map_of_eq_Some_iff)
  next
    case (Some p)
    then have "l = p" "c' = say env (''Lookup name='' @ n @ '' exists'') c"
      using make valid by (auto simp: make_var_def askable_def Lookup_found)
    with ok Some show ?thesis by (auto simp: askable_def)
  qed
  show "map_of (cf_data c') = (map_of (cf_data c))(n \<mapsto> l)" "config_ok c'" using * by blast+
  show "askable ty c' m" if "askable ty c m" for m using * that by blast
qed

end
