(* ===== verification/Config_Load.thy ===== *)
theory Config_Load
  imports Config_Vars
begin

text \<open>
  Loading a YAML document: which nodes of the document are offered to which variables, that the
  recursion ends, what every variable holds afterwards, and the invariant of the registry.
\<close>

section \<open>The members of a document\<close>

definition key_of :: "'n yaml \<Rightarrow> 'n \<Rightarrow> string" where
  "key_of Y k = (case y_Scalar Y k of Inr s \<Rightarrow> s | Inl _ \<Rightarrow> [])"

text \<open>The paths and nodes in document order, without the subtrees below a bad path.\<close>

fun members :: "'n yaml \<Rightarrow> nat \<Rightarrow> string \<Rightarrow> 'n \<Rightarrow> (string \<times> 'n) list" where
  "members Y 0 prefix node = []"
| "members Y (Suc d) prefix node =
     (if \<not> only_chars name_chars prefix then []
      else (prefix, node) #
        (if y_IsMap Y node
         then concat (map (\<lambda>(k, v). members Y d (join prefix (key_of Y k)) v) (y_entries Y node))
         else []))"

text \<open>
  A document is finite: the entries of a map have a smaller rank than the map; and the keys of maps
  are scalars.
\<close>

definition ranked :: "'n yaml \<Rightarrow> ('n \<Rightarrow> nat) \<Rightarrow> bool" where
  "ranked Y rank \<longleftrightarrow> (\<forall>n k v. y_IsMap Y n \<and> (k, v) \<in> set (y_entries Y n) \<longrightarrow>
     rank v < rank n \<and> (\<exists>s. y_Scalar Y k = Inr s))"

lemma rankedD:
  assumes "ranked Y rank" and "y_IsMap Y n" and "(k, v) \<in> set (y_entries Y n)"
  shows "rank v < rank n" and "y_Scalar Y k = Inr (key_of Y k)"
  using assms unfolding ranked_def key_of_def by fastforce+

lemma ListAllMember_members:
  assumes ranked: "ranked Y rank"
  shows "rank node < d \<Longrightarrow>
    \<exists>w'. ListAllMember rep Y d prefix node (w, out0) = (Inr (), (w', out0 @ members Y d prefix node))"
proof (induction d arbitrary: prefix node w out0)
  case 0
  then show ?case by simp
next
  case (Suc d)
  show ?case
  proof (cases "only_chars name_chars prefix \<and> y_IsMap Y node")
    case True
    let ?step = "\<lambda>(k, v) s1. case y_Scalar Y k of Inl e \<Rightarrow> (Inl e, s1)
        | Inr key \<Rightarrow> ListAllMember rep Y d (join prefix key) v s1"
    have loop: "\<exists>w'. efor ?step ps (w, out) = (Inr (), (w', out @ concat (map (\<lambda>(k, v). members Y d (join prefix (key_of Y k)) v) ps)))"
      if "set ps \<subseteq> set (y_entries Y node)" for ps w out
      using that
    proof (induction ps arbitrary: w out)
      case (Cons p ps)
      obtain k v where p: "p = (k, v)" by (cases p)
      with Cons.prems have kv: "(k, v) \<in> set (y_entries Y node)" by simp
      note r = rankedD [OF ranked _ kv]
      have "rank v < d" using r(1) True Suc.prems by simp
      then obtain w1 where "ListAllMember rep Y d (join prefix (key_of Y k)) v (w, out) =
          (Inr (), (w1, out @ members Y d (join prefix (key_of Y k)) v))"
        using Suc.IH by blast
      moreover have "set ps \<subseteq> set (y_entries Y node)" using Cons.prems by simp
      note Cons.IH [OF this, of w1 "out @ members Y d (join prefix (key_of Y k)) v"]
      ultimately show ?case using r(2) True by (simp add: p)
    qed simp
    from loop [of "y_entries Y node" w "out0 @ [(prefix, node)]"] True show ?thesis
      by (auto simp: case_prod_beta')
  qed auto
qed

lemma members_depth:
  assumes "ranked Y rank"
  shows "rank node < d \<Longrightarrow> rank node < d' \<Longrightarrow> members Y d prefix node = members Y d' prefix node"
proof (induction d arbitrary: d' prefix node)
  case (Suc d)
  obtain e where d': "d' = Suc e" using Suc.prems(2) by (cases d') auto
  have "members Y d (join prefix (key_of Y k)) v = members Y e (join prefix (key_of Y k)) v"
    if "y_IsMap Y node" "(k, v) \<in> set (y_entries Y node)" for k v
    using rankedD(1) [OF assms that] Suc.prems d' by (intro Suc.IH) auto
  then show ?case unfolding d' by (auto intro!: arg_cong [of _ _ concat])
qed simp

lemma members_valid: "(path, n) \<in> set (members Y d prefix node) \<Longrightarrow> only_chars name_chars path"
  by (induction d arbitrary: prefix node) (auto split: if_splits)

text \<open>C33. The traversal of a finite document ends, with any bound above the document's depth, and lists
  exactly the members of the document in document order: a map before its entries, each entry under
  its dotted path, nothing below a path that has a character outside the allowed ones. All listed
  paths are in lower case, so the conversion of the key to lower case in \<open>LoadFromYaml\<close> never
  changes anything and an entry with an upper case letter is not loaded.\<close>

theorem ListAllMember_lists_members:
  assumes "ranked Y rank" and "rank root < d" and "rank root < d'"
  shows "\<exists>w'. ListAllMember rep Y d [] root (w, []) = (Inr (), (w', members Y d' [] root))
    \<and> (\<forall>(path, n) \<in> set (members Y d' [] root). only_chars name_chars path \<and> map tolower path = path)"
  using ListAllMember_members [OF assms(1,2), of rep "[]" w "[]"] members_depth [OF assms]
    members_valid [of _ _ Y d' "[]" root] by fastforce

section \<open>What the variables hold afterwards\<close>

text \<open>Everything about the variables except their values.\<close>

definition shape :: "('v, 'w) config_var \<Rightarrow> string \<times> string \<times> (64 word, ('v, 'w) on_change) smap" where
  "shape x = (cv_name x, cv_type x, cv_cbs x)"

definition same_shape :: "('v, 'w) config \<Rightarrow> ('v, 'w) config \<Rightarrow> bool" where
  "same_shape c c' \<longleftrightarrow> cf_data c' = cf_data c \<and> cf_next c' = cf_next c
     \<and> (\<forall>q. map_option shape (cf_vars c' q) = map_option shape (cf_vars c q))"

lemma same_shape_refl [simp]: "same_shape c c" "same_shape c (say env msg c)" "same_shape c (c\<lparr>cf_world := w\<rparr>)"
  by (simp_all add: same_shape_def)

lemma same_shape_trans: "same_shape a b \<Longrightarrow> same_shape b c \<Longrightarrow> same_shape a c"
  by (simp add: same_shape_def)

lemma same_shapeD:
  assumes "same_shape c c'" and "cf_vars c p = Some x"
  shows "\<exists>y. cf_vars c' p = Some y \<and> cv_name y = cv_name x \<and> cv_type y = cv_type x \<and> cv_cbs y = cv_cbs x"
  using assms by (auto simp: same_shape_def shape_def dest!: spec [of _ p])

lemma config_ok_shape:
  assumes "config_ok c" and "same_shape c c'"
  shows "config_ok c'"
proof -
  have "cf_vars c' p \<noteq> None \<longleftrightarrow> cf_vars c p \<noteq> None" for p
    using assms(2) unfolding same_shape_def by (metis option.map_disc_iff)
  moreover have "\<exists>x. cf_vars c' p = Some x \<and> cv_name x = n" if "map_of (cf_data c) n = Some p" for n p
    using assms(1) that same_shapeD [OF assms(2)] by (fastforce simp: config_ok_def simp del: map_of_eq_Some_iff)
  moreover have "cf_data c' = cf_data c" "cf_next c' = cf_next c" using assms(2) by (simp_all add: same_shape_def)
  ultimately show ?thesis using assms(1) by (simp add: config_ok_def del: map_of_eq_Some_iff)
qed

lemma setValue_shape:
  assumes "cf_vars c p \<noteq> None" and "setValue env p v c = (r, c')"
  shows "same_shape c c'"
  using assms
  by (auto simp: setValue_def Let_def same_shape_def shape_def the_var_def split: if_splits prod.splits sum.splits)

lemma fromString_shape:
  assumes "cf_vars c p \<noteq> None" and "fromString env p s c = (r, c')"
  shows "same_shape c c'"
proof (cases rule: fromString_cases [where env = env and c = c and p = p and s = s, case_names cast set_fails set])
  case (cast e)
  with assms(2) show ?thesis by (auto split: if_splits)
next
  case (set_fails v e c1)
  with assms(2) setValue_shape [OF assms(1) set_fails(2)] show ?thesis
    by (auto split: if_splits intro: same_shape_trans)
next
  case (set v c1)
  with assms setValue_shape [OF assms(1) set(2)] show ?thesis by simp
qed

text \<open>No listener fails; no cast fails with anything but an exception.\<close>

definition quiet :: "('v, 'w) config \<Rightarrow> bool" where
  "quiet c \<longleftrightarrow> (\<forall>p x cb. cf_vars c p = Some x \<and> cb \<in> snd ` set (cv_cbs x) \<longrightarrow>
     (\<forall>old new w. fst (call_listener cb old new w) = Inr ()))"

definition casts_throw :: "('v, 'w) cfg_env \<Rightarrow> bool" where
  "casts_throw env \<longleftrightarrow> (\<forall>ty s e. from_str env ty s = Inl e \<longrightarrow> is_exception e)"

lemma quiet_shape: "quiet c \<Longrightarrow> same_shape c c' \<Longrightarrow> quiet c'"
  unfolding quiet_def
proof (intro allI impI, elim conjE)
  fix p y cb old new w
  assume quiet: "\<forall>p x cb. cf_vars c p = Some x \<and> cb \<in> snd ` set (cv_cbs x) \<longrightarrow>
      (\<forall>old new w. fst (call_listener cb old new w) = Inr ())"
    and same: "same_shape c c'" and y: "cf_vars c' p = Some y" "cb \<in> snd ` set (cv_cbs y)"
  have "map_option shape (cf_vars c' p) = map_option shape (cf_vars c p)"
    using same by (simp add: same_shape_def)
  with y(1) obtain x where "cf_vars c p = Some x" "cv_cbs x = cv_cbs y"
    by (cases "cf_vars c p") (auto simp: shape_def)
  then have "cf_vars c p = Some x \<and> cb \<in> snd ` set (cv_cbs x)" using y(2) by simp
  then show "fst (call_listener cb old new w) = Inr ()" by (rule quiet [rule_format])
qed

lemma quiet_listeners:
  assumes "\<forall>cb \<in> snd ` set cbs. \<forall>w. fst (call_listener cb old new w) = Inr ()"
  shows "fst (efor (\<lambda>(k, cb). call_listener cb old new) cbs w) = Inr ()"
  using assms
proof (induction cbs arbitrary: w)
  case (Cons a cbs)
  obtain k cb where a: "a = (k, cb)" by (cases a)
  with Cons.prems have "fst (call_listener cb old new w) = Inr ()" by simp
  then obtain w1 where "call_listener cb old new w = (Inr (), w1)" by (cases "call_listener cb old new w") auto
  with Cons a show ?case by simp
qed simp

text \<open>What one text does to a value.\<close>

definition update :: "('v, 'w) cfg_env \<Rightarrow> string \<Rightarrow> 'v \<Rightarrow> string \<Rightarrow> 'v" where
  "update env ty old s =
     (case from_str env ty s of
        Inl e \<Rightarrow> old
      | Inr v \<Rightarrow> if veq env ty v old then old else v)"

lemma fromString_update:
  assumes "quiet c" and "casts_throw env" and "cf_vars c p = Some x"
  shows "\<exists>b c'. fromString env p s c = (Inr b, c') \<and> getValue c' p = update env (cv_type x) (getValue c p) s
    \<and> (\<forall>q. q \<noteq> p \<longrightarrow> getValue c' q = getValue c q)"
proof -
  have x: "the_var c p = x" using assms(3) by (simp add: the_var_def)
  have calls: "fst (efor (\<lambda>(k, cb). call_listener cb (cv_val x) v) (cv_cbs x) (cf_world c)) = Inr ()" for v
    by (rule quiet_listeners) (use assms(1,3) in \<open>auto simp: quiet_def\<close>)
  have sv: "\<exists>c'. setValue env p v c = (Inr (), c')
      \<and> getValue c' p = (if veq env (cv_type x) v (cv_val x) then cv_val x else v)
      \<and> (\<forall>q. q \<noteq> p \<longrightarrow> getValue c' q = getValue c q)" for v
    using calls [of v] x by (auto simp: setValue_def getValue_def Let_def split: prod.splits sum.splits)
  show ?thesis
  proof (cases "from_str env (cv_type x) s")
    case (Inl e)
    then show ?thesis
      using assms(2) x by (auto simp: fromString_def casts_throw_def update_def getValue_def)
  next
    case (Inr v)
    with sv [of v] x show ?thesis by (auto simp: fromString_def update_def getValue_def)
  qed
qed

text \<open>The texts a document offers to the variable \<open>n\<close>, in document order: the value of a scalar, the YAML
  text of any other node.\<close>

definition texts :: "'n yaml \<Rightarrow> (string \<times> 'n) list \<Rightarrow> string \<Rightarrow> string list" where
  "texts Y ms n =
     map (\<lambda>(path, node). if y_IsScalar Y node then projr (y_Scalar Y node) else y_Emit Y node)
       (filter (\<lambda>(path, node). path = n \<and> path \<noteq> []) ms)"

lemma texts_node_text:
  "texts Y ms n = map (\<lambda>(path, node). projr (node_text Y node)) (filter (\<lambda>(path, node). path = n \<and> path \<noteq> []) ms)"
  by (simp add: texts_def node_text_def if_distrib [of projr] cong: if_cong)

lemma load_nodes:
  assumes "config_ok c" and "quiet c" and "casts_throw env"
    and "\<forall>(path, node) \<in> set ms. only_chars name_chars path \<and> (\<exists>s. node_text Y node = Inr s)"
  shows "\<exists>c'. efor (load_node env Y) ms c = (Inr (), c') \<and> same_shape c c'
    \<and> (\<forall>n p x. map_of (cf_data c) n = Some p \<and> cf_vars c p = Some x \<longrightarrow>
         getValue c' p = foldl (update env (cv_type x)) (getValue c p) (texts Y ms n))"
  using assms(1,2,4)
proof (induction ms arbitrary: c)
  case Nil
  then show ?case by (simp add: texts_node_text)
next
  case (Cons m ms)
  obtain path node where m: "m = (path, node)" by (cases m)
  from Cons.prems(3) m obtain s where s: "node_text Y node = Inr s" and path: "only_chars name_chars path" by auto
  have first: "\<exists>c1. load_node env Y m c = (Inr (), c1) \<and> same_shape c c1
      \<and> (\<forall>n p x. map_of (cf_data c) n = Some p \<and> cf_vars c p = Some x \<longrightarrow>
           getValue c1 p = foldl (update env (cv_type x)) (getValue c p) (texts Y [m] n))"
  proof (cases "path = [] \<or> map_of (cf_data c) path = None")
    case True
    then show ?thesis using path by (auto simp: load_node_def LookupBase_def m texts_node_text)
  next
    case False
    then obtain q where q: "map_of (cf_data c) path = Some q" by auto
    obtain y where y: "cf_vars c q = Some y" "cv_name y = path"
      using config_ok_name [OF Cons.prems(1) q] by blast
    obtain b c1 where c1: "fromString env q s c = (Inr b, c1)"
      "getValue c1 q = update env (cv_type y) (getValue c q) s" "\<forall>r. r \<noteq> q \<longrightarrow> getValue c1 r = getValue c r"
      using fromString_update [OF Cons.prems(2) assms(3) y(1)] by blast
    have "getValue c1 p = foldl (update env (cv_type x)) (getValue c p) (texts Y [m] n)"
      if n: "map_of (cf_data c) n = Some p" "cf_vars c p = Some x" for n p x
    proof (cases "n = path")
      case True
      then have "p = q" "x = y" using n q y(1) by auto
      then show ?thesis using True False s c1(2) by (simp add: texts_node_text m)
    next
      case other: False
      then have "p \<noteq> q" using config_ok_name [OF Cons.prems(1) n(1)] y by auto
      then show ?thesis using other c1(3) by (simp add: texts_node_text m)
    qed
    moreover have "same_shape c c1" by (rule fromString_shape [OF _ c1(1)]) (simp add: y(1))
    moreover have "load_node env Y m c = (Inr (), c1)"
      using False path s q c1(1) by (simp add: load_node_def LookupBase_def m del: map_of_eq_Some_iff)
    ultimately show ?thesis by blast
  qed
  then obtain c1 where c1: "load_node env Y m c = (Inr (), c1)" "same_shape c c1"
    "\<forall>n p x. map_of (cf_data c) n = Some p \<and> cf_vars c p = Some x \<longrightarrow>
       getValue c1 p = foldl (update env (cv_type x)) (getValue c p) (texts Y [m] n)" by blast
  obtain c' where c': "efor (load_node env Y) ms c1 = (Inr (), c')" "same_shape c1 c'"
    "\<forall>n p x. map_of (cf_data c1) n = Some p \<and> cf_vars c1 p = Some x \<longrightarrow>
       getValue c' p = foldl (update env (cv_type x)) (getValue c1 p) (texts Y ms n)"
    using Cons.IH [OF config_ok_shape [OF Cons.prems(1) c1(2)] quiet_shape [OF Cons.prems(2) c1(2)]] Cons.prems(3)
    by auto
  have "texts Y (m # ms) n = texts Y [m] n @ texts Y ms n" for n by (simp add: texts_node_text)
  moreover have "cf_data c1 = cf_data c" using c1(2) by (simp add: same_shape_def)
  ultimately have "\<forall>n p x. map_of (cf_data c) n = Some p \<and> cf_vars c p = Some x \<longrightarrow>
      getValue c' p = foldl (update env (cv_type x)) (getValue c p) (texts Y (m # ms) n)"
    using c1(3) c'(3) same_shapeD [OF c1(2)] by (fastforce simp del: map_of_eq_Some_iff)
  then show ?case using c1(1,2) c'(1,2) same_shape_trans by auto
qed

text \<open>C15. Loading a document never fails when casts only throw exceptions and listeners do not fail: each
  registered variable ends with the value obtained by offering it, in document order, the texts of
  the nodes at its path. A text that cannot be cast is skipped and does not keep the others, or other
  variables, from being loaded; variables that are not in the document keep their values; no variable
  is added or removed.\<close>

theorem LoadFromYaml_values:
  assumes "config_ok c" and "quiet c" and "casts_throw env" and "ranked Y rank" and "rank root < d"
    and "\<forall>node. y_IsScalar Y node \<longrightarrow> (\<exists>s. y_Scalar Y node = Inr s)"
  shows "\<exists>c'. LoadFromYaml env Y d root c = (Inr (), c') \<and> cf_data c' = cf_data c
    \<and> (\<forall>n p x. map_of (cf_data c) n = Some p \<and> cf_vars c p = Some x \<longrightarrow>
         getValue c' p = foldl (update env (cv_type x)) (getValue c p) (texts Y (members Y d [] root) n))"
proof -
  let ?ms = "members Y d [] root"
  obtain w' where w': "ListAllMember (\<lambda>w msg. report env msg w) Y d [] root (cf_world c, []) = (Inr (), (w', ?ms))"
    using ListAllMember_members [OF assms(4,5), of "\<lambda>w msg. report env msg w" "[]" "cf_world c" "[]"] by auto
  let ?c = "c\<lparr>cf_world := w'\<rparr>"
  have shape: "same_shape c ?c" by simp
  have texts: "\<forall>(path, node) \<in> set ?ms. only_chars name_chars path \<and> (\<exists>s. node_text Y node = Inr s)"
    using members_valid assms(6) by (fastforce simp: node_text_def)
  obtain c' where c': "efor (load_node env Y) ?ms ?c = (Inr (), c')" "same_shape ?c c'"
    "\<forall>n p x. map_of (cf_data ?c) n = Some p \<and> cf_vars ?c p = Some x \<longrightarrow>
       getValue c' p = foldl (update env (cv_type x)) (getValue ?c p) (texts Y ?ms n)"
    using load_nodes [OF config_ok_shape [OF assms(1) shape] quiet_shape [OF assms(2) shape] assms(3) texts] by blast
  then show ?thesis
    using w' by (simp add: LoadFromYaml_def same_shape_def getValue_def del: map_of_eq_Some_iff)
qed

section \<open>The invariant of the registry\<close>

inductive config_step :: "('v, 'w) cfg_env \<Rightarrow> 'n yaml \<Rightarrow> ('v, 'w) config \<Rightarrow> ('v, 'w) config \<Rightarrow> bool" for env Y where
  lookup: "Lookup env ty n v d c = (r, c') \<Longrightarrow> config_step env Y c c'"
| set_value: "cf_vars c p \<noteq> None \<Longrightarrow> setValue env p v c = (r, c') \<Longrightarrow> config_step env Y c c'"
| from_string: "cf_vars c p \<noteq> None \<Longrightarrow> fromString env p s c = (r, c') \<Longrightarrow> config_step env Y c c'"
| add_listener: "cf_vars c p \<noteq> None \<Longrightarrow> addListener p cb c = (k, c') \<Longrightarrow> config_step env Y c c'"
| del_listener: "cf_vars c p \<noteq> None \<Longrightarrow> config_step env Y c (delListener p k c)"
| clear_listener: "cf_vars c p \<noteq> None \<Longrightarrow> config_step env Y c (clearListener p c)"
| load: "LoadFromYaml env Y d root c = (r, c') \<Longrightarrow> config_step env Y c c'"

inductive config_start :: "('v, 'w) config \<Rightarrow> bool" where
  "config_start \<lparr>cf_vars = (\<lambda>_. None), cf_data = [], cf_next = 0, cf_fun_id = (\<lambda>_. 0), cf_world = w\<rparr>"

text \<open>Changing a variable but not its name.\<close>

lemma config_ok_put:
  assumes "config_ok c" and "cf_vars c p = Some x" and "cv_name y = cv_name x"
  shows "config_ok (put_var p y c)"
  using assms config_ok_name [OF assms(1)]
  by (fastforce simp: config_ok_def simp del: map_of_eq_Some_iff)

lemma config_ok_fun_id [simp]: "config_ok (c\<lparr>cf_fun_id := f\<rparr>) = config_ok c"
  by (simp add: config_ok_def)

lemma load_node_ok:
  assumes "config_ok c" and "load_node env Y m c = (r, c')"
  shows "config_ok c'"
proof (cases "fst m = [] \<or> map_of (cf_data c) (map tolower (fst m)) = None \<or> (\<exists>e. node_text Y (snd m) = Inl e)")
  case True
  with assms show ?thesis by (auto simp: load_node_def LookupBase_def split: prod.splits option.splits if_splits)
next
  case False
  then obtain p s where p: "map_of (cf_data c) (map tolower (fst m)) = Some p" "node_text Y (snd m) = Inr s"
    by (cases "node_text Y (snd m)") auto
  obtain b c1 where f: "fromString env p s c = (b, c1)" by (cases "fromString env p s c")
  have "same_shape c c1"
    by (rule fromString_shape [OF _ f]) (use config_ok_name [OF assms(1) p(1)] in auto)
  moreover have "c' = c1"
    using assms(2) False p f by (auto simp: load_node_def LookupBase_def case_prod_beta split: sum.splits)
  ultimately show ?thesis using config_ok_shape [OF assms(1)] by simp
qed

lemma config_ok_step:
  assumes "config_step env Y c c'" and ok: "config_ok c"
  shows "config_ok c'"
  using assms(1)
proof cases
  case (lookup ty n v d r)
  show ?thesis
  proof (cases "map_of (cf_data c) n")
    case None
    then show ?thesis
      using lookup ok config_ok_enter [OF ok, of n ty v d]
      by (cases "only_chars name_chars n") (auto simp: Lookup_new, auto simp: Lookup_def)
  next
    case (Some p)
    with lookup ok show ?thesis
      by (auto simp: Lookup_def toString_def Let_def split: if_splits prod.splits sum.splits)
  qed
next
  case (set_value p v r)
  show ?thesis by (rule config_ok_shape [OF ok setValue_shape [OF set_value]])
next
  case (from_string p s r)
  show ?thesis by (rule config_ok_shape [OF ok fromString_shape [OF from_string]])
next
  case (add_listener p cb k)
  then obtain x where x: "cf_vars c p = Some x" by auto
  with add_listener config_ok_put [of "c\<lparr>cf_fun_id := f\<rparr>" p x for f] ok show ?thesis
    by (auto simp: addListener_def the_var_def Let_def)
next
  case (del_listener p k)
  then obtain x where x: "cf_vars c p = Some x" by auto
  with del_listener config_ok_put [OF ok x] show ?thesis by (auto simp: delListener_def the_var_def Let_def)
next
  case (clear_listener p)
  then obtain x where x: "cf_vars c p = Some x" by auto
  with clear_listener config_ok_put [OF ok x] show ?thesis by (auto simp: clearListener_def the_var_def)
next
  case (load d root r)
  obtain q w ms where l: "ListAllMember (\<lambda>w msg. report env msg w) Y d [] root (cf_world c, []) = (q, (w, ms))"
    by (cases "ListAllMember (\<lambda>w msg. report env msg w) Y d [] root (cf_world c, [])") auto
  have ok1: "config_ok (c\<lparr>cf_world := w\<rparr>)" by (rule config_ok_shape [OF ok]) simp
  show ?thesis
  proof (cases q)
    case (Inl e)
    with load l ok1 show ?thesis by (simp add: LoadFromYaml_def)
  next
    case (Inr u)
    with load l have "efor (load_node env Y) ms (c\<lparr>cf_world := w\<rparr>) = (r, c')" by (simp add: LoadFromYaml_def)
    from efor_invariant [of config_ok, OF ok1 _ this] show ?thesis by (blast intro: load_node_ok)
  qed
qed

lemma config_start_ok: "config_start c \<Longrightarrow> config_ok c"
  by (erule config_start.cases) (simp add: config_ok_def)

interpretation registry: invariant_system config_start "config_step env Y" config_ok for env Y
  by unfold_locales (auto elim: config_start_ok config_ok_step)

text \<open>Whatever is done with the configuration, every registered name consists of lower case
  letters, digits, dots and underscores, it is the name of the variable it stands for, and so two
  names never stand for the same variable.\<close>

theorem registered_names:
  assumes "reach config_start (config_step env Y) c" and "LookupBase n c = Some p"
  shows "only_chars name_chars n \<and> cv_name (the_var c p) = n \<and> (\<forall>m. LookupBase m c = Some p \<longrightarrow> m = n)"
proof -
  have name: "only_chars name_chars m \<and> cv_name (the_var c p) = m" if "LookupBase m c = Some p" for m
    using config_ok_name [OF registry.reach_inv [OF assms(1)], of m p] that
    by (auto simp: LookupBase_def the_var_def simp del: map_of_eq_Some_iff)
  from name [OF assms(2)] name show ?thesis by auto
qed

section \<open>Names keep their variables\<close>

text \<open>A registered name still stands for the same variable, and that one has the type it had.\<close>

definition keeps_names :: "('v, 'w) config \<Rightarrow> ('v, 'w) config \<Rightarrow> bool" where
  "keeps_names c c' \<longleftrightarrow> (\<forall>n p. map_of (cf_data c) n = Some p \<longrightarrow>
     map_of (cf_data c') n = Some p \<and> cv_type (the_var c' p) = cv_type (the_var c p))"

lemma keeps_names_refl [simp]: "keeps_names c c"
  by (simp add: keeps_names_def)

lemma keeps_names_trans: "keeps_names a b \<Longrightarrow> keeps_names b c \<Longrightarrow> keeps_names a c"
  unfolding keeps_names_def by metis

lemma keeps_names_shape:
  assumes "config_ok c" and "same_shape c c'"
  shows "keeps_names c c'"
  unfolding keeps_names_def
proof (intro allI impI)
  fix n p
  assume p: "map_of (cf_data c) n = Some p"
  then obtain x where "cf_vars c p = Some x" using config_ok_name [OF assms(1)] by blast
  with same_shapeD [OF assms(2) this] p assms(2)
  show "map_of (cf_data c') n = Some p \<and> cv_type (the_var c' p) = cv_type (the_var c p)"
    by (auto simp: same_shape_def the_var_def simp del: map_of_eq_Some_iff)
qed

lemma load_node_names:
  assumes "config_ok c" and "load_node env Y m c = (r, c')"
  shows "keeps_names c c'"
proof (cases "fst m = [] \<or> map_of (cf_data c) (map tolower (fst m)) = None \<or> (\<exists>e. node_text Y (snd m) = Inl e)")
  case True
  with assms show ?thesis by (auto simp: load_node_def LookupBase_def split: prod.splits option.splits if_splits)
next
  case False
  then obtain p s where p: "map_of (cf_data c) (map tolower (fst m)) = Some p" "node_text Y (snd m) = Inr s"
    by (cases "node_text Y (snd m)") auto
  obtain b c1 where f: "fromString env p s c = (b, c1)" by (cases "fromString env p s c")
  have "same_shape c c1"
    by (rule fromString_shape [OF _ f]) (use config_ok_name [OF assms(1) p(1)] in auto)
  moreover have "c' = c1"
    using assms(2) False p f by (auto simp: load_node_def LookupBase_def case_prod_beta split: sum.splits)
  ultimately show ?thesis using keeps_names_shape [OF assms(1)] by simp
qed

lemma keeps_names_step:
  assumes "config_step env Y c c'" and ok: "config_ok c"
  shows "keeps_names c c'"
  using assms(1)
proof cases
  case (lookup ty n v d r)
  have "keeps_names c ((put_var (cf_next c) (new_ConfigVar ty n v d) c)
      \<lparr>cf_next := cf_next c + 1, cf_data := smap_put n (cf_next c) (cf_data c)\<rparr>)" if "map_of (cf_data c) n = None"
    using that ok by (force simp: keeps_names_def config_ok_def simp del: map_of_eq_Some_iff)
  then show ?thesis
    using lookup
    by (cases "map_of (cf_data c) n"; cases "only_chars name_chars n")
      (auto simp: Lookup_new, auto simp: Lookup_def toString_def Let_def keeps_names_def
        split: if_splits prod.splits sum.splits)
next
  case (set_value p v r)
  show ?thesis by (rule keeps_names_shape [OF ok setValue_shape [OF set_value]])
next
  case (from_string p s r)
  show ?thesis by (rule keeps_names_shape [OF ok fromString_shape [OF from_string]])
next
  case (load d root r)
  obtain q w ms where l: "ListAllMember (\<lambda>w msg. report env msg w) Y d [] root (cf_world c, []) = (q, (w, ms))"
    by (cases "ListAllMember (\<lambda>w msg. report env msg w) Y d [] root (cf_world c, [])") auto
  let ?c = "c\<lparr>cf_world := w\<rparr>"
  have first: "config_ok ?c" "keeps_names c ?c" using config_ok_shape [OF ok] keeps_names_shape [OF ok] by simp_all
  show ?thesis
  proof (cases q)
    case (Inl e)
    with load l first show ?thesis by (simp add: LoadFromYaml_def)
  next
    case (Inr u)
    with load l have "efor (load_node env Y) ms ?c = (r, c')" by (simp add: LoadFromYaml_def)
    from efor_invariant [of "\<lambda>b. config_ok b \<and> keeps_names c b", OF _ _ this] first show ?thesis
      by (blast intro: load_node_ok load_node_names keeps_names_trans)
  qed
qed (auto simp: addListener_def delListener_def clearListener_def keeps_names_def Let_def)

lemma keeps_names_steps:
  assumes "(config_step env Y)\<^sup>*\<^sup>* c c'" and "config_ok c"
  shows "keeps_names c c' \<and> config_ok c'"
  using assms
proof (induction rule: rtranclp_induct)
  case (step a b)
  then show ?case using keeps_names_step config_ok_step keeps_names_trans by blast
qed simp

lemma found_later:
  assumes "(config_step env Y)\<^sup>*\<^sup>* c c'" and "config_ok c"
    and "map_of (cf_data c) n = Some p" and "cv_type (the_var c p) = ty"
  shows "fst (Lookup env ty n v d c') = Inr (Some p) \<and> LookupBase n c' = Some p"
  using keeps_names_steps [OF assms(1,2)] assms(3,4) Lookup_found [of c' n p ty env v d]
  by (auto simp: keeps_names_def LookupBase_def simp del: map_of_eq_Some_iff)

text \<open>C32. \<open>Lookup\<close> by name and type, in one thread and in a registry that the library's operations have built. A name that is registered with the type gives its
  variable and changes no variable, whatever the default; one registered with another type gives a null
  pointer (if that variable's value cannot be printed, the cast fails with an exception that is caught);
  a new name with only allowed characters makes a variable with the default value and no listeners at an
  address that was not in use; a new name with another character throws and registers nothing. And the
  registry keeps what was returned: after any later sequence of lookups of any names and types, calls of
  \<open>setValue\<close> and \<open>fromString\<close>, changes of listeners and loaded documents, \<open>Lookup\<close> of the name and type
  still returns this variable, whatever default and description are passed, and so does \<open>LookupBase\<close>.\<close>

theorem Lookup_spec:
  assumes "config_ok c" and "\<forall>t x e. to_str env t x = Inl e \<longrightarrow> is_exception e"
  shows "(case map_of (cf_data c) n of
      Some p \<Rightarrow> (\<exists>c'. Lookup env ty n v d c = (Inr (if cv_type (the_var c p) = ty then Some p else None), c')
                  \<and> cf_vars c' = cf_vars c \<and> cf_data c' = cf_data c)
    | None \<Rightarrow>
        if only_chars name_chars n then
          (\<exists>p c'. Lookup env ty n v d c = (Inr (Some p), c') \<and> cf_vars c p = None
             \<and> cf_vars c' = (cf_vars c)(p \<mapsto> \<lparr>cv_name = n, cv_description = d, cv_type = ty, cv_val = v, cv_cbs = []\<rparr>))
        else (\<exists>c'. Lookup env ty n v d c = (Inl (Throw n), c') \<and> cf_vars c' = cf_vars c \<and> cf_data c' = cf_data c))
    \<and> (\<forall>p c' c'' v' d'. Lookup env ty n v d c = (Inr (Some p), c') \<and> (config_step env Y)\<^sup>*\<^sup>* c' c'' \<longrightarrow>
         fst (Lookup env ty n v' d' c'') = Inr (Some p) \<and> LookupBase n c'' = Some p)"
proof (rule conjI)
  have later: "fst (Lookup env ty n v' d' c'') = Inr (Some p) \<and> LookupBase n c'' = Some p"
    if made: "Lookup env ty n v d c = (Inr (Some p), c')" and run: "(config_step env Y)\<^sup>*\<^sup>* c' c''" for p c' c'' v' d'
  proof -
    have "map_of (cf_data c') n = Some p \<and> cv_type (the_var c' p) = ty"
      using made by (cases "map_of (cf_data c) n"; cases "only_chars name_chars n")
        (auto simp: Lookup_new new_ConfigVar_def, auto simp: Lookup_def split: if_splits prod.splits sum.splits)
    with found_later [OF run] config_ok_step [OF config_step.lookup [OF made] assms(1)] show ?thesis by blast
  qed
  then show "\<forall>p c' c'' v' d'. Lookup env ty n v d c = (Inr (Some p), c') \<and> (config_step env Y)\<^sup>*\<^sup>* c' c'' \<longrightarrow>
      fst (Lookup env ty n v' d' c'') = Inr (Some p) \<and> LookupBase n c'' = Some p" by blast
next
  show "case map_of (cf_data c) n of
      Some p \<Rightarrow> (\<exists>c'. Lookup env ty n v d c = (Inr (if cv_type (the_var c p) = ty then Some p else None), c')
                  \<and> cf_vars c' = cf_vars c \<and> cf_data c' = cf_data c)
    | None \<Rightarrow>
        if only_chars name_chars n then
          (\<exists>p c'. Lookup env ty n v d c = (Inr (Some p), c') \<and> cf_vars c p = None
             \<and> cf_vars c' = (cf_vars c)(p \<mapsto> \<lparr>cv_name = n, cv_description = d, cv_type = ty, cv_val = v, cv_cbs = []\<rparr>))
        else (\<exists>c'. Lookup env ty n v d c = (Inl (Throw n), c') \<and> cf_vars c' = cf_vars c \<and> cf_data c' = cf_data c)"
  proof (cases "map_of (cf_data c) n")
    case (Some p)
    then show ?thesis
      using assms(2) by (auto simp: Lookup_def toString_def Let_def split: sum.split)
  next
    case None
    have "cf_vars c (cf_next c) = None" using assms(1) by (auto simp: config_ok_def)
    with None show ?thesis
      by (cases "only_chars name_chars n") (simp_all add: Lookup_new new_ConfigVar_def, simp add: Lookup_def)
  qed
qed

end
