(* ===== verification/Config_Examples.thy ===== *)
theory Config_Examples
  imports Config_Load
begin

text \<open>
  A configuration with one variable, and the theorems about the configuration at it.
\<close>

text \<open>
  String values; reading fails on the empty text. The rest of the state is the list of the messages
  and of the values listeners have seen.
\<close>

definition example_cfg :: "(string, string list) cfg_env" where
  "example_cfg =
     \<lparr>from_str = (\<lambda>_ s. if s = [] then Inl (Throw ''bad_lexical_cast'') else Inr s),
      to_str = (\<lambda>_ v. Inr v), veq = (\<lambda>_. (=)), report = (\<lambda>msg w. w @ [msg])\<rparr>"

definition example_start :: "(string, string list) config" where
  "example_start = \<lparr>cf_vars = (\<lambda>_. None), cf_data = [], cf_next = 0, cf_fun_id = (\<lambda>_. 0), cf_world = []\<rparr>"

definition example_config :: "(string, string list) config" where
  "example_config = snd (Lookup example_cfg ''string'' ''port'' ''80'' ''a port'' example_start)"

lemma example_lookup: "Lookup example_cfg ''string'' ''port'' ''80'' ''a port'' example_start =
    (Inr (Some 0), example_config)"
  by (simp add: example_config_def Lookup_def example_start_def only_chars_def name_chars_def)

lemma example_config_eq [simp]:
  "cf_vars example_config = [0 \<mapsto> \<lparr>cv_name = ''port'', cv_description = ''a port'', cv_type = ''string'',
     cv_val = ''80'', cv_cbs = []\<rparr>]"
  "cf_data example_config = [(''port'', 0)]" "cf_next example_config = 1" "cf_fun_id example_config = (\<lambda>_. 0)"
  "cf_world example_config = []"
  by (simp_all add: example_config_def Lookup_def example_start_def only_chars_def name_chars_def
      new_ConfigVar_def tolower_def put_var_def)

lemma example_var [simp]:
  "the_var example_config 0 = \<lparr>cv_name = ''port'', cv_description = ''a port'', cv_type = ''string'',
     cv_val = ''80'', cv_cbs = []\<rparr>"
  by (simp add: the_var_def)

lemma example_config_reach: "reach config_start (config_step example_cfg tree_yaml) example_config"
  by (rule reach_step, rule reach_init, rule config_start.intros)
    (rule config_step.lookup, rule example_lookup [unfolded example_start_def])

lemma example_ok: "config_ok example_config"
  by (rule registry.reach_inv [OF example_config_reach])

definition watch :: "string \<Rightarrow> (string, string list) on_change" where
  "watch tag = Some (\<lambda>old new w. (Inr (), w @ [tag @ old @ new]))"

theorem listeners_in_order_witness:
  "let c' = snd (add_all 0 [watch ''a'', watch ''b''] example_config)
   in cf_world (snd (setValue example_cfg 0 ''90'' c')) = [''a8090'', ''b8090'']
      \<and> getValue (snd (setValue example_cfg 0 ''90'' c')) 0 = ''90''"
proof -
  obtain ks c' where add: "add_all 0 [watch ''a'', watch ''b''] example_config = (ks, c')"
    by (cases "add_all 0 [watch ''a'', watch ''b''] example_config")
  then have "cf_world c' = []" by (auto simp: addListener_def Let_def)
  then have run: "efor (\<lambda>f. call_listener f (cv_val (the_var example_config 0)) ''90'')
      (map snd (cv_cbs (the_var example_config 0)) @ [watch ''a'', watch ''b'']) (cf_world c') =
      (Inr (), [''a8090'', ''b8090''])"
    by (simp add: call_listener_def watch_def)
  have "keys_ok example_config 0" by (simp add: keys_ok_def)
  from listeners_in_order [OF this _ add _ run, of example_cfg] add show ?thesis
    by (simp add: example_cfg_def getValue_def Let_def)
qed

theorem listener_keys_witness:
  "\<exists>k c'. addListener 0 (watch ''a'') example_config = (k, c') \<and> getListener c' 0 k = watch ''a''"
proof -
  obtain k c' where add: "addListener 0 (watch ''a'') example_config = (k, c')"
    by (cases "addListener 0 (watch ''a'') example_config")
  from listener_keys [OF this] add show ?thesis by blast
qed

theorem fromString_is_atomic_witness:
  "\<exists>c'. fromString example_cfg 0 [] example_config = (Inr False, c') \<and> cf_vars c' = cf_vars example_config"
proof -
  obtain r c' where f: "fromString example_cfg 0 [] example_config = (r, c')"
    by (cases "fromString example_cfg 0 [] example_config")
  then have "r = Inr False" by (simp add: fromString_def example_cfg_def)
  with fromString_is_atomic [OF f] f show ?thesis by blast
qed

text \<open>A variable is made, given another value, and found again.\<close>

theorem Lookup_spec_witness:
  "\<exists>c1 c2. Lookup example_cfg ''string'' ''host'' ''a'' [] example_config = (Inr (Some 1), c1)
     \<and> setValue example_cfg 1 ''b'' c1 = (Inr (), c2)
     \<and> fst (Lookup example_cfg ''string'' ''host'' ''c'' [] c2) = Inr (Some 1)"
proof -
  have ok: "\<forall>t x e. to_str example_cfg t x = Inl e \<longrightarrow> is_exception e" by (simp add: example_cfg_def)
  have "only_chars name_chars ''host''" by (simp add: only_chars_def name_chars_def)
  then obtain c1 where made: "Lookup example_cfg ''string'' ''host'' ''a'' [] example_config = (Inr (Some 1), c1)"
    and c1: "cf_vars c1 1 \<noteq> None" "cv_cbs (the_var c1 1) = []"
    by (simp add: Lookup_new new_ConfigVar_def)
  obtain r c2 where set: "setValue example_cfg 1 ''b'' c1 = (r, c2)" by (cases "setValue example_cfg 1 ''b'' c1")
  then have "r = Inr ()" using c1(2) by (auto simp: setValue_def Let_def split: if_splits)
  moreover have "(config_step example_cfg tree_yaml)\<^sup>*\<^sup>* c1 c2"
    using config_step.set_value [OF c1(1) set] by blast
  ultimately show ?thesis
    using Lookup_spec [OF example_ok ok, of "''host''" "''string''" "''a''" "[]" tree_yaml] made set by auto
qed

text \<open>A document with two entries for the variable, the second one empty.\<close>

definition example_doc :: tree where
  "example_doc = TMap [(''port'', TStr ''90''), (''Port'', TStr ''91''), (''port'', TStr [])]"

fun tree_depth :: "tree \<Rightarrow> nat" where
  "tree_depth (TMap ps) = Suc (sum_list (map (\<lambda>(k, t). tree_depth t) ps))"
| "tree_depth _ = 0"

lemma tree_ranked: "ranked tree_yaml tree_depth"
proof -
  have "tree_depth v < tree_depth (TMap ps)" if "(k, v) \<in> set ps" for k v ps
    using that by (induction ps) auto
  then show ?thesis by (auto simp: ranked_def tree_yaml_def split: tree.splits)
qed

lemma doc_members: "members tree_yaml 3 [] example_doc =
    [([], example_doc), (''port'', TStr ''90''), (''port'', TStr [])]"
  by (simp add: example_doc_def tree_yaml_def eval_nat_numeral key_of_def join_def only_chars_def name_chars_def)

theorem ListAllMember_lists_members_witness:
  "\<exists>w'. ListAllMember (\<lambda>w msg. msg # w) tree_yaml 2 [] example_doc ([], []) =
     (Inr (), (w', [([], example_doc), (''port'', TStr ''90''), (''port'', TStr [])]))"
  using ListAllMember_lists_members [OF tree_ranked, of example_doc 2 3 "\<lambda>w msg. msg # w" "[]"]
  by (simp add: doc_members) (auto simp: example_doc_def)

theorem LoadFromYaml_values_witness:
  "\<exists>c'. LoadFromYaml example_cfg tree_yaml 3 example_doc example_config = (Inr (), c') \<and> getValue c' 0 = ''90''"
proof -
  have "quiet example_config" by (simp add: quiet_def)
  moreover have "casts_throw example_cfg" by (simp add: casts_throw_def example_cfg_def)
  moreover have "tree_depth example_doc < 3" by (simp add: example_doc_def)
  moreover have scalar: "\<forall>node. y_IsScalar tree_yaml node \<longrightarrow> (\<exists>s. y_Scalar tree_yaml node = Inr s)"
    by (simp add: tree_yaml_def split: tree.split)
  ultimately obtain c' where c': "LoadFromYaml example_cfg tree_yaml 3 example_doc example_config = (Inr (), c')"
    "\<forall>n p x. map_of (cf_data example_config) n = Some p \<and> cf_vars example_config p = Some x \<longrightarrow>
       getValue c' p = foldl (update example_cfg (cv_type x)) (getValue example_config p)
         (texts tree_yaml (members tree_yaml 3 [] example_doc) n)"
    using LoadFromYaml_values [OF example_ok _ _ tree_ranked] by blast
  from c'(2) [rule_format, of "''port''" 0] have "getValue c' 0 = ''90''"
    unfolding doc_members
    by (simp add: texts_def node_text_def update_def example_cfg_def getValue_def tree_yaml_def)
  with c'(1) show ?thesis by blast
qed

theorem registered_names_witness:
  "LookupBase ''port'' example_config = Some 0 \<and> cv_name (the_var example_config 0) = ''port''"
  using registered_names [OF example_config_reach, of "''port''" 0] by (simp add: LookupBase_def)

end
