(* ===== verification/Logger_Examples.thy ===== *)
theory Logger_Examples
  imports Logger_Setup
begin

text \<open>
  The line every logger writes until it gets another formatter, and the states on which the
  theorems about loggers are instantiated.
\<close>

section \<open>The default pattern\<close>

text \<open>The directives of the default pattern.\<close>

definition default_directives :: "directive list" where
  "default_directives =
     [Braced ''d'' ''%Y-%m-%d %H:%M:%S'', Plain ''T'', Plain ''t'', Plain ''T'', Plain ''N'', Plain ''T'',
      Plain ''F'', Plain ''T'', Lit ''['', Plain ''p'', Lit '']'', Plain ''T'', Lit ''['', Plain ''c'',
      Lit '']'', Plain ''T'', Plain ''f'', Lit '':'', Plain ''l'', Plain ''T'', Plain ''m'', Plain ''n'']"

lemma default_rendered: "render default_directives = default_pattern" "separable default_directives"
  by (simp_all add: default_directives_def default_pattern_def isalpha_def)

text \<open>What a logger writes before it gets another formatter: date and time, thread id, thread name,
  coroutine id, level, logger name, file and line, and the message, separated by tabs and ended by a
  newline; the pattern has no error.\<close>

theorem default_line:
  "\<not> formatter.m_error (LogFormatter default_pattern)
   \<and> formatter_format sf (LogFormatter default_pattern) lev ev =
      sf ''%Y-%m-%d %H:%M:%S'' (m_time ev) @ [CHR 0x09]
      @ show_nat (unat (m_threadId ev)) @ [CHR 0x09]
      @ m_threadName ev @ [CHR 0x09]
      @ show_nat (unat (m_coroutineId ev)) @ [CHR 0x09]
      @ ''['' @ ToString lev @ '']'' @ [CHR 0x09]
      @ ''['' @ m_logger_real_name ev @ '']'' @ [CHR 0x09]
      @ m_file ev @ '':'' @ show_int (sint (m_line ev)) @ [CHR 0x09]
      @ m_ss ev @ [CHR 0x0A]"
proof -
  have "scan_rest default_pattern [] = (map directive_tuple default_directives, False)"
    using scan_rest_render [OF default_rendered(2), of "[]"] by (simp add: default_rendered)
  then have "LogFormatter default_pattern =
      \<lparr>m_pattern = default_pattern, m_items = map (tuple_item \<circ> directive_tuple) default_directives,
       m_error = (\<exists>d \<in> set default_directives. bad_tuple (directive_tuple d))\<rparr>"
    by (simp add: LogFormatter_scan)
  then show ?thesis
    by (simp add: default_directives_def formatter_format_def known_def s_format_items_def
        new_DateTimeFormatItem_def)
qed

section \<open>Witnesses\<close>

text \<open>A C library whose clock stands at 5 and a file system that allows everything.\<close>

definition example_env :: log_env where
  "example_env = \<lparr>strftime = (\<lambda>f t. ''.d1''), now = 5, reopen_time = 6, openable = (\<lambda>_. True), writable = (\<lambda>_. True)\<rparr>"

definition example_event :: log_event where
  "example_event = LogEvent ''a.cpp'' 3 0 9 ''main'' 0 5 ''root''"

text \<open>The logger \<open>net\<close>, made by the manager; it has no appenders.\<close>

definition net_world :: log_world where
  "net_world = snd (getLogger ''net'' manager_world)"

lemma getLogger_net: "getLogger ''net'' manager_world = (2, net_world)"
  by (simp add: net_world_def getLogger_def alloc_logger_def)

lemma net_lookups [simp]:
  "w_loggers net_world l = (if l = 2 then Some ((new_Logger ''net'')\<lparr>lg_root := Some 0\<rparr>)
     else w_loggers manager_world l)"
  "w_appenders net_world = w_appenders manager_world" "w_root net_world = 0"
  by (simp_all add: net_world_def getLogger_def alloc_logger_def)

lemma net_ok: "log_ok net_world"
  by (rule log_ok_get [OF log_ok_manager getLogger_net])

lemma net_reach: "reach manager_started log_step net_world"
  by (rule reach_step, rule reach_init, rule manager_started.intros, rule LogManager_world)
    (rule log_step.get, rule getLogger_net)

lemma net_targets: "targets net_world 2 INFO = [1]"
  by (simp add: targets_def new_Logger_def the_logger_def less_level_def)

theorem log_reaches_targets_witness:
  "logger_log 7 example_env 2 INFO example_event net_world =
     Some (efor (\<lambda>a. appender_log example_env a INFO example_event) [1] net_world)"
  using log_reaches_targets [of net_world 2 7 example_env INFO example_event] log_okD(2) [OF net_ok]
  by (simp add: net_targets)

theorem log_output_witness:
  "\<exists>w'. log example_env 2 INFO example_event net_world = (Inr (), w')
     \<and> w_cout w' = w_cout net_world @ stdout_text example_env net_world INFO example_event 1"
proof -
  have "\<forall>a \<in> set (targets net_world 2 INFO). has_formatter net_world a"
    by (simp add: net_targets has_formatter_def the_appender_def)
  then show ?thesis
    using log_output [of net_world 2 INFO example_env example_event] log_okD(2) [OF net_ok]
    by (auto simp: net_targets)
qed

theorem log_never_fails_witness:
  "\<exists>w'. log example_env 2 INFO example_event net_world = (Inr (), w')"
  using log_never_fails [OF net_reach, of 2 example_env INFO example_event] by auto

text \<open>A file appender with a formatter, as \<open>reopen\<close> leaves it, and one whose stream has failed.\<close>

definition file_world :: "bool \<Rightarrow> log_world" where
  "file_world failed = put_appender 3
     ((new_FileLogAppender example_env ''log'' UNKNOWN)
        \<lparr>ap_formatter := Some (LogFormatter ''x''),
         ap_filestream := \<lparr>fs_open = Some ''log.d1'', fs_fail = failed\<rparr>\<rparr>) empty_log_world"

lemma format_x: "formatter_format sf (LogFormatter ''x'') lev ev = ''x''"
  by (simp add: LogFormatter_scan scan_rest_steps formatter_format_def)

theorem file_log_rotates_witness:
  "\<exists>w'. appender_log example_env 3 INFO example_event (file_world False) = (Inr (), w')
     \<and> w_files w' ''log.d1'' = ''x''"
  using file_log_rotates [of "file_world False" 3 _ "LogFormatter ''x''" INFO example_env example_event]
  by (auto simp: file_world_def put_appender_def new_FileLogAppender_def reopen_def fs_close_def
      fs_do_open_def example_env_def dated_def empty_log_world_def format_x Let_def)

theorem file_error_is_final_witness:
  "\<exists>w'. appender_log example_env 3 INFO example_event (file_world True) = (Inr (), w')
     \<and> w_files w' ''log.d1'' = []"
  using file_error_is_final [of "file_world True" 3 _ "LogFormatter ''x''" example_env INFO example_event]
  by (auto simp: file_world_def put_appender_def new_FileLogAppender_def reopen_def broken_def
      empty_log_world_def Let_def)

theorem getLogger_registry_witness:
  "getLogger ''net'' net_world = (2, net_world)
    \<and> the_logger net_world 2 = (new_Logger ''net'')\<lparr>lg_root := Some 0\<rparr>"
  using getLogger_registry [OF log_okD(1) [OF log_ok_manager] getLogger_net] by auto

theorem null_formatter_crashes_witness:
  "fst (log example_env 0 FATAL example_event (appender_setFormatter 1 None manager_world)) =
     Inl (Null_pointer ''m_formatter'')"
  by (rule null_formatter_crashes [of _ _ "(new_Logger ''root'')\<lparr>lg_appenders := [1]\<rparr>" _ "[]"])
    (simp_all add: new_Logger_def new_StdoutLogAppender_def less_eq_level_def)

theorem setFormatter_string_checks_witness:
  "setFormatter_string 0 ''x'' manager_world = setFormatter 0 (Some (LogFormatter ''x'')) manager_world"
  using setFormatter_string_checks [of "''x''" 0 manager_world]
  by (simp add: LogFormatter_scan scan_rest_steps)

end
