(* ===== verification/Log_Config_Examples.thy ===== *)
theory Log_Config_Examples
  imports Log_Config_Listener Logger_Yaml Config_Examples Logger_Examples
begin

text \<open>
  The theorems on the configuration of loggers at concrete definitions.
\<close>

definition net_define :: log_define where
  "net_define = \<lparr>ld_name = ''net'', ld_level = WARN, ld_formatter = ''x'',
     ld_appenders = [\<lparr>ad_type = AtStd, ad_level = INFO, ad_formatter = [], ad_file = []\<rparr>]\<rparr>"

definition old_define :: log_define where
  "old_define = \<lparr>ld_name = ''old'', ld_level = INFO, ld_formatter = [], ld_appenders = []\<rparr>"

theorem LogDefine_roundtrip_witness:
  "\<exists>s. LogDefine_to_str tree_yaml net_define = Inr s \<and> LogDefine_from_str tree_yaml s [] = (Inr net_define, [])"
  using LogDefine_roundtrip [OF tree_laws, of net_define "[]"] by (simp add: net_define_def writable_lad_def)

theorem unknown_appender_type_crashes_witness:
  "\<exists>lad msg. appender_define tree_yaml TNull (TMap [(''type'', TStr ''Syslog'')]) [] = (Inr (Some lad), msg)
     \<and> fst (add_define example_env ''net'' 2 lad net_world) = Inl (Null_pointer ''ap'')"
proof -
  let ?ap = "TMap [(''type'', TStr ''Syslog'')]"
  have "get_string tree_yaml ?ap ''type'' = Inr (Some ''Syslog'')"
    "get_string tree_yaml ?ap ''level'' = Inr None"
    by (simp_all add: get_string_def get_defined_def tree_yaml_def)
  from unknown_appender_type_crashes [OF this(1) _ _ this(2), of TNull "[]" example_env "''net''" 2 net_world]
  show ?thesis by auto
qed

text \<open>A configuration whose only variable is \<open>logs\<close>; the rest of the state are the loggers.\<close>

definition logs_env :: "(log_define list, log_world) cfg_env" where
  "logs_env = \<lparr>from_str = (\<lambda>_ _. Inl (Throw ''bad_lexical_cast'')), to_str = (\<lambda>_ _. Inr []),
     veq = (\<lambda>_. oset_eq ld_eq), report = (\<lambda>msg w. w)\<rparr>"

definition logs_config :: "log_define list \<Rightarrow> (log_define list, log_world) config" where
  "logs_config ds = \<lparr>cf_vars = [0 \<mapsto> (new_ConfigVar ''set'' ''logs'' ds ''logger system'')
       \<lparr>cv_cbs := [(0xF1E231, Some (log_listener example_env example_event))]\<rparr>],
     cf_data = [(''logs'', 0)], cf_next = 1, cf_fun_id = (\<lambda>_. 0), cf_world = net_world\<rparr>"

theorem appender_changes_are_ignored_witness:
  "setValue logs_env 0 [net_define\<lparr>ld_appenders := []\<rparr>] (logs_config [net_define]) = (Inr (), logs_config [net_define])"
  by (rule appender_changes_are_ignored) (simp_all add: logs_env_def logs_config_def the_var_def new_ConfigVar_def)

theorem listener_applies_definitions_witness:
  "\<exists>w'. log_listener example_env example_event [old_define] [net_define] net_world = (Inr (), w')
     \<and> is_defined w' net_define 3 (w_next w') \<and> silent w' ''old''"
proof -
  have "oset_find ld_less net_define [old_define] = None"
    by (simp add: oset_find_define net_define_def old_define_def)
  then have "\<forall>i \<in> set [net_define]. \<forall>it. oset_find ld_less i [old_define] = Some it \<longrightarrow> \<not> ld_eq i it" by simp
  moreover have "w_next net_world = 3"
    by (simp add: net_world_def getLogger_def alloc_logger_def manager_world_def empty_log_world_def)
  ultimately show ?thesis
    using listener_applies_definitions [OF net_ok, of "[net_define]" "[old_define]" example_env example_event]
    by (auto simp: net_define_def old_define_def)
qed

theorem unchanged_definition_crashes_witness:
  "\<exists>w'. log_listener example_env example_event [net_define] [net_define, old_define] net_world =
     (Inl (Null_pointer ''logger''), w')"
proof -
  have "oset_find ld_less net_define [net_define] = Some net_define" "ld_eq net_define net_define"
    by (simp_all add: oset_find_def ld_less_def ld_eq_def lad_eq_def net_define_def)
  from unchanged_definition_crashes [OF net_ok _ _ _ this, of "[]" example_env example_event "[old_define]"]
  show ?thesis by auto
qed

theorem logger_text_reads_back_witness:
  "\<exists>s. logger_toYamlString tree_yaml manager_world 0 = Inr s
     \<and> LogDefine_from_str tree_yaml s [] = (Inr (define_of_logger manager_world 0), [])
     \<and> ld_name (define_of_logger manager_world 0) = ''root''"
proof -
  have levels: "lg_level (the_logger manager_world 0) \<noteq> REMOVED"
    "\<forall>a \<in> set (lg_appenders (the_logger manager_world 0)). ap_level (the_appender manager_world a) \<noteq> REMOVED"
    by (simp_all add: the_logger_def the_appender_def new_Logger_def new_StdoutLogAppender_def)
  have "ld_name (define_of_logger manager_world 0) = ''root''"
    by (simp add: define_of_logger_def the_logger_def new_Logger_def Let_def)
  with logger_text_reads_back [OF tree_laws levels, of "[]"] show ?thesis by blast
qed

end
