(* ===== verification/Logs_Setting.thy ===== *)
theory Logs_Setting
  imports Log_Config_Listener Logger_Yaml
begin

text \<open>
  Setting the variable \<open>logs\<close>: the configuration variable, the listener and the loggers together, and
  the text that the configured loggers write of themselves.
\<close>

section \<open>From the configuration to the loggers and back\<close>

lemma m_pattern_LogFormatter [simp]: "m_pattern (LogFormatter p) = p"
  by (simp add: LogFormatter_def split: prod.split)

text \<open>A definition whose patterns are valid and whose levels have a text.\<close>

definition sound_define :: "log_define \<Rightarrow> bool" where
  "sound_define i \<longleftrightarrow> ld_formatter i \<noteq> [] \<and> \<not> formatter.m_error (LogFormatter (ld_formatter i)) \<and> ld_level i \<noteq> REMOVED
     \<and> (\<forall>ad \<in> set (ld_appenders i). writable_lad ad
          \<and> (ad_formatter ad \<noteq> [] \<longrightarrow> \<not> formatter.m_error (LogFormatter (ad_formatter ad))))"

lemma define_of_matching:
  assumes "ap_matches w f ad a" and "writable_lad ad"
    and "ad_formatter ad \<noteq> [] \<longrightarrow> \<not> formatter.m_error (LogFormatter (ad_formatter ad))"
  shows "define_of_appender (the_appender w a) = ad"
proof -
  obtain y where "w_appenders w a = Some y" "ap_kind y = kind_of (ad_type ad)" "ap_level y = ad_level ad"
    "ad_type ad = AtFile \<longrightarrow> ap_filename y = ad_file ad" "ap_hasFormatter y \<longleftrightarrow> ad_formatter ad \<noteq> []"
    "ad_formatter ad \<noteq> [] \<longrightarrow> ap_formatter y = Some (LogFormatter (ad_formatter ad))"
    using assms(1,3) unfolding ap_matches_def by auto
  then show ?thesis
    using assms(2)
    by (cases "ad_type ad"; cases ad) (auto simp: define_of_appender_def own_pattern_def kind_of_def writable_lad_def
        split: option.split)
qed

lemma define_of_defined:
  assumes ok: "log_ok w" and def: "is_defined w i m n" and sound: "sound_define i"
  obtains l where "map_of (w_registry w) (ld_name i) = Some l" "define_of_logger w l = i"
    "\<forall>a \<in> set (lg_appenders (the_logger w l)). ap_level (the_appender w a) \<noteq> REMOVED"
    "lg_level (the_logger w l) \<noteq> REMOVED"
proof -
  obtain l x where l: "map_of (w_registry w) (ld_name i) = Some l" "w_loggers w l = Some x" "lg_level x = ld_level i"
    "ld_formatter i \<noteq> [] \<and> \<not> formatter.m_error (LogFormatter (ld_formatter i)) \<longrightarrow>
          lg_formatter x = Some (LogFormatter (ld_formatter i))"
    "list_all2 (ap_matches w (lg_formatter x)) (ld_appenders i) (lg_appenders x)" "set (lg_appenders x) \<subseteq> {m..<n}"
    using def by (rule is_definedE)
  have name: "lg_name x = ld_name i"
    using log_okD(1) [OF ok] l(1,2) unfolding registry_ok_def by fastforce
  have "list_all2 (\<lambda>ad a. define_of_appender (the_appender w a) = ad) (ld_appenders i) (lg_appenders x)"
    by (rule list.rel_mono_strong [OF l(5)])
      (use sound in \<open>auto simp: sound_define_def intro!: define_of_matching\<close>)
  then have aps: "map (\<lambda>a. define_of_appender (the_appender w a)) (lg_appenders x) = ld_appenders i"
    by (induction rule: list_all2_induct) simp_all
  have lev: "ap_level (the_appender w a) \<noteq> REMOVED" if "a \<in> set (lg_appenders x)" for a
  proof -
    have "define_of_appender (the_appender w a) \<in> set (ld_appenders i)" unfolding aps [symmetric] using that by simp
    then have "ad_level (define_of_appender (the_appender w a)) \<noteq> REMOVED"
      using sound by (auto simp: sound_define_def writable_lad_def)
    then show ?thesis by (simp add: define_of_appender_def)
  qed
  have "define_of_logger w l = i"
    using l(2,3,4) sound aps name by (cases i) (simp add: define_of_logger_def sound_define_def)
  with l(1,2,3) lev sound show thesis by (intro that [of l]) (auto simp: sound_define_def)
qed

lemma logger_text_define:
  assumes laws: "yaml_laws Y" and "log_ok w" and "is_defined w i m n" and "sound_define i"
  shows "\<exists>l s. map_of (w_registry w) (ld_name i) = Some l \<and> logger_toYamlString Y w l = Inr s
    \<and> LogDefine_from_str Y s out = (Inr i, out)"
proof -
  obtain l where l: "map_of (w_registry w) (ld_name i) = Some l" "define_of_logger w l = i"
    "\<forall>a \<in> set (lg_appenders (the_logger w l)). ap_level (the_appender w a) \<noteq> REMOVED"
    "lg_level (the_logger w l) \<noteq> REMOVED"
    using define_of_defined [OF assms(2-4)] .
  with logger_text_read [OF laws l(4,3)] show ?thesis by metis
qed

lemma setting_logs:
  assumes laws: "yaml_laws Y" and eq: "veq cfg (cv_type (the_var c p)) = oset_eq ld_eq"
    and listener: "cv_cbs (the_var c p) = [(k, Some (log_listener env ev))]"
    and ok: "log_ok (cf_world c)" and dist: "distinct (map ld_name new)"
    and sound: "\<forall>i \<in> set new. sound_define i"
    and changed: "\<forall>i \<in> set new. \<forall>it. oset_find ld_less i (cv_val (the_var c p)) = Some it \<longrightarrow> \<not> ld_eq i it"
    and differs: "\<not> oset_eq ld_eq new (cv_val (the_var c p))"
  shows "\<exists>c'. setValue cfg p new c = (Inr (), c') \<and> getValue c' p = new \<and> log_ok (cf_world c')
    \<and> (\<forall>i \<in> set new. is_defined (cf_world c') i (w_next (cf_world c)) (w_next (cf_world c'))
          \<and> (\<exists>l s. map_of (w_registry (cf_world c')) (ld_name i) = Some l
               \<and> logger_toYamlString Y (cf_world c') l = Inr s \<and> LogDefine_from_str Y s out = (Inr i, out)))
    \<and> (\<forall>i \<in> set (cv_val (the_var c p)). ld_name i \<notin> ld_name ` set new \<longrightarrow> silent (cf_world c') (ld_name i))
    \<and> others_same (ld_name ` (set (cv_val (the_var c p)) \<union> set new)) (cf_world c) (cf_world c')"
proof -
  let ?old = "cv_val (the_var c p)"
  have known: "\<forall>i \<in> set new. \<forall>ad \<in> set (ld_appenders i). ad_type ad \<noteq> AtUnknown"
    using sound by (auto simp: sound_define_def writable_lad_def)
  obtain w' where w': "log_listener env ev ?old new (cf_world c) = (Inr (), w')" "log_ok w'"
    "\<forall>i \<in> set new. is_defined w' i (w_next (cf_world c)) (w_next w')"
    "\<forall>i \<in> set ?old. ld_name i \<notin> ld_name ` set new \<longrightarrow> silent w' (ld_name i)"
    "others_same (ld_name ` (set ?old \<union> set new)) (cf_world c) w'"
    using log_listener_applies [OF ok dist known changed, of env ev] by blast
  let ?c' = "put_var p ((the_var c p)\<lparr>cv_val := new\<rparr>) (c\<lparr>cf_world := w'\<rparr>)"
  have "setValue cfg p new c = (Inr (), ?c')"
    using eq differs w'(1) by (simp add: setValue_def listener call_listener_def Let_def)
  moreover have "getValue ?c' p = new" "cf_world ?c' = w'"
    by (simp_all add: getValue_def the_var_def put_var_def)
  moreover have "\<exists>l s. map_of (w_registry w') (ld_name i) = Some l
      \<and> logger_toYamlString Y w' l = Inr s \<and> LogDefine_from_str Y s out = (Inr i, out)" if "i \<in> set new" for i
    by (rule logger_text_define [OF laws w'(2)]) (use w'(3) sound that in blast)+
  ultimately show ?thesis using w'(2-5) by (intro exI [of _ ?c']) simp
qed

end
