(* ===== verification/Log_Macros.thy ===== *)
theory Log_Macros
  imports Logger_Examples
begin

text \<open>
  The logging macros of \<open>mocker/log.h\<close> with \<open>LogEventWrapper\<close>, the backtraces of \<open>mocker/util.cpp\<close> and
  the assertion macros of \<open>mocker/macro.h\<close>, which log before they abort.
\<close>

section \<open>The macros\<close>

text \<open>What the running thread answers: \<open>GetThreadId\<close>, \<open>GetCurrentName\<close> and its coroutine's id.\<close>

record caller =
  cl_tid :: "32 word"
  cl_name :: string
  cl_cort :: "64 word"

text \<open>The event of a macro at a place in the source, for the logger \<open>l\<close>.\<close>

definition event_at :: "log_env \<Rightarrow> caller \<Rightarrow> string \<Rightarrow> 32 word \<Rightarrow> log_world \<Rightarrow> ref \<Rightarrow> log_event" where
  "event_at env cl src line w l =
     macro_event src line (cl_tid cl) (cl_name cl) (cl_cort cl) (now env) (lg_name (the_logger w l))"

text \<open>The destructor of \<open>LogEventWrapper\<close> logs the event.\<close>

definition delete_LogEventWrapper :: "log_env \<Rightarrow> ref \<Rightarrow> level \<Rightarrow> log_event \<Rightarrow> (log_world, unit) eff" where
  "delete_LogEventWrapper env m_logger m_level m_event = log env m_logger m_level m_event"

text \<open>\<open>MOCKER_LOG_LEVEL(logger, level) << content\<close>.\<close>

definition MOCKER_LOG_LEVEL :: "log_env \<Rightarrow> caller \<Rightarrow> string \<Rightarrow> 32 word \<Rightarrow> ref \<Rightarrow> level \<Rightarrow> string
    \<Rightarrow> (log_world, unit) eff" where
  "MOCKER_LOG_LEVEL env cl src line l lev content w =
     delete_LogEventWrapper env l lev (event_put content (event_at env cl src line w l)) w"

text \<open>\<open>MOCKER_LOG_FMT_LEVEL(logger, level, fmt, ...)\<close>.\<close>

definition MOCKER_LOG_FMT_LEVEL :: "(string \<Rightarrow> 'args \<Rightarrow> string option) \<Rightarrow> log_env \<Rightarrow> caller \<Rightarrow> string \<Rightarrow> 32 word
    \<Rightarrow> ref \<Rightarrow> level \<Rightarrow> string \<Rightarrow> 'args \<Rightarrow> (log_world, unit) eff" where
  "MOCKER_LOG_FMT_LEVEL vasprintf env cl src line l lev fmt args w =
     delete_LogEventWrapper env l lev (event_format vasprintf fmt args (event_at env cl src line w l)) w"

text \<open>The macros for each level, and the loggers by name.\<close>

definition MOCKER_LOG_DEBUG :: "log_env \<Rightarrow> caller \<Rightarrow> string \<Rightarrow> 32 word \<Rightarrow> ref \<Rightarrow> string \<Rightarrow> (log_world, unit) eff" where
  "MOCKER_LOG_DEBUG env cl src line l = MOCKER_LOG_LEVEL env cl src line l DEBUG"

definition MOCKER_LOG_INFO :: "log_env \<Rightarrow> caller \<Rightarrow> string \<Rightarrow> 32 word \<Rightarrow> ref \<Rightarrow> string \<Rightarrow> (log_world, unit) eff" where
  "MOCKER_LOG_INFO env cl src line l = MOCKER_LOG_LEVEL env cl src line l INFO"

definition MOCKER_LOG_WARN :: "log_env \<Rightarrow> caller \<Rightarrow> string \<Rightarrow> 32 word \<Rightarrow> ref \<Rightarrow> string \<Rightarrow> (log_world, unit) eff" where
  "MOCKER_LOG_WARN env cl src line l = MOCKER_LOG_LEVEL env cl src line l WARN"

definition MOCKER_LOG_ERROR :: "log_env \<Rightarrow> caller \<Rightarrow> string \<Rightarrow> 32 word \<Rightarrow> ref \<Rightarrow> string \<Rightarrow> (log_world, unit) eff" where
  "MOCKER_LOG_ERROR env cl src line l = MOCKER_LOG_LEVEL env cl src line l ERROR"

definition MOCKER_LOG_FATAL :: "log_env \<Rightarrow> caller \<Rightarrow> string \<Rightarrow> 32 word \<Rightarrow> ref \<Rightarrow> string \<Rightarrow> (log_world, unit) eff" where
  "MOCKER_LOG_FATAL env cl src line l = MOCKER_LOG_LEVEL env cl src line l FATAL"

definition MOCKER_LOG_FMT_DEBUG :: "(string \<Rightarrow> 'args \<Rightarrow> string option) \<Rightarrow> log_env \<Rightarrow> caller \<Rightarrow> string \<Rightarrow> 32 word
    \<Rightarrow> ref \<Rightarrow> string \<Rightarrow> 'args \<Rightarrow> (log_world, unit) eff" where
  "MOCKER_LOG_FMT_DEBUG vasprintf env cl src line l = MOCKER_LOG_FMT_LEVEL vasprintf env cl src line l DEBUG"

definition MOCKER_LOG_FMT_INFO :: "(string \<Rightarrow> 'args \<Rightarrow> string option) \<Rightarrow> log_env \<Rightarrow> caller \<Rightarrow> string \<Rightarrow> 32 word
    \<Rightarrow> ref \<Rightarrow> string \<Rightarrow> 'args \<Rightarrow> (log_world, unit) eff" where
  "MOCKER_LOG_FMT_INFO vasprintf env cl src line l = MOCKER_LOG_FMT_LEVEL vasprintf env cl src line l INFO"

definition MOCKER_LOG_FMT_WARN :: "(string \<Rightarrow> 'args \<Rightarrow> string option) \<Rightarrow> log_env \<Rightarrow> caller \<Rightarrow> string \<Rightarrow> 32 word
    \<Rightarrow> ref \<Rightarrow> string \<Rightarrow> 'args \<Rightarrow> (log_world, unit) eff" where
  "MOCKER_LOG_FMT_WARN vasprintf env cl src line l = MOCKER_LOG_FMT_LEVEL vasprintf env cl src line l WARN"

definition MOCKER_LOG_FMT_ERROR :: "(string \<Rightarrow> 'args \<Rightarrow> string option) \<Rightarrow> log_env \<Rightarrow> caller \<Rightarrow> string \<Rightarrow> 32 word
    \<Rightarrow> ref \<Rightarrow> string \<Rightarrow> 'args \<Rightarrow> (log_world, unit) eff" where
  "MOCKER_LOG_FMT_ERROR vasprintf env cl src line l = MOCKER_LOG_FMT_LEVEL vasprintf env cl src line l ERROR"

definition MOCKER_LOG_FMT_FATAL :: "(string \<Rightarrow> 'args \<Rightarrow> string option) \<Rightarrow> log_env \<Rightarrow> caller \<Rightarrow> string \<Rightarrow> 32 word
    \<Rightarrow> ref \<Rightarrow> string \<Rightarrow> 'args \<Rightarrow> (log_world, unit) eff" where
  "MOCKER_LOG_FMT_FATAL vasprintf env cl src line l = MOCKER_LOG_FMT_LEVEL vasprintf env cl src line l FATAL"

definition MOCKER_LOG_ROOT :: "log_world \<Rightarrow> ref" where
  "MOCKER_LOG_ROOT w = w_root w"

definition MOCKER_LOG_NAME :: "string \<Rightarrow> log_world \<Rightarrow> ref \<times> log_world" where
  "MOCKER_LOG_NAME name w = getLogger name w"

definition MOCKER_LOG_SYSTEM :: "log_world \<Rightarrow> ref \<times> log_world" where
  "MOCKER_LOG_SYSTEM w = getLogger ''system'' w"

section \<open>Backtraces and assertions\<close>

text \<open>
  \<open>Backtrace\<close>: \<open>symbols sz\<close> is what \<open>backtrace\<close> and \<open>backtrace_symbols\<close> give for at most \<open>sz\<close>
  frames, \<open>None\<close> for a null pointer, which is logged by the caller's \<open>complain\<close>.
\<close>

definition Backtrace :: "(nat \<Rightarrow> string list option) \<Rightarrow> ('w \<Rightarrow> 'w) \<Rightarrow> nat \<Rightarrow> nat \<Rightarrow> string list \<Rightarrow> 'w \<Rightarrow> string list \<times> 'w"
  where
  "Backtrace symbols complain sz skip bt w =
     (case symbols sz of
        None \<Rightarrow> (bt, complain w)
      | Some fs \<Rightarrow> (bt @ drop skip fs, w))"

definition BacktraceToString :: "(nat \<Rightarrow> string list option) \<Rightarrow> ('w \<Rightarrow> 'w) \<Rightarrow> nat \<Rightarrow> nat \<Rightarrow> string \<Rightarrow> 'w \<Rightarrow> string \<times> 'w"
  where
  "BacktraceToString symbols complain sz skip prefix w =
     (case Backtrace symbols complain sz skip [] w of
        (bt, w1) \<Rightarrow> (concat (map (\<lambda>frame. prefix @ frame @ [CHR 0x0A]) bt), w1))"

text \<open>
  The failing branch of the assertion macros: \<open>head\<close> and a backtrace are logged as an error of the
  logger \<open>system\<close>, and \<open>assert\<close> aborts with the text of the condition.
\<close>

definition assertion_failed :: "log_env \<Rightarrow> caller \<Rightarrow> string \<Rightarrow> 32 word \<Rightarrow> (nat \<Rightarrow> string list option)
    \<Rightarrow> string \<Rightarrow> string \<Rightarrow> (log_world, unit) eff" where
  "assertion_failed env cl src line symbols head txt w =
     (case MOCKER_LOG_SYSTEM w of (l, w1) \<Rightarrow>
        (case BacktraceToString symbols
                (\<lambda>v. snd (MOCKER_LOG_ERROR env cl ''util.cpp'' 31 l ''backtrace_symbols error'' v))
                100 2 ''    '' w1 of
           (bt, w2) \<Rightarrow>
             ebind (MOCKER_LOG_ERROR env cl src line l (head @ [CHR 0x0A] @ ''backtrace:'' @ [CHR 0x0A] @ bt))
               (\<lambda>_. efail (Assertion txt)) w2))"

definition MOCKER_ASSERT :: "log_env \<Rightarrow> caller \<Rightarrow> string \<Rightarrow> 32 word \<Rightarrow> (nat \<Rightarrow> string list option)
    \<Rightarrow> bool \<Rightarrow> string \<Rightarrow> (log_world, unit) eff" where
  "MOCKER_ASSERT env cl src line symbols cond txt w =
     (if \<not> cond then assertion_failed env cl src line symbols (''ASSERTION: '' @ txt) txt w else (Inr (), w))"

definition MOCKER_ASSERT2 :: "log_env \<Rightarrow> caller \<Rightarrow> string \<Rightarrow> 32 word \<Rightarrow> (nat \<Rightarrow> string list option)
    \<Rightarrow> bool \<Rightarrow> string \<Rightarrow> string \<Rightarrow> (log_world, unit) eff" where
  "MOCKER_ASSERT2 env cl src line symbols cond txt msg w =
     (if \<not> cond then assertion_failed env cl src line symbols (''ASSERTION: '' @ txt @ [CHR 0x0A] @ msg) txt w
      else (Inr (), w))"

section \<open>What they log\<close>

lemma unat_widen: "unat (ucast x :: 64 word) = unat (x :: 32 word)"
proof -
  have "unat x < 2 ^ 64" using unsigned_less [of x, where ?'a = nat] by simp
  then show ?thesis by (simp add: unsigned_ucast_eq take_bit_eq_mod)
qed

lemma macro_logs:
  assumes ok: "log_ok w" and l: "w_loggers w l = Some x"
  shows "\<exists>w' ev. MOCKER_LOG_LEVEL env cl src line l lev content w = (Inr (), w') \<and> log_ok w'
    \<and> w_cout w' = w_cout w @ concat (map (stdout_text env w lev ev) (targets w l lev))
    \<and> (\<forall>fname. w_files w' fname = w_files w fname @ concat (map (file_text env w lev ev fname) (targets w l lev)))
    \<and> m_file ev = src \<and> m_line ev = line \<and> m_ss ev = content \<and> m_time ev = now env
    \<and> unat (m_threadId ev) = unat (cl_tid cl) \<and> m_threadName ev = cl_name cl
    \<and> unat (m_coroutineId ev) = unat (cl_cort cl) mod 2 ^ 32
    \<and> m_logger_real_name ev = (if lg_name x = [] then ''root'' else lg_name x)"
proof -
  let ?ev = "event_put content (event_at env cl src line w l)"
  obtain w' where w': "log env l lev ?ev w = (Inr (), w')" "log_ok w'"
    "w_cout w' = w_cout w @ concat (map (stdout_text env w lev ?ev) (targets w l lev))"
    using log_ok_log [OF ok, of l env lev ?ev] l by auto
  have ex: "w_loggers w l \<noteq> None" using l by simp
  have "efor (\<lambda>a. appender_log env a lev ?ev) (targets w l lev) w = (Inr (), w')"
    using w'(1) logger_log_targets [OF log_okD(2) [OF ok] ex, of 0] by (simp add: log_def numeral_2_eq_2)
  then have files: "w_files w' fname = w_files w fname @ concat (map (file_text env w lev ?ev fname) (targets w l lev))" for fname
    using deliver_files log_ok_targets [OF ok ex] by blast
  have fields: "m_file ?ev = src" "m_line ?ev = line" "m_ss ?ev = content" "m_time ?ev = now env"
    "m_threadName ?ev = cl_name cl" "m_logger_real_name ?ev = (if lg_name x = [] then ''root'' else lg_name x)"
    "m_threadId ?ev = ucast (cl_tid cl)" "m_coroutineId ?ev = util_GetCoroutineId (cl_cort cl)"
    using l by (simp_all add: event_put_def event_at_def macro_event_def LogEvent_def)
  have "unat (m_threadId ?ev) = unat (cl_tid cl)"
    unfolding fields by (rule unat_widen)
  moreover have "unat (m_coroutineId ?ev) = unat (cl_cort cl) mod 2 ^ 32"
    unfolding fields by (rule unat_util_GetCoroutineId)
  ultimately show ?thesis
    using w' files fields by (intro exI [of _ w'] exI [of _ ?ev]) (simp add: MOCKER_LOG_LEVEL_def delete_LogEventWrapper_def)
qed

text \<open>C29. A record logged with a macro goes to the targets of its logger: the call returns normally, the
  standard output grows by the lines of the standard output appenders among them, in order, each in its colour
  and if the appender's level lets the record pass, and every file grows by the records of the file appenders
  whose stream, opened again at the first record of a second, has no error and writes to that file. The record
  carries the place in the source, the thread's id and name, the content, the current time, the low 32 bits of
  the coroutine's id and the name of the logger it was logged with, also when the root logger's appenders
  write it. The loggers and appenders are set up by the library's operations, with formatters
  (\<open>log_ok\<close>).\<close>

theorem macro_logs_record:
  assumes ok: "log_ok w" and l: "w_loggers w l = Some x"
  shows "\<exists>w' ev. MOCKER_LOG_LEVEL env cl src line l lev content w = (Inr (), w') \<and> log_ok w'
    \<and> w_cout w' = w_cout w @ concat (map (stdout_text env w lev ev) (targets w l lev))
    \<and> (\<forall>fname. w_files w' fname = w_files w fname @ concat (map (file_text env w lev ev fname) (targets w l lev)))
    \<and> m_file ev = src \<and> m_line ev = line \<and> m_ss ev = content \<and> m_time ev = now env
    \<and> unat (m_threadId ev) = unat (cl_tid cl) \<and> m_threadName ev = cl_name cl
    \<and> unat (m_coroutineId ev) = unat (cl_cort cl) mod 2 ^ 32
    \<and> m_logger_real_name ev = (if lg_name x = [] then ''root'' else lg_name x)"
  by (rule macro_logs [OF assms])

text \<open>No macro measures the time since the program's start, which a pattern can ask for with \<open>%r\<close>.\<close>

lemma elapsed_time_unset: "m_elapse (event_at env cl src line w l) = 0"
  by (simp add: event_at_def macro_event_def LogEvent_def)

text \<open>A failed assertion aborts, whatever the loggers are.\<close>

lemma assertion_aborts:
  assumes ok: "log_ok w"
  shows "fst (assertion_failed env cl src line symbols head txt w) = Inl (Assertion txt)"
proof -
  obtain l w1 where get: "getLogger ''system'' w = (l, w1)" by (cases "getLogger ''system'' w")
  have ok1: "log_ok w1" by (rule log_ok_get [OF ok get])
  have logs: "\<exists>v'. MOCKER_LOG_ERROR env cl f n l s v = (Inr (), v') \<and> log_ok v' \<and> w_loggers v' = w_loggers v"
    if "log_ok v" "w_loggers v l \<noteq> None" for f n s v
    using log_ok_log [OF that, of env ERROR "event_put s (event_at env cl f n v l)"]
    by (auto simp: MOCKER_LOG_ERROR_def MOCKER_LOG_LEVEL_def delete_LogEventWrapper_def same_setup_def)
  have "map_of (w_registry w1) ''system'' = Some l"
    using loggers.make_registers [OF log_okD(1) [OF ok] TrueI get] by simp
  then have l: "w_loggers w1 l \<noteq> None" using log_okD(1) [OF ok1] unfolding registry_ok_def by fastforce
  obtain bt w2 where bt: "BacktraceToString symbols
      (\<lambda>v. snd (MOCKER_LOG_ERROR env cl ''util.cpp'' 31 l ''backtrace_symbols error'' v)) 100 2 ''    '' w1 = (bt, w2)"
    by (cases "BacktraceToString symbols
      (\<lambda>v. snd (MOCKER_LOG_ERROR env cl ''util.cpp'' 31 l ''backtrace_symbols error'' v)) 100 2 ''    '' w1")
  have "log_ok w2 \<and> w_loggers w2 l \<noteq> None"
    using bt logs [OF ok1 l, of "''util.cpp''" 31 "''backtrace_symbols error''"] ok1 l
    by (cases "symbols 100") (auto simp: BacktraceToString_def Backtrace_def)
  then obtain w3 where "MOCKER_LOG_ERROR env cl src line l
      (head @ [CHR 0x0A] @ ''backtrace:'' @ [CHR 0x0A] @ bt) w2 = (Inr (), w3)"
    using logs by blast
  then show ?thesis by (simp add: assertion_failed_def MOCKER_LOG_SYSTEM_def get bt ebind_def)
qed

text \<open>\<open>BacktraceToString\<close> has one line for each frame behind the skipped ones, in order, each with the
  prefix and ended by a newline, and never more lines than frames were asked for.\<close>

theorem backtrace_lines:
  assumes "symbols sz = Some fs" and "length fs \<le> sz"
  shows "\<exists>ls. BacktraceToString symbols complain sz skip prefix w = (concat ls, w)
    \<and> length ls = length fs - skip \<and> length ls \<le> sz
    \<and> (\<forall>i < length ls. ls ! i = prefix @ fs ! (skip + i) @ [CHR 0x0A])"
  using assms
  by (intro exI [of _ "map (\<lambda>frame. prefix @ frame @ [CHR 0x0A]) (drop skip fs)"])
    (simp add: BacktraceToString_def Backtrace_def)

text \<open>An assertion macro returns exactly when its condition holds, and then it has done nothing;
  otherwise the program is aborted with the text of the condition, and logging before it does not fail.\<close>

lemma assertion_macros:
  assumes "log_ok w"
  shows "fst (MOCKER_ASSERT env cl src line symbols cond txt w) = (if cond then Inr () else Inl (Assertion txt))"
    and "fst (MOCKER_ASSERT2 env cl src line symbols cond txt msg w) = (if cond then Inr () else Inl (Assertion txt))"
  using assertion_aborts [OF assms] by (simp_all add: MOCKER_ASSERT_def MOCKER_ASSERT2_def)

section \<open>Witnesses\<close>

text \<open>A thread of the scheduler \<open>io\<close> in a coroutine whose id does not fit into 32 bits.\<close>

definition example_caller :: caller where
  "example_caller = \<lparr>cl_tid = 17, cl_name = ''io_1'', cl_cort = 0x100000003\<rparr>"

theorem macro_logs_record_witness:
  "\<exists>w' ev. MOCKER_LOG_LEVEL example_env example_caller ''a.cpp'' 3 2 INFO ''hello'' net_world = (Inr (), w')
     \<and> w_cout w' = w_cout net_world @ stdout_text example_env net_world INFO ev 1
     \<and> m_ss ev = ''hello'' \<and> unat (m_coroutineId ev) = 3 \<and> m_logger_real_name ev = ''net''"
proof -
  have l: "w_loggers net_world 2 = Some ((new_Logger ''net'')\<lparr>lg_root := Some 0\<rparr>)" by simp
  have id: "unat (cl_cort example_caller) mod 2 ^ 32 = 3" by (simp add: example_caller_def)
  have name: "lg_name ((new_Logger ''net'')\<lparr>lg_root := Some 0\<rparr>) = ''net''" by (simp add: new_Logger_def)
  from macro_logs_record [OF net_ok l, of example_env example_caller "''a.cpp''" 3 INFO "''hello''"]
  show ?thesis unfolding net_targets id name by (elim exE conjE) (intro exI conjI; simp)
qed

theorem backtrace_lines_witness:
  "fst (BacktraceToString (\<lambda>n. Some (take n [''a'', ''b'', ''main''])) (\<lambda>w. w) 2 1 ''  '' ()) = ''  b'' @ [CHR 0x0A]"
proof -
  obtain ls :: "string list" where "BacktraceToString (\<lambda>n. Some (take n [''a'', ''b'', ''main''])) (\<lambda>w. w) 2 1 ''  '' () = (concat ls, ())"
    "length ls = 1" "ls ! 0 = ''  b'' @ [CHR 0x0A]"
    using backtrace_lines [of "\<lambda>n. Some (take n [''a'', ''b'', ''main''])" 2 "[''a'', ''b'']" "\<lambda>w. w" 1 "''  ''" "()"]
    by (auto simp: numeral_2_eq_2)
  then show ?thesis by (auto simp: length_Suc_conv)
qed

end
