(* ===== verification/Config_Store.thy ===== *)
theory Config_Store
  imports Config_Examples
begin

text \<open>
  An abstract specification of the configuration: a finite map from names to a type and a value.
  \<open>Lookup\<close>, \<open>setValue\<close> and \<open>fromString\<close> refine its three operations; objects, addresses, listeners
  and messages are what the refinement hides.
\<close>

section \<open>The specification\<close>

type_synonym 'v store = "string \<Rightarrow> (string \<times> 'v) option"

definition declare_var :: "string \<Rightarrow> string \<Rightarrow> 'v \<Rightarrow> 'v store \<Rightarrow> 'v store" where
  "declare_var ty n v st = (if st n = None \<and> only_chars name_chars n then st(n \<mapsto> (ty, v)) else st)"

definition assign :: "string \<Rightarrow> 'v \<Rightarrow> 'v store \<Rightarrow> 'v store" where
  "assign n v st = (case st n of None \<Rightarrow> st | Some (ty, _) \<Rightarrow> st(n \<mapsto> (ty, v)))"

definition assign_text :: "(string \<Rightarrow> 'v from_str) \<Rightarrow> string \<Rightarrow> string \<Rightarrow> 'v store \<Rightarrow> 'v store" where
  "assign_text from n s st =
     (case st n of
        None \<Rightarrow> st
      | Some (ty, _) \<Rightarrow> (case from ty s of Inl e \<Rightarrow> st | Inr v \<Rightarrow> st(n \<mapsto> (ty, v))))"

text \<open>The store of a configuration.\<close>

definition store_of :: "('v, 'w) config \<Rightarrow> 'v store" where
  "store_of c n = (case map_of (cf_data c) n of
      None \<Rightarrow> None
    | Some p \<Rightarrow> Some (cv_type (the_var c p), cv_val (the_var c p)))"

section \<open>Refinement\<close>

text \<open>Two names are never registered with one variable.\<close>

lemma config_ok_inj:
  assumes "config_ok c" and "map_of (cf_data c) n = Some p" and "map_of (cf_data c) m = Some p"
  shows "n = m"
  using config_ok_name [OF assms(1,2)] config_ok_name [OF assms(1,3)] by auto

lemma store_of_say [simp]: "store_of (say env msg c) = store_of c"
  by (simp add: store_of_def fun_eq_iff say_def the_var_def split: option.split)

lemma store_of_set:
  assumes ok: "config_ok c" and n: "map_of (cf_data c) n = Some p"
    and frame: "cf_data c' = cf_data c" "\<forall>q. q \<noteq> p \<longrightarrow> cf_vars c' q = cf_vars c q"
    and p: "the_var c' p = (the_var c p)\<lparr>cv_val := v\<rparr>"
  shows "store_of c' = assign n v (store_of c)"
proof
  fix m
  have other: "the_var c' q = the_var c q" if "q \<noteq> p" for q using frame(2) that by (simp add: the_var_def)
  show "store_of c' m = assign n v (store_of c) m"
  proof (cases "map_of (cf_data c) m")
    case (Some q)
    then show ?thesis
      using n p frame(1) other [of q] config_ok_inj [OF ok n, of m]
      by (cases "q = p") (auto simp: store_of_def assign_def)
  qed (use n frame(1) in \<open>auto simp: store_of_def assign_def\<close>)
qed

lemma store_of_new:
  assumes ok: "config_ok c" and n: "map_of (cf_data c) n = None" "only_chars name_chars n"
  shows "store_of ((put_var (cf_next c) (new_ConfigVar ty n v d) c)
      \<lparr>cf_next := cf_next c + 1, cf_data := smap_put n (cf_next c) (cf_data c)\<rparr>) = declare_var ty n v (store_of c)"
    (is "store_of ?c = _")
proof
  fix m
  have data: "map_of (cf_data ?c) = (map_of (cf_data c))(n \<mapsto> cf_next c)" by simp
  show "store_of ?c m = declare_var ty n v (store_of c) m"
  proof (cases "map_of (cf_data c) m")
    case (Some q)
    then have "q < cf_next c" using ok config_ok_name [OF ok Some] unfolding config_ok_def by blast
    then show ?thesis
      using Some n data by (auto simp: store_of_def declare_var_def the_var_def put_var_def simp del: map_of_eq_Some_iff)
  next
    case None
    then show ?thesis
      using n data by (cases "m = n") (simp_all add: store_of_def declare_var_def the_var_def put_var_def new_ConfigVar_def)
  qed
qed

lemma store_of_cong: "cf_vars c' = cf_vars c \<Longrightarrow> cf_data c' = cf_data c \<Longrightarrow> store_of c' = store_of c"
  by (simp add: store_of_def fun_eq_iff the_var_def split: option.split)

lemma Lookup_store:
  assumes ok: "config_ok c" and look: "Lookup env ty m v d c = (r, c1)"
  shows "store_of c1 = declare_var ty m v (store_of c)"
proof (cases "map_of (cf_data c) m")
  case (Some q)
  then have "store_of c m \<noteq> None" by (simp add: store_of_def)
  moreover have "store_of c1 = store_of c"
    using look Some by (auto simp: Lookup_def toString_def Let_def split: if_splits sum.splits)
  ultimately show ?thesis unfolding declare_var_def by presburger
next
  case None
  then have "store_of c m = None" by (simp add: store_of_def)
  with None look store_of_new [OF ok None] show ?thesis
    by (cases "only_chars name_chars m") (auto simp: Lookup_new, auto simp: Lookup_def declare_var_def)
qed

lemma setValue_store:
  assumes ok: "config_ok c" and eq: "veq env = (\<lambda>ty. (=))" and n: "map_of (cf_data c) n = Some p"
    and set: "setValue env p v c = (Inr (), c')"
  shows "store_of c' = assign n v (store_of c)"
proof (rule store_of_set [OF ok n])
  note frame = setValue_frame [OF set]
  show "cf_data c' = cf_data c" "\<forall>q. q \<noteq> p \<longrightarrow> cf_vars c' q = cf_vars c q" using frame by blast+
  show "the_var c' p = (the_var c p)\<lparr>cv_val := v\<rparr>" using frame eq by auto
qed

lemma setValue_fails_store: "setValue env p v c = (Inl e, c') \<Longrightarrow> store_of c' = store_of c"
  by (rule store_of_cong) (use setValue_frame [of env p v c "Inl e" c'] in auto)

lemma fromString_store:
  assumes ok: "config_ok c" and eq: "veq env = (\<lambda>ty. (=))" and n: "map_of (cf_data c) n = Some p"
    and got: "fromString env p s c = (r, c')"
  shows "store_of c' = (if r = Inr True then assign_text (from_str env) n s (store_of c) else store_of c)"
proof (cases rule: fromString_cases [where env = env and c = c and p = p and s = s, case_names cast set_fails set])
  case (cast e)
  with got show ?thesis by (auto split: if_splits)
next
  case (set_fails v e c1)
  with got setValue_fails_store [OF set_fails(2)] show ?thesis by (auto split: if_splits)
next
  case (set v c1)
  moreover have "store_of c n = Some (cv_type (the_var c p), cv_val (the_var c p))" using n by (simp add: store_of_def)
  ultimately show ?thesis
    using got setValue_store [OF ok eq n set(2)] by (auto simp: assign_text_def assign_def)
qed

text \<open>C23. The configuration refines the abstract store, for values with a proper equality: \<open>Lookup\<close> with a
  default declares a variable that is not there and changes no other, whatever it returns; \<open>setValue\<close>
  that returns assigns and one that throws changes nothing; \<open>fromString\<close> that returns true assigns what
  the cast reads, and otherwise nothing changes.\<close>

theorem config_refines_store:
  assumes "config_ok c" and "veq env = (\<lambda>ty. (=))" and "map_of (cf_data c) n = Some p"
  shows "(Lookup env ty m v d c = (r1, c1) \<longrightarrow> store_of c1 = declare_var ty m v (store_of c))
    \<and> (setValue env p u c = (r2, c2) \<longrightarrow> store_of c2 = (if r2 = Inr () then assign n u (store_of c) else store_of c))
    \<and> (fromString env p s c = (r3, c3) \<longrightarrow>
         store_of c3 = (if r3 = Inr True then assign_text (from_str env) n s (store_of c) else store_of c))"
proof -
  have "store_of c2 = (if r2 = Inr () then assign n u (store_of c) else store_of c)" if "setValue env p u c = (r2, c2)"
    using that setValue_store [OF assms] setValue_fails_store by (cases r2) auto
  then show ?thesis using Lookup_store [OF assms(1)] fromString_store [OF assms] by blast
qed

theorem config_refines_store_witness:
  "\<exists>c2 c3. setValue example_cfg 0 ''90'' example_config = (Inr (), c2) \<and> store_of c2 ''port'' = Some (''string'', ''90'')
     \<and> fromString example_cfg 0 [] example_config = (Inr False, c3) \<and> store_of c3 ''port'' = Some (''string'', ''80'')"
proof -
  obtain r1 c1 where look: "Lookup example_cfg ''int'' ''new'' ''1'' [] example_config = (r1, c1)"
    by (cases "Lookup example_cfg ''int'' ''new'' ''1'' [] example_config")
  obtain c2 where set: "setValue example_cfg 0 ''90'' example_config = (Inr (), c2)"
    by (simp add: setValue_def example_cfg_def)
  obtain c3 where read: "fromString example_cfg 0 [] example_config = (Inr False, c3)"
    by (simp add: fromString_def example_cfg_def)
  have old: "store_of example_config ''port'' = Some (''string'', ''80'')" by (simp add: store_of_def)
  from config_refines_store [OF example_ok, of example_cfg "''port''" 0 "''int''" "''new''" "''1''" "[]" r1 c1
      "''90''" "Inr ()" c2 "[]" "Inr False" c3]
  have "store_of c2 = assign ''port'' ''90'' (store_of example_config)" "store_of c3 = store_of example_config"
    using set read look by (simp_all add: example_cfg_def)
  with set read old show ?thesis by (simp add: assign_def)
qed

end
