(* ===== verification/Lock_Guards.thy ===== *)
theory Lock_Guards
  imports Locks
begin

text \<open>
  What the locks give to a program that uses them through guards: the contract of an exclusive lock
  as a locale, with mutual exclusion and progress proved in it, and its interpretations by \<open>Mutex\<close>,
  \<open>Spinlock\<close> and \<open>CASLock\<close>; the readers and writers of \<open>RWMutex\<close>; the calls one guard makes.
\<close>

section \<open>Exclusive locks\<close>

definition holds_lock :: "('i, 's) guarded \<Rightarrow> 'i \<Rightarrow> bool" where
  "holds_lock g i \<longleftrightarrow> gs_guards g i = Some True"

text \<open>The lock is taken exactly as long as one guard, and no more than one, is locked.\<close>

definition one_holder :: "('s \<Rightarrow> bool) \<Rightarrow> ('i, 's) guarded \<Rightarrow> bool" where
  "one_holder taken g \<longleftrightarrow> (taken (gs_mutex g) \<longleftrightarrow> (\<exists>i. holds_lock g i))
     \<and> (\<forall>i j. holds_lock g i \<and> holds_lock g j \<longrightarrow> i = j)"

text \<open>
  The contract: \<open>acq\<close> waits while the lock is taken and takes it otherwise, \<open>rel\<close> frees it.
\<close>

locale exclusive_lock =
  fixes new :: 's and acq :: "'s \<Rightarrow> 's option" and rel :: "'s \<Rightarrow> 's" and taken :: "'s \<Rightarrow> bool"
  assumes new_free: "\<not> taken new"
    and acq_waits: "acq m = None \<longleftrightarrow> taken m"
    and acq_takes: "acq m = Some m' \<Longrightarrow> taken m'"
    and rel_frees: "\<not> taken (rel m)"
begin

lemma holder_step:
  assumes inv: "one_holder taken g" and step: "guard_step acq rel g g'"
  shows "one_holder taken g'"
  using step
proof cases
  case (construct i b m)
  then have "acq (gs_mutex g) = Some m" "b" by (auto simp: ScopedLock_def)
  moreover from this have "\<not> taken (gs_mutex g) \<and> taken m"
    using acq_waits [of "gs_mutex g"] acq_takes [of "gs_mutex g" m] by auto
  ultimately show ?thesis using inv construct(1) by (auto simp: one_holder_def holds_lock_def split: if_splits)
next
  case (lock i b b1 m)
  then show ?thesis
  proof (cases b)
    case False
    with lock have acq: "acq (gs_mutex g) = Some m" "b1" by auto
    moreover from this have "\<not> taken (gs_mutex g) \<and> taken m"
    using acq_waits [of "gs_mutex g"] acq_takes [of "gs_mutex g" m] by auto
    ultimately show ?thesis using inv lock(1) by (auto simp: one_holder_def holds_lock_def split: if_splits)
  qed (use inv in \<open>auto simp: one_holder_def holds_lock_def split: if_splits\<close>)
next
  case (unlock i b b1 m)
  then show ?thesis
  proof (cases b)
    case False
    with unlock have "g' = g" by (cases g) (auto simp: fun_upd_idem)
    with inv show ?thesis by simp
  qed (use unlock inv rel_frees in \<open>auto simp: one_holder_def holds_lock_def split: if_splits\<close>)
next
  case (destroy i b)
  then show ?thesis
  proof (cases b)
    case False
    with destroy have g': "gs_mutex g' = gs_mutex g" "\<And>j. holds_lock g' j = holds_lock g j"
      by (auto simp: ScopedLock_destroy_def holds_lock_def)
    with inv show ?thesis by (simp add: one_holder_def)
  qed (use destroy inv rel_frees in
      \<open>auto simp: one_holder_def holds_lock_def ScopedLock_destroy_def split: if_splits\<close>)
qed

lemma holder_start: "guards_start new g \<Longrightarrow> one_holder taken g"
  using new_free by (auto simp: one_holder_def holds_lock_def elim!: guards_start.cases)

end

sublocale exclusive_lock \<subseteq> guards: invariant_system "guards_start new" "guard_step acq rel" "one_holder taken"
  by unfold_locales (auto intro: holder_start holder_step)

context exclusive_lock
begin

lemma mutual_exclusion:
  assumes "reach (guards_start new) (guard_step acq rel) g" and "holds_lock g i" and "holds_lock g j"
  shows "i = j"
  using guards.reach_inv [OF assms(1)] assms(2,3) unfolding one_holder_def by blast

lemma waits_for_holder:
  assumes "reach (guards_start new) (guard_step acq rel) g"
  shows "ScopedLock acq (gs_mutex g) = None \<longleftrightarrow> (\<exists>i. holds_lock g i)"
  using guards.reach_inv [OF assms] acq_waits by (auto simp: one_holder_def ScopedLock_def)

end

interpretation mutex: exclusive_lock Mutex Mutex_lock Mutex_unlock pm_locked
  by unfold_locales (auto simp: Mutex_def Mutex_lock_def Mutex_unlock_def split: if_splits)

interpretation spinlock: exclusive_lock Spinlock Spinlock_lock Spinlock_unlock ps_locked
  by unfold_locales (auto simp: Spinlock_def Spinlock_lock_def Spinlock_unlock_def split: if_splits)

lemma CASLock_free: "\<not> af_set f \<Longrightarrow> CASLock_lock (Suc n) f = Some (f\<lparr>af_set := True\<rparr>)"
  by (simp add: test_and_set_def)

lemma CASLock_spins: "af_set f \<Longrightarrow> CASLock_lock n f = None"
  by (induction n arbitrary: f) (simp_all add: test_and_set_def)

interpretation caslock: exclusive_lock CASLock "CASLock_lock (Suc n)" CASLock_unlock af_set
proof unfold_locales
  show "CASLock_lock (Suc n) m = None \<longleftrightarrow> af_set m" for m
    using CASLock_free [of m n] CASLock_spins [of m "Suc n"] by (cases "af_set m") simp_all
  show "CASLock_lock (Suc n) m = Some m' \<Longrightarrow> af_set m'" for m m'
    using CASLock_free [of m n] CASLock_spins [of m "Suc n"] by (cases "af_set m") auto
qed (simp_all add: CASLock_def CASLock_unlock_def)

text \<open>C25. \<open>CASLock\<close> is a lock: in every interleaving of any number of guards, in any number of
  threads, at most one guard is locked; a new guard spins as long as one is, however many rounds its
  loop makes, and otherwise gets the lock in its first round.\<close>

theorem caslock_mutual_exclusion:
  assumes "reach (guards_start CASLock) (guard_step (CASLock_lock 1) CASLock_unlock) g"
  shows "(holds_lock g i \<and> holds_lock g j \<longrightarrow> i = j)
    \<and> ((\<exists>i. holds_lock g i) \<longrightarrow> (\<forall>n. ScopedLock (CASLock_lock n) (gs_mutex g) = None))
    \<and> ((\<forall>i. \<not> holds_lock g i) \<longrightarrow> ScopedLock (CASLock_lock 1) (gs_mutex g) \<noteq> None)"
proof -
  have r: "reach (guards_start CASLock) (guard_step (CASLock_lock (Suc 0)) CASLock_unlock) g"
    using assms by simp
  have waits: "ScopedLock (CASLock_lock 1) (gs_mutex g) = None \<longleftrightarrow> (\<exists>i. holds_lock g i)"
    using caslock.waits_for_holder [OF r] by simp
  moreover have "ScopedLock (CASLock_lock n) (gs_mutex g) = None" if "\<exists>i. holds_lock g i" for n
  proof -
    have "af_set (gs_mutex g)" using caslock.guards.reach_inv [OF r] that by (simp add: one_holder_def)
    then show ?thesis by (simp add: ScopedLock_def CASLock_spins)
  qed
  ultimately show ?thesis using caslock.mutual_exclusion [OF r, of i j] by blast
qed

text \<open>The same for \<open>Mutex\<close>: at most one guard is locked, and a new guard waits exactly as long as
  one is. This is the lock that makes the scan and the \<open>schedule\<close> calls of the scheduler atomic.\<close>

theorem mutex_mutual_exclusion:
  assumes "reach (guards_start Mutex) (guard_step Mutex_lock Mutex_unlock) g"
  shows "(holds_lock g i \<and> holds_lock g j \<longrightarrow> i = j)
    \<and> (ScopedLock Mutex_lock (gs_mutex g) = None \<longleftrightarrow> (\<exists>i. holds_lock g i))"
  using mutex.mutual_exclusion [OF assms] mutex.waits_for_holder [OF assms] by blast

text \<open>The same for \<open>Spinlock\<close>, the lock of the loggers.\<close>

lemma spinlock_mutual_exclusion:
  assumes "reach (guards_start Spinlock) (guard_step Spinlock_lock Spinlock_unlock) g"
  shows "(holds_lock g i \<and> holds_lock g j \<longrightarrow> i = j)
    \<and> (ScopedLock Spinlock_lock (gs_mutex g) = None \<longleftrightarrow> (\<exists>i. holds_lock g i))"
  using spinlock.mutual_exclusion [OF assms] spinlock.waits_for_holder [OF assms] by blast

section \<open>Readers and writers\<close>

definition holds_rw :: "'i rw_guarded \<Rightarrow> guard_kind \<Rightarrow> 'i \<Rightarrow> bool" where
  "holds_rw g k i \<longleftrightarrow> rg_guards g i = Some (k, True)"

abbreviation holding :: "'i rw_guarded \<Rightarrow> guard_kind \<Rightarrow> 'i set" where
  "holding g k \<equiv> {i. holds_rw g k i}"

text \<open>The lock's record agrees with the sets \<open>R\<close> and \<open>W\<close> of the readers and the writers.\<close>

definition rw_sets :: "pthread_rwlock \<Rightarrow> 'i set \<Rightarrow> 'i set \<Rightarrow> bool" where
  "rw_sets m R W \<longleftrightarrow> finite R \<and> rw_readers m = card R \<and> (rw_writer m \<longleftrightarrow> W \<noteq> {})
     \<and> (\<forall>i \<in> W. \<forall>j \<in> W. i = j) \<and> (W = {} \<or> R = {})"

lemma rw_sets_rdlock:
  "rw_sets m R W \<Longrightarrow> RWMutex_rdlock m = Some m' \<Longrightarrow> i \<notin> R \<Longrightarrow> rw_sets m' (insert i R) W"
  by (auto simp: rw_sets_def RWMutex_rdlock_def split: if_splits)

lemma rw_sets_free: "rw_sets m R W \<Longrightarrow> RWMutex_wrlock m = Some m' \<Longrightarrow> R = {} \<and> W = {}"
  by (auto simp: rw_sets_def RWMutex_wrlock_def card_gt_0_iff split: if_splits)

lemma rw_sets_wrlock:
  "rw_sets m R W \<Longrightarrow> RWMutex_wrlock m = Some m' \<Longrightarrow> rw_sets m' {} {i}"
  by (auto simp: rw_sets_def RWMutex_wrlock_def split: if_splits)

lemma rw_sets_unlock_read: "rw_sets m R W \<Longrightarrow> i \<in> R \<Longrightarrow> rw_sets (RWMutex_unlock m) (R - {i}) W"
  by (auto simp: rw_sets_def RWMutex_unlock_def)

lemma rw_sets_writer: "rw_sets m R W \<Longrightarrow> i \<in> W \<Longrightarrow> R = {} \<and> W = {i}"
  by (auto simp: rw_sets_def)

lemma rw_sets_unlock_write: "rw_sets m R W \<Longrightarrow> i \<in> W \<Longrightarrow> rw_sets (RWMutex_unlock m) {} {}"
  by (auto simp: rw_sets_def RWMutex_unlock_def)

definition rw_inv :: "'i rw_guarded \<Rightarrow> bool" where
  "rw_inv g \<longleftrightarrow> rw_sets (rg_mutex g) (holding g ReadLock) (holding g WriteLock)"

lemma rw_start_inv: "rw_start g \<Longrightarrow> rw_inv g"
  by (auto simp: rw_inv_def rw_sets_def holds_rw_def RWMutex_def elim!: rw_start.cases)

text \<open>Which guards hold the lock after one guard's entry was changed.\<close>

lemma holds_rw_update:
  "holds_rw \<lparr>rg_mutex = m, rg_guards = (rg_guards g)(i := x)\<rparr> k j \<longleftrightarrow>
     (if j = i then x = Some (k, True) else holds_rw g k j)"
  by (auto simp: holds_rw_def)

lemma rw_inv_same:
  assumes "rw_inv g" and "\<And>k. holds_rw g k i \<longleftrightarrow> x = Some (k, True)"
  shows "rw_inv \<lparr>rg_mutex = rg_mutex g, rg_guards = (rg_guards g)(i := x)\<rparr>"
proof -
  have "holds_rw \<lparr>rg_mutex = rg_mutex g, rg_guards = (rg_guards g)(i := x)\<rparr> = holds_rw g"
    using assms(2) by (auto simp: fun_eq_iff holds_rw_update)
  then show ?thesis using assms(1) by (simp add: rw_inv_def)
qed

lemma rw_inv_acquire:
  assumes inv: "rw_inv g" and i: "\<And>k. \<not> holds_rw g k i"
    and acq: "(case k of ReadLock \<Rightarrow> RWMutex_rdlock | WriteLock \<Rightarrow> RWMutex_wrlock) (rg_mutex g) = Some m"
  shows "rw_inv \<lparr>rg_mutex = m, rg_guards = (rg_guards g)(i \<mapsto> (k, True))\<rparr>"
proof (cases k)
  case ReadLock
  let ?g = "\<lparr>rg_mutex = m, rg_guards = (rg_guards g)(i \<mapsto> (ReadLock, True))\<rparr>"
  have "holding ?g ReadLock = insert i (holding g ReadLock)" "holding ?g WriteLock = holding g WriteLock"
    using i by (auto simp: holds_rw_update)
  moreover have "rw_sets m (insert i (holding g ReadLock)) (holding g WriteLock)"
    by (rule rw_sets_rdlock [of "rg_mutex g"]) (use inv i acq ReadLock in \<open>auto simp: rw_inv_def\<close>)
  ultimately show ?thesis by (simp only: rw_inv_def ReadLock rw_guarded.simps)
next
  case WriteLock
  let ?g = "\<lparr>rg_mutex = m, rg_guards = (rg_guards g)(i \<mapsto> (WriteLock, True))\<rparr>"
  have w: "holding g WriteLock = {}" "holding g ReadLock = {}"
    using rw_sets_free [OF inv [unfolded rw_inv_def], of m] acq WriteLock by simp_all
  then have "holding ?g WriteLock = {i}" "holding ?g ReadLock = {}" by (auto simp: holds_rw_update)
  moreover have "rw_sets m {} {i}"
    by (rule rw_sets_wrlock [OF inv [unfolded rw_inv_def]]) (use acq WriteLock in simp)
  ultimately show ?thesis by (simp only: rw_inv_def WriteLock rw_guarded.simps)
qed

lemma rw_inv_release:
  assumes inv: "rw_inv g" and i: "holds_rw g k i" and x: "x = None \<or> x = Some (k, False)"
  shows "rw_inv \<lparr>rg_mutex = RWMutex_unlock (rg_mutex g), rg_guards = (rg_guards g)(i := x)\<rparr>"
proof (cases k)
  case ReadLock
  let ?g = "\<lparr>rg_mutex = RWMutex_unlock (rg_mutex g), rg_guards = (rg_guards g)(i := x)\<rparr>"
  have "\<not> holds_rw g WriteLock i" using i ReadLock by (simp add: holds_rw_def)
  then have "holding ?g ReadLock = holding g ReadLock - {i}" "holding ?g WriteLock = holding g WriteLock"
    using x by (auto simp: holds_rw_update)
  moreover have "rw_sets (RWMutex_unlock (rg_mutex g)) (holding g ReadLock - {i}) (holding g WriteLock)"
    by (rule rw_sets_unlock_read) (use inv i ReadLock in \<open>auto simp: rw_inv_def\<close>)
  ultimately show ?thesis by (simp only: rw_inv_def rw_guarded.simps)
next
  case WriteLock
  let ?g = "\<lparr>rg_mutex = RWMutex_unlock (rg_mutex g), rg_guards = (rg_guards g)(i := x)\<rparr>"
  have w: "holding g WriteLock = {i}" "holding g ReadLock = {}"
    using inv i WriteLock by (auto simp: rw_inv_def rw_sets_def)
  have "holding ?g WriteLock = {}" "holding ?g ReadLock = {}"
    using w x WriteLock by (auto simp: holds_rw_update set_eq_iff)
  moreover have "rw_sets (RWMutex_unlock (rg_mutex g)) {} {}"
    by (rule rw_sets_unlock_write [OF inv [unfolded rw_inv_def]]) (use w in simp)
  ultimately show ?thesis by (simp only: rw_inv_def rw_guarded.simps)
qed

lemmas rw_ops = ReadScopedLock_def WriteScopedLock_def

lemma rw_inv_step: "rw_inv g \<Longrightarrow> rw_step g g' \<Longrightarrow> rw_inv g'"
proof (elim rw_stepE)
  fix i k b m
  assume "rw_inv g" "rg_guards g i = None" "rw_new k (rg_mutex g) = Some (b, m)"
    "g' = \<lparr>rg_mutex = m, rg_guards = (rg_guards g)(i \<mapsto> (k, b))\<rparr>"
  then show ?thesis by (cases k) (auto simp: rw_ops holds_rw_def intro!: rw_inv_acquire)
next
  fix i k b b1 m
  assume g: "rw_inv g" "rg_guards g i = Some (k, b)" "rw_lock k (b, rg_mutex g) = Some (b1, m)"
    "g' = \<lparr>rg_mutex = m, rg_guards = (rg_guards g)(i \<mapsto> (k, b1))\<rparr>"
  show ?thesis
  proof (cases b)
    case True
    with g have "g' = \<lparr>rg_mutex = rg_mutex g, rg_guards = (rg_guards g)(i := Some (k, True))\<rparr>" by (cases k) auto
    then show ?thesis using rw_inv_same [OF g(1), of i "Some (k, True)"] g(2) True by (simp add: holds_rw_def)
  next
    case False
    with g show ?thesis by (cases k) (auto simp: holds_rw_def intro!: rw_inv_acquire)
  qed
next
  fix i k b b1 m
  assume g: "rw_inv g" "rg_guards g i = Some (k, b)" "rw_unlock k (b, rg_mutex g) = (b1, m)"
    "g' = \<lparr>rg_mutex = m, rg_guards = (rg_guards g)(i \<mapsto> (k, b1))\<rparr>"
  show ?thesis
  proof (cases b)
    case True
    with g show ?thesis by (cases k) (auto simp: holds_rw_def intro!: rw_inv_release)
  next
    case False
    with g have "g' = \<lparr>rg_mutex = rg_mutex g, rg_guards = (rg_guards g)(i := Some (k, False))\<rparr>" by (cases k) auto
    then show ?thesis using rw_inv_same [OF g(1), of i "Some (k, False)"] g(2) False by (simp add: holds_rw_def)
  qed
next
  fix i k b b1 m
  assume g: "rw_inv g" "rg_guards g i = Some (k, b)" "rw_unlock k (b, rg_mutex g) = (b1, m)"
    "g' = \<lparr>rg_mutex = m, rg_guards = (rg_guards g)(i := None)\<rparr>"
  show ?thesis
  proof (cases b)
    case True
    with g show ?thesis by (cases k) (auto simp: holds_rw_def intro!: rw_inv_release)
  next
    case False
    with g have "g' = \<lparr>rg_mutex = rg_mutex g, rg_guards = (rg_guards g)(i := None)\<rparr>" by (cases k) auto
    then show ?thesis using rw_inv_same [OF g(1), of i None] g(2) False by (simp add: holds_rw_def)
  qed
qed

interpretation readers_writers: invariant_system rw_start rw_step rw_inv
  by unfold_locales (auto intro: rw_start_inv rw_inv_step)

text \<open>C24. Guards of \<open>RWMutex\<close>: while a write guard is locked no other guard is; a new write guard
  waits exactly as long as some guard is locked, a new read guard exactly as long as a write guard is.
  So a thread that asks for a write guard while it has a read guard of the same mutex waits for itself:
  this is what a listener of a configuration variable does that adds a listener to the variable or
  sets it.\<close>

theorem rw_guards_exclude:
  assumes "reach rw_start rw_step g"
  shows "(holds_rw g WriteLock i \<and> holds_rw g k j \<longrightarrow> k = WriteLock \<and> i = j)
    \<and> (rw_new WriteLock (rg_mutex g) = None \<longleftrightarrow> (\<exists>k i. holds_rw g k i))
    \<and> (rw_new ReadLock (rg_mutex g) = None \<longleftrightarrow> (\<exists>i. holds_rw g WriteLock i))"
proof -
  have inv: "rw_sets (rg_mutex g) (holding g ReadLock) (holding g WriteLock)"
    using readers_writers.reach_inv [OF assms] by (simp add: rw_inv_def)
  then have readers: "0 < rw_readers (rg_mutex g) \<longleftrightarrow> (\<exists>i. holds_rw g ReadLock i)"
    by (auto simp: rw_sets_def card_gt_0_iff)
  have writer: "rw_writer (rg_mutex g) \<longleftrightarrow> (\<exists>i. holds_rw g WriteLock i)" using inv by (auto simp: rw_sets_def)
  have "k = WriteLock \<and> i = j" if "holds_rw g WriteLock i" "holds_rw g k j"
    using that inv by (cases k) (auto simp: rw_sets_def)
  moreover have "rw_new WriteLock (rg_mutex g) = None \<longleftrightarrow> (\<exists>k i. holds_rw g k i)"
  proof -
    have "(\<exists>k i. holds_rw g k i) \<longleftrightarrow> (\<exists>i. holds_rw g ReadLock i) \<or> (\<exists>i. holds_rw g WriteLock i)"
      by (metis guard_kind.exhaust)
    then show ?thesis using readers writer by (auto simp: rw_ops RWMutex_wrlock_def)
  qed
  moreover have "rw_new ReadLock (rg_mutex g) = None \<longleftrightarrow> (\<exists>i. holds_rw g WriteLock i)"
    using writer by (simp add: rw_ops RWMutex_rdlock_def)
  ultimately show ?thesis by blast
qed

section \<open>One guard\<close>

text \<open>The calls of the operations of a guard between its construction and its destruction.\<close>

datatype guard_call = Lock | Unlock

fun guard_calls :: "('s \<Rightarrow> 's option) \<Rightarrow> ('s \<Rightarrow> 's) \<Rightarrow> guard_call list \<Rightarrow> 's guard \<Rightarrow> 's guard option" where
  "guard_calls acq rel [] g = Some g"
| "guard_calls acq rel (Lock # cs) g = Option.bind (ScopedLock_lock acq g) (guard_calls acq rel cs)"
| "guard_calls acq rel (Unlock # cs) g = guard_calls acq rel cs (ScopedLock_unlock rel g)"

definition guard_use :: "('s \<Rightarrow> 's option) \<Rightarrow> ('s \<Rightarrow> 's) \<Rightarrow> guard_call list \<Rightarrow> 's \<Rightarrow> 's option" where
  "guard_use acq rel cs m =
     Option.bind (ScopedLock acq m) (\<lambda>g. map_option (ScopedLock_destroy rel) (guard_calls acq rel cs g))"

text \<open>\<open>n\<close> times locked and unlocked, in turn.\<close>

fun lock_pairs :: "('s \<Rightarrow> 's option) \<Rightarrow> ('s \<Rightarrow> 's) \<Rightarrow> nat \<Rightarrow> 's \<Rightarrow> 's option" where
  "lock_pairs acq rel 0 m = Some m"
| "lock_pairs acq rel (Suc n) m = Option.bind (acq m) (\<lambda>m1. lock_pairs acq rel n (rel m1))"

lemma guard_calls_pairs:
  "guard_calls acq rel cs (b, m) = Some g \<Longrightarrow>
     \<exists>n. (if b then lock_pairs acq rel n (rel m) else lock_pairs acq rel n m) = Some (ScopedLock_destroy rel g)"
proof (induction cs arbitrary: b m)
  case Nil
  then show ?case by (intro exI [of _ 0]) (auto simp: ScopedLock_destroy_def)
next
  case (Cons c cs)
  show ?case
  proof (cases c)
    case Lock
    then show ?thesis
    proof (cases b)
      case False
      with Cons.prems Lock obtain m1 where m1: "acq m = Some m1" "guard_calls acq rel cs (True, m1) = Some g"
        by (auto simp: Option.bind_eq_Some_conv)
      from Cons.IH [OF m1(2)] obtain n where "lock_pairs acq rel n (rel m1) = Some (ScopedLock_destroy rel g)" by auto
      with False m1(1) show ?thesis by (intro exI [of _ "Suc n"]) simp
    qed (use Cons.prems Cons.IH [of True m] Lock in auto)
  next
    case Unlock
    then show ?thesis using Cons.prems Cons.IH [of False "rel m"] Cons.IH [of False m] by (cases b) auto
  qed
qed

text \<open>Whatever is called on a guard between its construction and its destruction, the mutex is
  locked and unlocked in turn, starting with a lock and ending with an unlock: no guard locks a mutex it
  holds, unlocks one it does not hold, or leaves it locked.\<close>

theorem guard_calls_alternate:
  assumes "guard_use acq rel cs m = Some m'"
  shows "\<exists>n. lock_pairs acq rel (Suc n) m = Some m'"
proof -
  obtain m1 g where g: "acq m = Some m1" "guard_calls acq rel cs (True, m1) = Some g" "m' = ScopedLock_destroy rel g"
    using assms by (auto simp: guard_use_def ScopedLock_def Option.bind_eq_Some_conv)
  from guard_calls_pairs [OF g(2)] g(1,3) show ?thesis by auto
qed

section \<open>Semaphore and null mutex\<close>

text \<open>\<open>NullMutex\<close> excludes nobody: two guards are locked at the same time.\<close>

theorem null_mutex_excludes_nobody:
  "\<exists>g :: (nat, unit) guarded. reach (guards_start ()) (guard_step NullMutex_lock NullMutex_unlock) g
     \<and> holds_lock g 0 \<and> holds_lock g 1"
proof -
  let ?s = "guard_step NullMutex_lock NullMutex_unlock"
  let ?start = "\<lparr>gs_mutex = (), gs_guards = (\<lambda>_. None)\<rparr> :: (nat, unit) guarded"
  let ?first = "\<lparr>gs_mutex = (), gs_guards = (gs_guards ?start)(0 \<mapsto> True)\<rparr>"
  let ?both = "\<lparr>gs_mutex = (), gs_guards = (gs_guards ?first)(1 \<mapsto> True)\<rparr>"
  have "reach (guards_start ()) ?s ?start" by (rule reach_init) (rule guards_start.intros)
  moreover have "?s ?start ?first"
    by (rule guard_step.construct) (simp_all add: ScopedLock_def NullMutex_lock_def)
  moreover have "?s ?first ?both"
    by (rule guard_step.construct) (simp_all add: ScopedLock_def NullMutex_lock_def)
  ultimately have "reach (guards_start ()) ?s ?both" by (blast intro: reach_step)
  then show ?thesis by (rule exI [where x = ?both, OF conjI]) (simp add: holds_lock_def)
qed

section \<open>Witnesses\<close>

text \<open>Guard 1 of a lock is locked.\<close>

definition one_guard :: "'s \<Rightarrow> (nat, 's) guarded" where
  "one_guard m = \<lparr>gs_mutex = m, gs_guards = [1 \<mapsto> True]\<rparr>"

lemma one_guard_reach:
  assumes "acq new = Some m"
  shows "reach (guards_start new) (guard_step acq rel) (one_guard m)"
proof (rule reach_step)
  show "reach (guards_start new) (guard_step acq rel) \<lparr>gs_mutex = new, gs_guards = (\<lambda>_. None)\<rparr>"
    by (rule reach_init) (rule guards_start.intros)
  show "guard_step acq rel \<lparr>gs_mutex = new, gs_guards = (\<lambda>_. None)\<rparr> (one_guard m)"
    using guard_step.construct [of "\<lparr>gs_mutex = new, gs_guards = (\<lambda>_ :: nat. None)\<rparr>" 1 acq True m rel] assms
    by (simp add: one_guard_def ScopedLock_def)
qed

theorem caslock_mutual_exclusion_witness:
  "\<not> holds_lock (one_guard \<lparr>af_set = True\<rparr>) 2 \<and> ScopedLock (CASLock_lock 5) \<lparr>af_set = True\<rparr> = None"
proof -
  have "CASLock_lock 1 CASLock = Some \<lparr>af_set = True\<rparr>" by (simp add: CASLock_def test_and_set_def)
  from caslock_mutual_exclusion [OF one_guard_reach [of "CASLock_lock 1" CASLock, OF this], of 1 2] show ?thesis
    by (auto simp: one_guard_def holds_lock_def)
qed

theorem mutex_mutual_exclusion_witness:
  "\<not> holds_lock (one_guard \<lparr>pm_locked = True\<rparr>) 2 \<and> ScopedLock Mutex_lock \<lparr>pm_locked = True\<rparr> = None"
proof -
  have "Mutex_lock Mutex = Some \<lparr>pm_locked = True\<rparr>" by (simp add: Mutex_def Mutex_lock_def)
  from mutex_mutual_exclusion [OF one_guard_reach [of Mutex_lock Mutex, OF this], of 1 2] show ?thesis
    by (auto simp: one_guard_def holds_lock_def)
qed

theorem guard_calls_alternate_witness:
  "\<exists>n. lock_pairs Mutex_lock Mutex_unlock (Suc n) Mutex = Some Mutex"
  by (rule guard_calls_alternate [of _ _ "[Lock, Unlock, Unlock, Lock]"])
    (simp add: guard_use_def ScopedLock_def Mutex_lock_def Mutex_unlock_def Mutex_def ScopedLock_destroy_def)

text \<open>A reader holds the lock: a writer waits, another reader does not.\<close>

theorem rw_guards_exclude_witness:
  "rw_new WriteLock \<lparr>rw_readers = 1, rw_writer = False\<rparr> = None
    \<and> rw_new ReadLock \<lparr>rw_readers = 1, rw_writer = False\<rparr> \<noteq> None"
proof -
  let ?start = "\<lparr>rg_mutex = RWMutex, rg_guards = (\<lambda>_. None)\<rparr> :: nat rw_guarded"
  let ?m = "\<lparr>rw_readers = 1, rw_writer = False\<rparr>"
  let ?g = "\<lparr>rg_mutex = ?m, rg_guards = (rg_guards ?start)(1 \<mapsto> (ReadLock, True))\<rparr>"
  have "reach rw_start rw_step ?start" by (intro reach_init rw_start.intros)
  moreover have "rw_step ?start ?g"
    by (rule rw_step.construct) (simp_all add: ReadScopedLock_def RWMutex_rdlock_def RWMutex_def)
  ultimately have "reach rw_start rw_step ?g" by (rule reach_step)
  note spec = rw_guards_exclude [OF this, of 0 ReadLock 0]
  have "\<exists>k i. holds_rw ?g k i" by (rule exI [of _ ReadLock], rule exI [of _ 1]) (simp add: holds_rw_def)
  then have "rw_new WriteLock ?m = None" using spec by simp
  moreover have "\<not> (\<exists>i. holds_rw ?g WriteLock i)" by (simp add: holds_rw_def)
  then have "rw_new ReadLock ?m \<noteq> None" using spec by simp
  ultimately show ?thesis by simp
qed

end
