(* ===== verification/Config_Threads.thy ===== *)
theory Config_Threads
  imports Config_Examples Lock_Guards
begin

text \<open>
  One configuration variable in several threads. \<open>ConfigVar::setValue\<close> compares and calls the listeners
  under the read lock of the variable, lets go of it, and assigns under the write lock; the functions
  that change the listeners take the write lock.
\<close>

section \<open>The variable and its threads\<close>

text \<open>
  Where a thread is in \<open>setValue(v)\<close>: at the comparison, in the loop over the listeners (with the value it
  compared and the listeners still to call), between the two locks, or at the assignment.
\<close>

datatype ('v, 'w) set_pc =
    Idle
  | Comparing 'v
  | Calling 'v 'v "('v, 'w) on_change list"
  | Unlocked 'v
  | Assigning 'v

record ('i, 'v, 'w) shared_var =
  sv_mutex :: pthread_rwlock
  sv_var :: "('v, 'w) config_var"
  sv_pc :: "'i \<Rightarrow> ('v, 'w) set_pc"
  sv_world :: 'w

definition at_set :: "'i \<Rightarrow> ('v, 'w) set_pc \<Rightarrow> ('i, 'v, 'w) shared_var \<Rightarrow> ('i, 'v, 'w) shared_var" where
  "at_set i p s = s\<lparr>sv_pc := (sv_pc s)(i := p)\<rparr>"

definition unlocked :: "('i, 'v, 'w) shared_var \<Rightarrow> ('i, 'v, 'w) shared_var" where
  "unlocked s = s\<lparr>sv_mutex := RWMutex_unlock (sv_mutex s)\<rparr>"

definition on_var :: "(('v, 'w) config_var \<Rightarrow> ('v, 'w) config_var) \<Rightarrow> ('i, 'v, 'w) shared_var \<Rightarrow> ('i, 'v, 'w) shared_var"
  where
  "on_var f s = s\<lparr>sv_var := f (sv_var s)\<rparr>"

text \<open>
  The steps of all threads; \<open>eq\<close> is the comparison of the value type. A listener is one step: it acts
  on the rest of the state and does not use the variable. A listener that throws ends the call, and
  the guard's destructor unlocks.
\<close>

inductive var_step :: "('v \<Rightarrow> 'v \<Rightarrow> bool) \<Rightarrow> ('i, 'v, 'w) shared_var \<Rightarrow> ('i, 'v, 'w) shared_var \<Rightarrow> bool" for eq where
  rdlock: "sv_pc s i = Idle \<Longrightarrow> RWMutex_rdlock (sv_mutex s) = Some m \<Longrightarrow>
    var_step eq s (at_set i (Comparing v) (s\<lparr>sv_mutex := m\<rparr>))"
| same: "sv_pc s i = Comparing v \<Longrightarrow> eq v (cv_val (sv_var s)) \<Longrightarrow> var_step eq s (at_set i Idle (unlocked s))"
| differs: "sv_pc s i = Comparing v \<Longrightarrow> \<not> eq v (cv_val (sv_var s)) \<Longrightarrow>
    var_step eq s (at_set i (Calling (cv_val (sv_var s)) v (map snd (cv_cbs (sv_var s)))) s)"
| listener: "sv_pc s i = Calling u v (f # fs) \<Longrightarrow> call_listener f (cv_val (sv_var s)) v (sv_world s) = (Inr (), w) \<Longrightarrow>
    var_step eq s (at_set i (Calling u v fs) (s\<lparr>sv_world := w\<rparr>))"
| throws: "sv_pc s i = Calling u v (f # fs) \<Longrightarrow> call_listener f (cv_val (sv_var s)) v (sv_world s) = (Inl e, w) \<Longrightarrow>
    var_step eq s (at_set i Idle (unlocked (s\<lparr>sv_world := w\<rparr>)))"
| called: "sv_pc s i = Calling u v [] \<Longrightarrow> var_step eq s (at_set i (Unlocked v) (unlocked s))"
| wrlock: "sv_pc s i = Unlocked v \<Longrightarrow> RWMutex_wrlock (sv_mutex s) = Some m \<Longrightarrow>
    var_step eq s (at_set i (Assigning v) (s\<lparr>sv_mutex := m\<rparr>))"
| assign: "sv_pc s i = Assigning v \<Longrightarrow>
    var_step eq s (at_set i Idle (unlocked (on_var (\<lambda>x. x\<lparr>cv_val := v\<rparr>) s)))"
| add_listener: "RWMutex_wrlock (sv_mutex s) = Some m \<Longrightarrow>
    var_step eq s (on_var (\<lambda>x. x\<lparr>cv_cbs := smap_put k cb (cv_cbs x)\<rparr>) s)"
| del_listener: "RWMutex_wrlock (sv_mutex s) = Some m \<Longrightarrow>
    var_step eq s (on_var (\<lambda>x. x\<lparr>cv_cbs := smap_erase k (cv_cbs x)\<rparr>) s)"
| clear_listeners: "RWMutex_wrlock (sv_mutex s) = Some m \<Longrightarrow> var_step eq s (on_var (\<lambda>x. x\<lparr>cv_cbs := []\<rparr>) s)"

inductive var_start :: "('i, 'v, 'w) shared_var \<Rightarrow> bool" where
  "var_start \<lparr>sv_mutex = RWMutex, sv_var = x, sv_pc = (\<lambda>_. Idle), sv_world = w\<rparr>"

lemmas var_defs = at_set_def unlocked_def on_var_def

section \<open>Who has the lock\<close>

fun reading :: "('v, 'w) set_pc \<Rightarrow> bool" where
  "reading (Comparing v) = True"
| "reading (Calling u v fs) = True"
| "reading _ = False"

fun assigning :: "('v, 'w) set_pc \<Rightarrow> bool" where
  "assigning (Assigning v) = True"
| "assigning _ = False"

definition calling_ok :: "('v \<Rightarrow> 'v \<Rightarrow> bool) \<Rightarrow> ('v, 'w) config_var \<Rightarrow> ('v, 'w) set_pc \<Rightarrow> bool" where
  "calling_ok eq x p \<longleftrightarrow> (\<forall>u v fs. p = Calling u v fs \<longrightarrow>
     u = cv_val x \<and> \<not> eq v u \<and> (\<exists>called. map snd (cv_cbs x) = called @ fs))"

definition var_inv :: "('v \<Rightarrow> 'v \<Rightarrow> bool) \<Rightarrow> ('i, 'v, 'w) shared_var \<Rightarrow> bool" where
  "var_inv eq s \<longleftrightarrow> rw_sets (sv_mutex s) {i. reading (sv_pc s i)} {i. assigning (sv_pc s i)}
     \<and> (\<forall>i. calling_ok eq (sv_var s) (sv_pc s i))"

lemma pc_sets:
  "{j. reading (if j = i then p else f j)} = (if reading p then insert i {j. reading (f j)} else {j. reading (f j)} - {i})"
  "{j. assigning (if j = i then p else f j)} =
     (if assigning p then insert i {j. assigning (f j)} else {j. assigning (f j)} - {i})"
  by auto

lemma calling_ok_simps [simp]:
  "calling_ok eq x Idle" "calling_ok eq x (Comparing v)" "calling_ok eq x (Unlocked v)" "calling_ok eq x (Assigning v)"
  "calling_ok eq x (Calling u v fs) \<longleftrightarrow> u = cv_val x \<and> \<not> eq v u \<and> (\<exists>called. map snd (cv_cbs x) = called @ fs)"
  by (simp_all add: calling_ok_def)

text \<open>Without readers the variable may change.\<close>

lemma calling_ok_nobody: "\<not> reading p \<Longrightarrow> calling_ok eq x p"
  by (cases p) simp_all

lemma var_inv_change:
  assumes inv: "var_inv eq s" and free: "RWMutex_wrlock (sv_mutex s) = Some m"
  shows "var_inv eq (on_var f s)"
proof -
  have "{i. reading (sv_pc s i)} = {}" using rw_sets_free [OF _ free] inv unfolding var_inv_def by blast
  then show ?thesis using inv by (auto simp: var_inv_def on_var_def intro: calling_ok_nobody)
qed

lemma var_inv_step:
  assumes inv: "var_inv eq s" and step: "var_step eq s s'"
  shows "var_inv eq s'"
proof -
  have sets: "rw_sets (sv_mutex s) {i. reading (sv_pc s i)} {i. assigning (sv_pc s i)}"
    and calls: "\<forall>i. calling_ok eq (sv_var s) (sv_pc s i)"
    using inv by (auto simp: var_inv_def)
  have keep: "var_inv eq s'" if "sv_var s' = sv_var s" "sv_pc s' = (sv_pc s)(i := p)" "calling_ok eq (sv_var s) p"
    "rw_sets (sv_mutex s') (if reading p then insert i {j. reading (sv_pc s j)} else {j. reading (sv_pc s j)} - {i})
       (if assigning p then insert i {j. assigning (sv_pc s j)} else {j. assigning (sv_pc s j)} - {i})" for i p
    using that calls by (simp add: var_inv_def pc_sets)
  show ?thesis
    using step
  proof cases
    case (rdlock i m v)
    then show ?thesis using rw_sets_rdlock [OF sets, of m i]
      by (intro keep [of i "Comparing v"]) (auto simp: var_defs)
  next
    case (same i v)
    then show ?thesis using rw_sets_unlock_read [OF sets, of i] rw_sets_writer [OF sets, of i]
      by (intro keep [of i Idle]) (auto simp: var_defs)
  next
    case (differs i v)
    then show ?thesis using sets
      by (intro keep [of i "Calling (cv_val (sv_var s)) v (map snd (cv_cbs (sv_var s)))"]) (auto simp: var_defs insert_absorb)
  next
    case (listener i u v f fs w)
    then have "calling_ok eq (sv_var s) (Calling u v (f # fs))" using calls by metis
    then have "calling_ok eq (sv_var s) (Calling u v fs)" by (auto intro: exI [of _ "_ @ [f]"])
    with listener show ?thesis using sets
      by (intro keep [of i "Calling u v fs"]) (auto simp: var_defs insert_absorb)
  next
    case (throws i u v f fs e w)
    then show ?thesis using rw_sets_unlock_read [OF sets, of i]
      by (intro keep [of i Idle]) (auto simp: var_defs)
  next
    case (called i u v)
    then show ?thesis using rw_sets_unlock_read [OF sets, of i]
      by (intro keep [of i "Unlocked v"]) (auto simp: var_defs)
  next
    case (wrlock i v m)
    then show ?thesis using rw_sets_free [OF sets, of m] rw_sets_wrlock [OF sets, of m i]
      by (intro keep [of i "Assigning v"]) (auto simp: var_defs)
  next
    case (assign i v)
    then have w: "i \<in> {i. assigning (sv_pc s i)}" by simp
    from rw_sets_writer [OF sets w] rw_sets_unlock_write [OF sets w] assign show ?thesis
      by (auto simp: var_inv_def var_defs pc_sets intro!: calling_ok_nobody)
  qed (use var_inv_change [OF inv] in blast)+
qed

lemma var_inv_start: "var_start s \<Longrightarrow> var_inv eq s"
  by (auto simp: var_inv_def rw_sets_def RWMutex_def elim!: var_start.cases)

interpretation var_threads: invariant_system var_start "var_step eq" "var_inv eq" for eq
  by unfold_locales (fact var_inv_start, rule var_inv_step)

section \<open>Properties\<close>

text \<open>C21. However \<open>setValue\<close> and changes of the listeners are interleaved in any number of threads: all
  listeners of a call get the value that is stored while they run, it is the value the new one was
  compared with and differs from it, and they are the last ones of the listeners the variable has at
  that time, so none is skipped or called twice; while a thread assigns, no other one compares, calls
  listeners or assigns.\<close>

theorem setValue_in_threads:
  assumes "reach var_start (var_step eq) s"
  shows "(sv_pc s i = Calling u v fs \<longrightarrow> u = cv_val (sv_var s) \<and> \<not> eq v u
            \<and> (\<exists>called. map snd (cv_cbs (sv_var s)) = called @ fs))
    \<and> (sv_pc s i = Assigning v \<and> (reading (sv_pc s j) \<or> assigning (sv_pc s j)) \<longrightarrow> j = i)"
proof -
  have inv: "var_inv eq s" by (rule var_threads.reach_inv [OF assms])
  then have "calling_ok eq (sv_var s) (sv_pc s i)" by (simp add: var_inv_def)
  moreover have "j = i" if "sv_pc s i = Assigning v" "reading (sv_pc s j) \<or> assigning (sv_pc s j)"
    using rw_sets_writer [of _ _ _ i] inv that unfolding var_inv_def by fastforce
  ultimately show ?thesis by (auto simp: calling_ok_def)
qed

text \<open>One thread alone.\<close>

lemma listeners_run:
  assumes "efor (\<lambda>f. call_listener f (cv_val (sv_var s)) v) fs (sv_world s) = (r, w)" and "sv_pc s i = Calling u v fs"
  shows "(var_step eq)\<^sup>*\<^sup>* s
    (case r of Inr _ \<Rightarrow> at_set i (Calling u v []) (s\<lparr>sv_world := w\<rparr>)
             | Inl e \<Rightarrow> at_set i Idle (unlocked (s\<lparr>sv_world := w\<rparr>)))"
  using assms
proof (induction fs arbitrary: s)
  case Nil
  then have "at_set i (Calling u v []) (s\<lparr>sv_world := w\<rparr>) = s" "r = Inr ()"
    by (auto simp: at_set_def fun_upd_idem)
  then show ?case by simp
next
  case (Cons f fs)
  obtain r1 w1 where call: "call_listener f (cv_val (sv_var s)) v (sv_world s) = (r1, w1)"
    by (cases "call_listener f (cv_val (sv_var s)) v (sv_world s)")
  show ?case
  proof (cases r1)
    case (Inl e)
    with Cons.prems call have "r = Inl e" "w = w1" by auto
    then show ?thesis using var_step.throws [OF Cons.prems(2), of e w1 eq] call Inl by auto
  next
    case (Inr x)
    let ?s = "at_set i (Calling u v fs) (s\<lparr>sv_world := w1\<rparr>)"
    have "efor (\<lambda>f. call_listener f (cv_val (sv_var ?s)) v) fs (sv_world ?s) = (r, w)" "sv_pc ?s i = Calling u v fs"
      using Cons.prems(1) call Inr by (simp_all add: at_set_def)
    from Cons.IH [OF this] have "(var_step eq)\<^sup>*\<^sup>* ?s
        (case r of Inr _ \<Rightarrow> at_set i (Calling u v []) (s\<lparr>sv_world := w\<rparr>)
                 | Inl e \<Rightarrow> at_set i Idle (unlocked (s\<lparr>sv_world := w\<rparr>)))"
      by (simp add: var_defs cong: sum.case_cong)
    moreover have "var_step eq s ?s" using var_step.listener [OF Cons.prems(2)] call Inr by simp
    ultimately show ?thesis by (rule converse_rtranclp_into_rtranclp [rotated])
  qed
qed

text \<open>A thread that nobody interrupts does what \<open>setValue\<close> of the sequential model does: from a state in
  which no thread holds the lock its steps lead to one with the value and the rest of the state that
  \<open>setValue\<close> leaves, whether it returns or a listener throws; the lock is free again and every thread is
  where it was.\<close>

theorem setValue_is_steps:
  assumes idle: "sv_pc s i = Idle" and free: "sv_mutex s = RWMutex"
    and same: "sv_var s = the_var c p" "sv_world s = cf_world c"
    and set: "setValue env p v c = (r, c')"
  shows "\<exists>s'. (var_step (veq env (cv_type (the_var c p))))\<^sup>*\<^sup>* s s' \<and> sv_mutex s' = RWMutex \<and> sv_pc s' = sv_pc s
    \<and> sv_var s' = the_var c' p \<and> sv_world s' = cf_world c'"
proof -
  let ?x = "the_var c p"
  let ?eq = "veq env (cv_type ?x)"
  let ?read = "RWMutex\<lparr>rw_readers := Suc 0\<rparr>"
  let ?s1 = "at_set i (Comparing v) (s\<lparr>sv_mutex := ?read\<rparr>)"
  have lock: "var_step ?eq s ?s1"
    by (rule var_step.rdlock [OF idle]) (simp add: free RWMutex_rdlock_def RWMutex_def)
  have unlock: "RWMutex_unlock ?read = RWMutex" by (simp add: RWMutex_unlock_def RWMutex_def)
  have pcs: "(sv_pc s)(i := Idle) = sv_pc s" using idle by (simp add: fun_upd_idem)
  show ?thesis
  proof (cases "?eq v (cv_val ?x)")
    case True
    then have "var_step ?eq ?s1 (at_set i Idle (unlocked ?s1))"
      by (intro var_step.same [of _ _ v]) (simp_all add: var_defs same)
    with lock have "(var_step ?eq)\<^sup>*\<^sup>* s (at_set i Idle (unlocked ?s1))" by simp
    with True set show ?thesis
      by (intro exI [of _ "at_set i Idle (unlocked ?s1)"]) (auto simp: var_defs unlock pcs same setValue_def)
  next
    case False
    let ?fs = "map snd (cv_cbs ?x)"
    let ?s2 = "at_set i (Calling (cv_val ?x) v ?fs) ?s1"
    obtain r1 w where run: "efor (\<lambda>f. call_listener f (cv_val ?x) v) ?fs (cf_world c) = (r1, w)"
      by (cases "efor (\<lambda>f. call_listener f (cv_val ?x) v) ?fs (cf_world c)")
    have "var_step ?eq ?s1 ?s2"
      using var_step.differs [of ?s1 i v ?eq] False by (simp add: var_defs same)
    with lock have s2: "(var_step ?eq)\<^sup>*\<^sup>* s ?s2" by simp
    have calls: "(var_step ?eq)\<^sup>*\<^sup>* ?s2
        (case r1 of Inr _ \<Rightarrow> at_set i (Calling (cv_val ?x) v []) (?s2\<lparr>sv_world := w\<rparr>)
                  | Inl e \<Rightarrow> at_set i Idle (unlocked (?s2\<lparr>sv_world := w\<rparr>)))"
      by (rule listeners_run) (use run same in \<open>simp_all add: at_set_def\<close>)
    show ?thesis
    proof (cases r1)
      case (Inl e)
      let ?s3 = "at_set i Idle (unlocked (?s2\<lparr>sv_world := w\<rparr>))"
      have "(var_step ?eq)\<^sup>*\<^sup>* s ?s3" using s2 calls Inl by simp
      moreover have "sv_var ?s3 = the_var c' p" "sv_world ?s3 = cf_world c'"
        using set False run Inl by (auto simp: var_defs same setValue_def efor_map the_var_def)
      ultimately show ?thesis by (intro exI [of _ ?s3]) (simp add: var_defs unlock pcs)
    next
      case (Inr u)
      let ?s3 = "at_set i (Calling (cv_val ?x) v []) (?s2\<lparr>sv_world := w\<rparr>)"
      let ?s4 = "at_set i (Unlocked v) (unlocked ?s3)"
      let ?s5 = "at_set i (Assigning v) (?s4\<lparr>sv_mutex := RWMutex\<lparr>rw_writer := True\<rparr>\<rparr>)"
      let ?s6 = "at_set i Idle (unlocked (on_var (\<lambda>x. x\<lparr>cv_val := v\<rparr>) ?s5))"
      have "(var_step ?eq)\<^sup>*\<^sup>* s ?s3" using s2 calls Inr by simp
      moreover have "var_step ?eq ?s3 ?s4" by (rule var_step.called) (simp add: at_set_def)
      moreover have "var_step ?eq ?s4 ?s5"
        by (rule var_step.wrlock) (simp_all add: var_defs unlock, simp add: RWMutex_wrlock_def RWMutex_def)
      moreover have "var_step ?eq ?s5 ?s6" by (rule var_step.assign) (simp add: at_set_def)
      ultimately have "(var_step ?eq)\<^sup>*\<^sup>* s ?s6" by (meson rtranclp.rtrancl_into_rtrancl)
      moreover have "sv_var ?s6 = the_var c' p" "sv_world ?s6 = cf_world c'"
        using set False run Inr by (auto simp: var_defs same setValue_def efor_map the_var_def put_var_def)
      moreover have "RWMutex_unlock (RWMutex\<lparr>rw_writer := True\<rparr>) = RWMutex" by (simp add: RWMutex_unlock_def RWMutex_def)
      ultimately show ?thesis by (intro exI [of _ ?s6]) (simp add: var_defs pcs)
    qed
  qed
qed

section \<open>Two threads\<close>

text \<open>A variable whose listener keeps a record of what it was called with, and two threads.\<close>

definition the_listener :: "(nat, (nat \<times> nat) list) on_change" where
  "the_listener = Some (\<lambda>old_value new_value heard. (Inr (), heard @ [(old_value, new_value)]))"

definition port_var :: "nat \<Rightarrow> (nat, (nat \<times> nat) list) config_var" where
  "port_var v = \<lparr>cv_name = ''port'', cv_description = [], cv_type = ''int'', cv_val = v, cv_cbs = [(1, the_listener)]\<rparr>"

type_synonym port_pc = "(nat, (nat \<times> nat) list) set_pc"

definition hearing :: "pthread_rwlock \<Rightarrow> nat \<Rightarrow> port_pc \<Rightarrow> port_pc \<Rightarrow> (nat \<times> nat) list
    \<Rightarrow> (bool, nat, (nat \<times> nat) list) shared_var" where
  "hearing m v p q heard =
     \<lparr>sv_mutex = m, sv_var = port_var v, sv_pc = (\<lambda>first. if first then p else q), sv_world = heard\<rparr>"

lemma hearing_simps [simp]:
  "sv_mutex (hearing m v p q h) = m" "sv_var (hearing m v p q h) = port_var v"
  "sv_pc (hearing m v p q h) first = (if first then p else q)" "sv_world (hearing m v p q h) = h"
  "at_set True x (hearing m v p q h) = hearing m v x q h" "at_set False x (hearing m v p q h) = hearing m v p x h"
  "(hearing m v p q h)\<lparr>sv_mutex := m'\<rparr> = hearing m' v p q h" "(hearing m v p q h)\<lparr>sv_world := h'\<rparr> = hearing m v p q h'"
  "unlocked (hearing m v p q h) = hearing (RWMutex_unlock m) v p q h"
  "on_var (\<lambda>x. x\<lparr>cv_val := u\<rparr>) (hearing m v p q h) = hearing m u p q h"
  "cv_val (port_var v) = v" "cv_cbs (port_var v) = [(1, the_listener)]"
  "call_listener the_listener u v h = (Inr (), h @ [(u, v)])"
  by (auto simp: hearing_def var_defs port_var_def call_listener_def the_listener_def fun_eq_iff)

text \<open>The lock of one reader and of a writer.\<close>

lemma one_lock:
  "RWMutex_rdlock RWMutex = Some (RWMutex\<lparr>rw_readers := 1\<rparr>)" "RWMutex_unlock (RWMutex\<lparr>rw_readers := 1\<rparr>) = RWMutex"
  "RWMutex_wrlock RWMutex = Some (RWMutex\<lparr>rw_writer := True\<rparr>)" "RWMutex_unlock (RWMutex\<lparr>rw_writer := True\<rparr>) = RWMutex"
  by (simp_all add: RWMutex_rdlock_def RWMutex_unlock_def RWMutex_wrlock_def RWMutex_def)

text \<open>The runs of the two threads from a free lock, the value 0 and a listener that has heard nothing.\<close>

abbreviation heard_run :: "(bool, nat, (nat \<times> nat) list) shared_var \<Rightarrow> bool" where
  "heard_run \<equiv> (var_step (=))\<^sup>*\<^sup>* (hearing RWMutex 0 Idle Idle [])"

text \<open>A thread runs \<open>setValue(v)\<close> up to the end of its listeners, and the rest of it.\<close>

lemma run_listeners:
  assumes "heard_run s" and "sv_pc s i = Idle" and "sv_mutex s = RWMutex" and "sv_var s = port_var u" and "v \<noteq> u"
  shows "heard_run (at_set i (Unlocked v) (s\<lparr>sv_world := sv_world s @ [(u, v)]\<rparr>))"
proof -
  let ?s1 = "at_set i (Comparing v) (s\<lparr>sv_mutex := RWMutex\<lparr>rw_readers := 1\<rparr>\<rparr>)"
  let ?s2 = "at_set i (Calling u v [the_listener]) ?s1"
  let ?s3 = "at_set i (Calling u v []) (?s2\<lparr>sv_world := sv_world s @ [(u, v)]\<rparr>)"
  have "heard_run ?s1"
    by (rule rtranclp.rtrancl_into_rtrancl [OF assms(1)], rule var_step.rdlock) (simp_all add: assms one_lock)
  moreover have "var_step (=) ?s1 ?s2"
    using var_step.differs [of ?s1 i v "(=)"] by (simp add: assms at_set_def)
  moreover have "var_step (=) ?s2 ?s3"
    by (rule var_step.listener [where f = the_listener]) (simp_all add: assms at_set_def)
  moreover have "var_step (=) ?s3 (at_set i (Unlocked v) (unlocked ?s3))"
    by (rule var_step.called) (simp add: at_set_def)
  ultimately have "heard_run (at_set i (Unlocked v) (unlocked ?s3))" by (meson rtranclp.rtrancl_into_rtrancl)
  moreover have "at_set i (Unlocked v) (unlocked ?s3) = at_set i (Unlocked v) (s\<lparr>sv_world := sv_world s @ [(u, v)]\<rparr>)"
    using assms(3) one_lock(2) by (simp add: var_defs)
  ultimately show ?thesis by simp
qed

lemma run_assign:
  assumes "heard_run s" and "sv_pc s i = Unlocked v" and "sv_mutex s = RWMutex"
  shows "heard_run (at_set i Idle (on_var (\<lambda>x. x\<lparr>cv_val := v\<rparr>) s))"
proof -
  let ?s1 = "at_set i (Assigning v) (s\<lparr>sv_mutex := RWMutex\<lparr>rw_writer := True\<rparr>\<rparr>)"
  let ?s2 = "at_set i Idle (unlocked (on_var (\<lambda>x. x\<lparr>cv_val := v\<rparr>) ?s1))"
  have "heard_run ?s1"
    by (rule rtranclp.rtrancl_into_rtrancl [OF assms(1)], rule var_step.wrlock) (simp_all add: assms one_lock)
  moreover have "var_step (=) ?s1 ?s2" by (rule var_step.assign) (simp add: at_set_def)
  ultimately have "heard_run ?s2" by (rule rtranclp.rtrancl_into_rtrancl)
  moreover have "?s2 = at_set i Idle (on_var (\<lambda>x. x\<lparr>cv_val := v\<rparr>) s)"
    using assms(3) one_lock(4) by (simp add: var_defs)
  ultimately show ?thesis by simp
qed

text \<open>C39. Because \<open>setValue\<close> lets go of the lock between its listeners and the assignment, two calls that
  overlap can leave the listeners with a value that is not the one stored. From the value 0, a free lock
  and a listener that has heard nothing, \<open>setValue(1)\<close> and \<open>setValue(2)\<close> of two threads have a run at the
  end of which both have returned, the lock is free and the variable holds 1, while the listener was
  called twice, first with (0, 1) and last with (0, 2): the second call still got the old value 0, no
  call told it of the change from 2 to 1, and the last value it was told of is not the one stored.\<close>

theorem overlapping_sets_mislead_listeners:
  "(var_step (=))\<^sup>*\<^sup>* (hearing RWMutex 0 Idle Idle []) (hearing RWMutex 1 Idle Idle [(0, 1), (0, 2)])"
proof -
  have "heard_run (hearing RWMutex 0 Idle Idle [])" by simp
  from run_listeners [OF this, of True 0 1] have "heard_run (hearing RWMutex 0 (Unlocked 1) Idle [(0, 1)])" by simp
  from run_listeners [OF this, of False 0 2]
  have "heard_run (hearing RWMutex 0 (Unlocked 1) (Unlocked 2) [(0, 1), (0, 2)])" by simp
  from run_assign [OF this, of False 2] have "heard_run (hearing RWMutex 2 (Unlocked 1) Idle [(0, 1), (0, 2)])" by simp
  from run_assign [OF this, of True 1] show ?thesis by simp
qed

text \<open>The first thread behind its listeners, the second one about to call them.\<close>

theorem setValue_in_threads_witness:
  "\<exists>s :: (bool, nat, (nat \<times> nat) list) shared_var. reach var_start (var_step (=)) s
     \<and> sv_pc s False = Calling 0 2 [the_listener]
     \<and> cv_val (sv_var s) = 0 \<and> (\<exists>called. map snd (cv_cbs (sv_var s)) = called @ [the_listener])"
proof -
  let ?m = "RWMutex\<lparr>rw_readers := 1\<rparr>"
  let ?s = "hearing ?m 0 Idle (Calling 0 2 [the_listener]) []"
  have "reach var_start (var_step (=)) (hearing RWMutex 0 Idle Idle [])"
    unfolding hearing_def by (simp add: reach_init var_start.intros)
  moreover have "var_step (=) (hearing RWMutex 0 Idle Idle []) (hearing ?m 0 Idle (Comparing 2) [])"
    using var_step.rdlock [of "hearing RWMutex 0 Idle Idle []" False ?m "(=)" 2] one_lock(1) by simp
  moreover have "var_step (=) (hearing ?m 0 Idle (Comparing 2) []) ?s"
    using var_step.differs [of "hearing ?m 0 Idle (Comparing 2) []" False 2 "(=)"] by simp
  ultimately have run: "reach var_start (var_step (=)) ?s" by (meson reach_step)
  from setValue_in_threads [OF run, of False 0 2 "[the_listener]"] run show ?thesis
    by (intro exI [of _ ?s]) simp
qed

theorem setValue_is_steps_witness:
  "\<exists>s' :: (nat, string, string list) shared_var.
     (var_step (=))\<^sup>*\<^sup>* \<lparr>sv_mutex = RWMutex, sv_var = the_var example_config 0, sv_pc = (\<lambda>_. Idle), sv_world = []\<rparr> s'
     \<and> sv_mutex s' = RWMutex \<and> cv_val (sv_var s') = ''90''"
proof -
  let ?s = "\<lparr>sv_mutex = RWMutex, sv_var = the_var example_config 0, sv_pc = (\<lambda>_. Idle), sv_world = []\<rparr> ::
    (nat, string, string list) shared_var"
  obtain c' where set: "setValue example_cfg 0 ''90'' example_config = (Inr (), c')" "cv_val (the_var c' 0) = ''90''"
    by (simp add: setValue_def example_cfg_def the_var_def put_var_def)
  from setValue_is_steps [of ?s 0 example_config 0, OF _ _ _ _ set(1)] set(2) show ?thesis
    by (force simp: example_cfg_def)
qed

end
