(* ===== verification/Config_Types.thy ===== *)
theory Config_Types
  imports Config_Cast
begin

text \<open>
  The types of configuration values: scalars, which \<open>boost::lexical_cast\<close> reads and prints, and the
  containers with a \<open>LexicalCast\<close>, nested in any way the C++ types can be. The casts of a nested type are
  the casts of the containers applied to one another; they are type sound, and what they write of a
  value of an ordered type they read back.
\<close>

section \<open>Types and values\<close>

datatype cty =
    Scalar string
  | Vector cty
  | List cty
  | Set cty
  | USet cty
  | Map cty
  | UMap cty

datatype 's cval =
    Leaf 's
  | Items "'s cval list"
  | Fields "(string \<times> 's cval) list"

text \<open>
  \<open>operator<\<close>, by which a \<open>std::set\<close> orders its elements: containers compare lexicographically, fields
  by their keys first.
\<close>

function (sequential) val_less :: "'s::linorder cval \<Rightarrow> 's cval \<Rightarrow> bool" where
  "val_less (Leaf a) (Leaf b) \<longleftrightarrow> a < b"
| "val_less (Items []) (Items ys) \<longleftrightarrow> ys \<noteq> []"
| "val_less (Items (x # xs)) (Items []) \<longleftrightarrow> False"
| "val_less (Items (x # xs)) (Items (y # ys)) \<longleftrightarrow> val_less x y \<or> \<not> val_less y x \<and> val_less (Items xs) (Items ys)"
| "val_less (Fields []) (Fields ys) \<longleftrightarrow> ys \<noteq> []"
| "val_less (Fields (x # xs)) (Fields []) \<longleftrightarrow> False"
| "val_less (Fields ((k, x) # xs)) (Fields ((l, y) # ys)) \<longleftrightarrow>
     k < l \<or> \<not> l < k \<and> (val_less x y \<or> \<not> val_less y x \<and> val_less (Fields xs) (Fields ys))"
| "val_less (Leaf a) _ \<longleftrightarrow> True"
| "val_less (Items xs) (Leaf b) \<longleftrightarrow> False"
| "val_less (Items xs) (Fields ys) \<longleftrightarrow> True"
| "val_less (Fields xs) _ \<longleftrightarrow> False"

  by pat_completeness auto
termination by (relation "measure (\<lambda>(a, b). size a + size b)") auto

text \<open>It is a linear order, so a set of any of these values is kept strictly sorted.\<close>

lemma val_less_Nil [simp]: "\<not> val_less (Items xs) (Items [])" "\<not> val_less (Fields ys) (Fields [])"
  by (cases xs; simp) (cases ys; auto)

lemma val_less_asym: "val_less a b \<Longrightarrow> \<not> val_less b (a :: 's::linorder cval)"
  by (induction a b rule: val_less.induct) auto

lemma val_less_total: "val_less a b \<or> a = b \<or> val_less b (a :: 's::linorder cval)"
proof (induction a b rule: val_less.induct)
  case (2 ys)
  then show ?case by (cases ys) simp_all
next
  case (5 ys)
  then show ?case by (cases ys) auto
qed auto

lemma val_less_Items:
  "val_less (Items (x # xs)) (Items (y # ys)) \<longleftrightarrow> val_less x y \<or> x = y \<and> val_less (Items xs) (Items ys)"
  using val_less_total [of x y] val_less_asym [of x y] val_less_asym [of x x] by auto

lemma val_less_Fields:
  "val_less (Fields ((k, x) # xs)) (Fields ((l, y) # ys)) \<longleftrightarrow>
     k < l \<or> k = l \<and> (val_less x y \<or> x = y \<and> val_less (Fields xs) (Fields ys))"
  using val_less_total [of x y] val_less_asym [of x y] val_less_asym [of x x] by auto

lemma val_less_left:
  "val_less (Items (x # xs)) b \<longleftrightarrow>
     (\<exists>y ys. b = Items (y # ys) \<and> (val_less x y \<or> x = y \<and> val_less (Items xs) (Items ys))) \<or> (\<exists>fs. b = Fields fs)"
proof (cases b)
  case (Items ys)
  then show ?thesis by (cases ys) (simp_all add: val_less_Items del: val_less.simps(4))
qed simp_all

lemma val_less_left_Fields:
  "val_less (Fields ((k, x) # xs)) b \<longleftrightarrow>
     (\<exists>l y ys. b = Fields ((l, y) # ys) \<and> (k < l \<or> k = l \<and> (val_less x y \<or> x = y \<and> val_less (Fields xs) (Fields ys))))"
proof (cases b)
  case (Fields ys)
  then show ?thesis by (cases ys) (auto simp add: val_less_Fields simp del: val_less.simps(7))
qed simp_all

lemma val_less_trans: "val_less a b \<Longrightarrow> val_less b c \<Longrightarrow> val_less a (c :: 's::linorder cval)"
proof (induction "size a" arbitrary: a b c rule: less_induct)
  case less
  show ?case
  proof (cases a)
    case (Leaf x)
    then show ?thesis using less.prems by (cases b; cases c) auto
  next
    case (Items xs)
    show ?thesis
    proof (cases xs)
      case Nil
      then show ?thesis using less.prems Items by (cases b; cases c) auto
    next
      case (Cons x xs')
      have 1: "val_less x y \<Longrightarrow> val_less y z \<Longrightarrow> val_less x z" for y z
        using less.hyps [of x y z] Items Cons by simp
      have 2: "val_less (Items xs') y \<Longrightarrow> val_less y z \<Longrightarrow> val_less (Items xs') z" for y z
        using less.hyps [of "Items xs'" y z] Items Cons by simp
      show ?thesis
      proof (cases b)
        case (Items ys)
        with less.prems(1) \<open>a = Items xs\<close> Cons obtain y ys where b: "b = Items (y # ys)"
          "val_less x y \<or> x = y \<and> val_less (Items xs') (Items ys)" by (auto simp: val_less_left)
        have "\<exists>z zs. c = Items (z # zs) \<and> (val_less y z \<or> y = z \<and> val_less (Items ys) (Items zs)) \<or> (\<exists>fs. c = Fields fs)"
          using less.prems(2) by (auto simp: b(1) val_less_left)
        with b(2) show ?thesis unfolding \<open>a = Items xs\<close> Cons val_less_left using 1 2 by blast
      next
        case (Fields ys)
        then show ?thesis using less.prems \<open>a = Items xs\<close> Cons by (cases c) (auto simp: val_less_left)
      qed (use less.prems Items Cons in simp)
    qed
  next
    case (Fields xs)
    show ?thesis
    proof (cases xs)
      case Nil
      then show ?thesis using less.prems Fields by (cases b; cases c) auto
    next
      case (Cons f xs')
      obtain k x where f: "f = (k, x)" by (cases f)
      have 1: "val_less x y \<Longrightarrow> val_less y z \<Longrightarrow> val_less x z" for y z
        using less.hyps [of x y z] Fields Cons f by simp
      have 2: "val_less (Fields xs') y \<Longrightarrow> val_less y z \<Longrightarrow> val_less (Fields xs') z" for y z
        using less.hyps [of "Fields xs'" y z] Fields Cons f by simp
      from less.prems(1) obtain l y ys where b: "b = Fields ((l, y) # ys)"
        "k < l \<or> k = l \<and> (val_less x y \<or> x = y \<and> val_less (Fields xs') (Fields ys))"
        by (auto simp: Fields Cons f val_less_left_Fields)
      from less.prems(2) obtain m z zs where c: "c = Fields ((m, z) # zs)"
        "l < m \<or> l = m \<and> (val_less y z \<or> y = z \<and> val_less (Fields ys) (Fields zs))"
        by (auto simp: b(1) val_less_left_Fields)
      have "k < m \<or> k = m \<and> (val_less x z \<or> x = z \<and> val_less (Fields xs') (Fields zs))"
        using b(2) c(2) less_trans [of k l m] 1 [of y z] 2 [of "Fields ys" "Fields zs"] by blast
      then show ?thesis unfolding Fields Cons f val_less_left_Fields c(1) by blast
    qed
  qed
qed

instantiation cval :: (linorder) linorder
begin

definition less_cval :: "'a cval \<Rightarrow> 'a cval \<Rightarrow> bool" where
  "less_cval a b \<longleftrightarrow> val_less a b"

definition less_eq_cval :: "'a cval \<Rightarrow> 'a cval \<Rightarrow> bool" where
  "less_eq_cval a b \<longleftrightarrow> val_less a b \<or> a = b"

instance
proof
  fix x y z :: "'a cval"
  show "x < y \<longleftrightarrow> x \<le> y \<and> \<not> y \<le> x" "x \<le> x"
    using val_less_asym [of x y] by (auto simp: less_cval_def less_eq_cval_def)
  show "x \<le> y \<Longrightarrow> y \<le> z \<Longrightarrow> x \<le> z"
    by (auto simp: less_eq_cval_def intro: val_less_trans)
  show "x \<le> y \<Longrightarrow> y \<le> x \<Longrightarrow> x = y"
    by (auto simp: less_eq_cval_def dest: val_less_asym)
  show "x \<le> y \<or> y \<le> x"
    using val_less_total [of x y] by (auto simp: less_eq_cval_def)
qed

end

section \<open>Casts\<close>

text \<open>
  \<open>boost::lexical_cast\<close> from and to a string for each scalar type, by name, and the values each type
  has. The orders in which the unordered containers are iterated are the arguments \<open>by_hash\<close>.
\<close>

record 's lexical =
  lx_parse :: "string \<Rightarrow> 's from_str"
  lx_print :: "string \<Rightarrow> 's to_str"
  lx_values :: "string \<Rightarrow> 's set"

fun cast_from :: "'s lexical \<Rightarrow> 'n yaml \<Rightarrow> cty \<Rightarrow> 's::linorder cval from_str" where
  "cast_from L Y (Scalar n) v = obind (lx_parse L n v) (\<lambda>x. Inr (Leaf x))"
| "cast_from L Y (Vector t) v = obind (vector_from_str Y (cast_from L Y t) v) (\<lambda>xs. Inr (Items xs))"
| "cast_from L Y (List t) v = obind (list_from_str Y (cast_from L Y t) v) (\<lambda>xs. Inr (Items xs))"
| "cast_from L Y (Set t) v = obind (set_from_str (<) Y (cast_from L Y t) v) (\<lambda>xs. Inr (Items xs))"
| "cast_from L Y (USet t) v = obind (uset_from_str Y (cast_from L Y t) v) (\<lambda>xs. Inr (Items xs))"
| "cast_from L Y (Map t) v = obind (map_from_str Y (cast_from L Y t) v) (\<lambda>ps. Inr (Fields ps))"
| "cast_from L Y (UMap t) v = obind (umap_from_str Y (cast_from L Y t) v) (\<lambda>ps. Inr (Fields ps))"

fun cast_to :: "'s lexical \<Rightarrow> ('s cval list \<Rightarrow> 's cval list) \<times> ((string \<times> 's cval) list \<Rightarrow> (string \<times> 's cval) list)
    \<Rightarrow> 'n yaml \<Rightarrow> cty \<Rightarrow> 's cval to_str" where
  "cast_to L by_hash Y (Scalar n) (Leaf x) = lx_print L n x"
| "cast_to L by_hash Y (Vector t) (Items xs) = vector_to_str Y (cast_to L by_hash Y t) xs"
| "cast_to L by_hash Y (List t) (Items xs) = list_to_str Y (cast_to L by_hash Y t) xs"
| "cast_to L by_hash Y (Set t) (Items xs) = set_to_str Y (cast_to L by_hash Y t) xs"
| "cast_to L by_hash Y (USet t) (Items xs) = uset_to_str (fst by_hash) Y (cast_to L by_hash Y t) xs"
| "cast_to L by_hash Y (Map t) (Fields ps) = map_to_str Y (cast_to L by_hash Y t) ps"
| "cast_to L by_hash Y (UMap t) (Fields ps) = umap_to_str (snd by_hash) Y (cast_to L by_hash Y t) ps"
| "cast_to L by_hash Y _ _ = Inl (Assertion ''type'')"

text \<open>\<open>operator==\<close> of the type: containers compare element by element, the unordered ones in any order.\<close>

fun val_eq :: "cty \<Rightarrow> 's cval \<Rightarrow> 's cval \<Rightarrow> bool" where
  "val_eq (Scalar n) (Leaf x) (Leaf y) \<longleftrightarrow> x = y"
| "val_eq (Vector t) (Items xs) (Items ys) \<longleftrightarrow> list_all2 (val_eq t) xs ys"
| "val_eq (List t) (Items xs) (Items ys) \<longleftrightarrow> list_all2 (val_eq t) xs ys"
| "val_eq (Set t) (Items xs) (Items ys) \<longleftrightarrow> list_all2 (val_eq t) xs ys"
| "val_eq (USet t) (Items xs) (Items ys) \<longleftrightarrow> length xs = length ys \<and> (\<forall>x \<in> set xs. \<exists>y \<in> set ys. val_eq t x y)"
| "val_eq (Map t) (Fields ps) (Fields qs) \<longleftrightarrow> list_all2 (\<lambda>p q. fst p = fst q \<and> val_eq t (snd p) (snd q)) ps qs"
| "val_eq (UMap t) (Fields ps) (Fields qs) \<longleftrightarrow>
     length ps = length qs \<and> (\<forall>p \<in> set ps. \<exists>q \<in> set qs. fst p = fst q \<and> val_eq t (snd p) (snd q))"
| "val_eq _ _ _ \<longleftrightarrow> False"

section \<open>Typing\<close>

text \<open>The values a type has: sets are strictly sorted, maps have each key once, the ordered ones in order.\<close>

fun has_type :: "'s lexical \<Rightarrow> cty \<Rightarrow> 's::linorder cval \<Rightarrow> bool" where
  "has_type L (Scalar n) (Leaf x) \<longleftrightarrow> x \<in> lx_values L n"
| "has_type L (Vector t) (Items xs) \<longleftrightarrow> (\<forall>x \<in> set xs. has_type L t x)"
| "has_type L (List t) (Items xs) \<longleftrightarrow> (\<forall>x \<in> set xs. has_type L t x)"
| "has_type L (Set t) (Items xs) \<longleftrightarrow> (\<forall>x \<in> set xs. has_type L t x) \<and> sorted_wrt (<) xs"
| "has_type L (USet t) (Items xs) \<longleftrightarrow> (\<forall>x \<in> set xs. has_type L t x) \<and> distinct xs"
| "has_type L (Map t) (Fields ps) \<longleftrightarrow> (\<forall>p \<in> set ps. has_type L t (snd p)) \<and> smap_ok ps"
| "has_type L (UMap t) (Fields ps) \<longleftrightarrow> (\<forall>p \<in> set ps. has_type L t (snd p)) \<and> distinct (map fst ps)"
| "has_type L _ _ \<longleftrightarrow> False"

lemma val_eq_refl: "has_type L t v \<Longrightarrow> val_eq t v v"
  by (induction t arbitrary: v; case_tac v) (auto intro!: list.rel_refl_strong)

text \<open>What is documented of \<open>boost::lexical_cast\<close>: it returns a value of the type or throws.\<close>

definition lexical_ok :: "'s lexical \<Rightarrow> bool" where
  "lexical_ok L \<longleftrightarrow> (\<forall>n s x. lx_parse L n s = Inr x \<longrightarrow> x \<in> lx_values L n)"

lemma cast_items_from: "cast_items Y from ns = Inr xs \<Longrightarrow> x \<in> set xs \<Longrightarrow> \<exists>s. from s = Inr x"
  unfolding cast_items_def by (induction ns arbitrary: xs) (auto simp: obind_Inr_iff)

lemma cast_entries_from: "cast_entries Y from ns = Inr ps \<Longrightarrow> p \<in> set ps \<Longrightarrow> \<exists>s. from s = Inr (snd p)"
  unfolding cast_entries_def
proof (induction ns arbitrary: ps)
  case (Cons n ns)
  obtain k v where n: "n = (k, v)" by (cases n)
  with Cons.prems(1) obtain q qs where "ps = q # qs" "from (y_Emit Y v) = Inr (snd q)"
    "omap (\<lambda>(k, v). obind (y_Scalar Y k) (\<lambda>s. obind (from (y_Emit Y v)) (\<lambda>x. Inr (s, x)))) ns = Inr qs"
    by (auto simp: obind_Inr_iff)
  with Cons.IH [of qs] Cons.prems(2) show ?case by auto
qed simp

lemma oset_insert_sorted: "sorted_wrt (<) ys \<Longrightarrow> sorted_wrt (<) (oset_insert (<) (x :: 'a::linorder) ys)"
  using oset_insert_subset [of "(<)" x]
  by (induction "(<) :: 'a \<Rightarrow> 'a \<Rightarrow> bool" x ys rule: oset_insert.induct) (force intro: less_trans)+

text \<open>The loops that build a container keep its invariant and put nothing else into it.\<close>

lemma fold_collect:
  assumes "\<And>x acc. P acc \<Longrightarrow> P (f x acc) \<and> set (f x acc) \<subseteq> insert x (set acc)" and "P acc"
  shows "P (fold f xs acc) \<and> set (fold f xs acc) \<subseteq> set xs \<union> set acc"
  using assms(2)
proof (induction xs arbitrary: acc)
  case (Cons x xs)
  from assms(1) [OF Cons.prems, of x] have "P (f x acc)" "set (f x acc) \<subseteq> insert x (set acc)" by blast+
  with Cons.IH [of "f x acc"] show ?case by auto
qed simp

lemma set_smap_put: "set (smap_put k x m) \<subseteq> insert (k, x) (set m)"
  by (induction k x m rule: smap_put.induct) auto

lemma fold_oset: "sorted_wrt (<) (fold (oset_insert (<)) xs ([] :: 'a::linorder list))
    \<and> set (fold (oset_insert (<)) xs []) \<subseteq> set xs"
  using fold_collect [where P = "sorted_wrt (<)" and f = "oset_insert (<)" and acc = "[]" and xs = xs,
    OF conjI [OF oset_insert_sorted oset_insert_subset]] by simp

lemma fold_uset: "distinct (fold uset_insert xs []) \<and> set (fold uset_insert xs []) \<subseteq> set xs"
proof -
  have step: "distinct (uset_insert x acc) \<and> set (uset_insert x acc) \<subseteq> insert x (set acc)" if "distinct acc"
    for x and acc :: "'a list"
    using that by (auto simp: uset_insert_def)
  show ?thesis using fold_collect [where P = distinct and f = uset_insert and acc = "[]" and xs = xs, OF step] by simp
qed

lemma fold_smap: "smap_ok (fold (\<lambda>(k, x). smap_insert k x) ps []) \<and> set (fold (\<lambda>(k, x). smap_insert k x) ps []) \<subseteq> set ps"
proof -
  have step: "smap_ok ((\<lambda>(k, x). smap_insert k x) p m) \<and> set ((\<lambda>(k, x). smap_insert k x) p m) \<subseteq> insert p (set m)"
    if "smap_ok m" for p and m :: "('a, 'b) smap"
    using that set_smap_put [of "fst p" "snd p" m] by (cases p) (auto simp: smap_insert_def split: option.split)
  show ?thesis
    using fold_collect [where P = smap_ok and f = "\<lambda>(k, x). smap_insert k x" and acc = "[]" and xs = ps, OF step] by simp
qed

lemma fold_umap: "distinct (map fst (fold (\<lambda>(k, x). umap_insert k x) ps []))
    \<and> set (fold (\<lambda>(k, x). umap_insert k x) ps []) \<subseteq> set ps"
proof -
  have step: "distinct (map fst ((\<lambda>(k, x). umap_insert k x) p m)) \<and> set ((\<lambda>(k, x). umap_insert k x) p m) \<subseteq> insert p (set m)"
    if "distinct (map fst m)" for p and m :: "(string \<times> 'a) list"
    using that by (cases p) (auto simp: umap_insert_def)
  show ?thesis
    using fold_collect [where P = "\<lambda>m. distinct (map fst m)" and f = "\<lambda>(k, x). umap_insert k x" and acc = "[]" and xs = ps,
      OF step] by simp
qed

lemma cast_from_typed:
  assumes ok: "lexical_ok L"
  shows "cast_from L Y t s = Inr v \<Longrightarrow> has_type L t v"
proof (induction t arbitrary: s v)
  case (Scalar n)
  with ok show ?case by (auto simp: lexical_ok_def obind_Inr_iff)
next
  case (Vector t)
  then obtain ns xs where xs: "cast_items Y (cast_from L Y t) ns = Inr xs" "v = Items xs"
    by (auto simp: vector_from_str_def obind_Inr_iff)
  have "\<forall>x \<in> set xs. has_type L t x" using Vector.IH cast_items_from [OF xs(1)] by blast
  with xs(2) show ?case by simp
next
  case (List t)
  then obtain ns xs where xs: "cast_items Y (cast_from L Y t) ns = Inr xs" "v = Items xs"
    by (auto simp: list_from_str_def obind_Inr_iff)
  have "\<forall>x \<in> set xs. has_type L t x" using List.IH cast_items_from [OF xs(1)] by blast
  with xs(2) show ?case by simp
next
  case (Set t)
  then obtain ns xs where xs: "cast_items Y (cast_from L Y t) ns = Inr xs" "v = Items (fold (oset_insert (<)) xs [])"
    by (auto simp: set_from_str_def obind_Inr_iff)
  have "\<forall>x \<in> set xs. has_type L t x" using Set.IH cast_items_from [OF xs(1)] by blast
  with xs(2) fold_oset [of xs] show ?case by auto
next
  case (USet t)
  then obtain ns xs where xs: "cast_items Y (cast_from L Y t) ns = Inr xs" "v = Items (fold uset_insert xs [])"
    by (auto simp: uset_from_str_def obind_Inr_iff)
  have "\<forall>x \<in> set xs. has_type L t x" using USet.IH cast_items_from [OF xs(1)] by blast
  with xs(2) fold_uset [of xs] show ?case by auto
next
  case (Map t)
  then obtain ns ps where ps: "cast_entries Y (cast_from L Y t) ns = Inr ps"
    "v = Fields (fold (\<lambda>(k, x). smap_insert k x) ps [])"
    by (auto simp: map_from_str_def obind_Inr_iff)
  have "\<forall>p \<in> set ps. has_type L t (snd p)" using Map.IH cast_entries_from [OF ps(1)] by blast
  with ps(2) fold_smap [of ps] show ?case by auto
next
  case (UMap t)
  then obtain ns ps where ps: "cast_entries Y (cast_from L Y t) ns = Inr ps"
    "v = Fields (fold (\<lambda>(k, x). umap_insert k x) ps [])"
    by (auto simp: umap_from_str_def obind_Inr_iff)
  have "\<forall>p \<in> set ps. has_type L t (snd p)" using UMap.IH cast_entries_from [OF ps(1)] by blast
  with ps(2) fold_umap [of ps] show ?case by auto
qed

section \<open>Nested round trips\<close>

text \<open>Types without unordered containers.\<close>

fun ordered_type :: "cty \<Rightarrow> bool" where
  "ordered_type (Scalar n) \<longleftrightarrow> True"
| "ordered_type (Vector t) \<longleftrightarrow> ordered_type t"
| "ordered_type (List t) \<longleftrightarrow> ordered_type t"
| "ordered_type (Set t) \<longleftrightarrow> ordered_type t"
| "ordered_type (Map t) \<longleftrightarrow> ordered_type t"
| "ordered_type _ \<longleftrightarrow> False"

text \<open>The scalars in a value, each with the name of its type, and when their texts are read back: that of a
  variable that is a scalar as it is, those in a container as a part of its document.\<close>

fun leaves_of :: "cty \<Rightarrow> 's cval \<Rightarrow> (string \<times> 's) list" where
  "leaves_of (Scalar n) (Leaf x) = [(n, x)]"
| "leaves_of (Vector t) (Items xs) = concat (map (leaves_of t) xs)"
| "leaves_of (List t) (Items xs) = concat (map (leaves_of t) xs)"
| "leaves_of (Set t) (Items xs) = concat (map (leaves_of t) xs)"
| "leaves_of (USet t) (Items xs) = concat (map (leaves_of t) xs)"
| "leaves_of (Map t) (Fields ps) = concat (map (\<lambda>p. leaves_of t (snd p)) ps)"
| "leaves_of (UMap t) (Fields ps) = concat (map (\<lambda>p. leaves_of t (snd p)) ps)"
| "leaves_of _ _ = []"

definition scalars_survive :: "'s lexical \<Rightarrow> 'n yaml \<Rightarrow> cty \<Rightarrow> 's cval \<Rightarrow> bool" where
  "scalars_survive L Y t v \<longleftrightarrow> (\<forall>(n, x) \<in> set (leaves_of t v).
     if t = Scalar n then obind (lx_print L n x) (lx_parse L n) = Inr x
     else survives Y (lx_parse L n) (lx_print L n) x)"

lemma survives_wrap:
  "survives Y f g x \<Longrightarrow> h (C x) = g x \<Longrightarrow> survives Y (\<lambda>s. obind (f s) (\<lambda>y. Inr (C y))) h (C x)"
  unfolding survives_def by auto

lemma set_survives:
  assumes "yaml_laws Y" and "\<forall>x \<in> set v. survives Y from to x" and "sorted_wrt (<) (v :: 'a::linorder list)"
  shows "survives Y (set_from_str (<) Y from) (set_to_str Y to) v"
proof -
  obtain ns where ns: "load_items Y to v = Inr ns" "cast_items Y from ns = Inr v" "yaml_node Y (y_seq Y ns)"
    using load_cast_items [OF assms(2)] by blast
  have "fold (oset_insert (<)) v [] = v" using fold_oset_insert_sorted [of "(<)" "[]" v] assms(3) by fastforce
  with ns show ?thesis
    by (intro survivesI [OF assms(1), of _ _ "y_seq Y ns"])
      (simp_all add: set_to_str_def set_from_str_def yaml_lawsD(1,2) [OF assms(1)])
qed

lemma map_survives:
  assumes "yaml_laws Y" and "\<forall>(k, x) \<in> set m. survives Y from to x" and "smap_ok m"
  shows "survives Y (map_from_str Y from) (map_to_str Y to) m"
proof -
  obtain ps where ps: "load_entries Y to m = Inr ps" "map fst ps = map fst m"
    "cast_entries Y from (map (\<lambda>(k, v). (y_str Y k, v)) ps) = Inr m" "yaml_node Y (y_map Y ps)"
    using load_cast_entries [OF assms(2,1)] smap_ok_distinct [OF assms(3)] by blast
  then have "distinct (map fst ps)" using assms(3) by simp
  with ps fold_smap_insert_sorted [of "[]" m] assms(3) show ?thesis
    by (intro survivesI [OF assms(1), of _ _ "y_map Y ps"])
      (simp_all add: map_to_str_def map_from_str_def yaml_lawsD(1,3) [OF assms(1)])
qed

lemma list_is_vector: "list_from_str = vector_from_str" "list_to_str = vector_to_str"
  by (simp_all add: fun_eq_iff list_from_str_def vector_from_str_def list_to_str_def vector_to_str_def)

lemma typed_survives:
  assumes laws: "yaml_laws Y"
  shows "ordered_type t \<Longrightarrow> has_type L t v \<Longrightarrow>
    \<forall>(n, x) \<in> set (leaves_of t v). survives Y (lx_parse L n) (lx_print L n) x \<Longrightarrow>
    survives Y (cast_from L Y t) (cast_to L by_hash Y t) v"
proof (induction t arbitrary: v)
  case (Scalar n)
  then obtain x where x: "v = Leaf x" "x \<in> lx_values L n" by (cases v) auto
  have "cast_from L Y (Scalar n) = (\<lambda>s. obind (lx_parse L n s) (\<lambda>y. Inr (Leaf y)))" by (simp add: fun_eq_iff)
  moreover have "survives Y (lx_parse L n) (lx_print L n) x" using x Scalar.prems(3) by simp
  ultimately show ?case using survives_wrap [of Y "lx_parse L n" "lx_print L n" x "cast_to L by_hash Y (Scalar n)" Leaf] x(1)
    by simp
next
  case (Vector t)
  then obtain xs where xs: "v = Items xs" "\<forall>x \<in> set xs. has_type L t x" by (cases v) auto
  have "cast_from L Y (Vector t) = (\<lambda>s. obind (vector_from_str Y (cast_from L Y t) s) (\<lambda>y. Inr (Items y)))"
    by (simp add: fun_eq_iff)
  moreover have "survives Y (vector_from_str Y (cast_from L Y t)) (vector_to_str Y (cast_to L by_hash Y t)) xs"
    by (rule vector_survives [OF laws]) (use xs(1,2) Vector in auto)
  ultimately show ?case
    using survives_wrap [of Y _ _ xs "cast_to L by_hash Y (Vector t)" Items] xs(1) by simp
next
  case (List t)
  then obtain xs where xs: "v = Items xs" "\<forall>x \<in> set xs. has_type L t x" by (cases v) auto
  have "cast_from L Y (List t) = (\<lambda>s. obind (vector_from_str Y (cast_from L Y t) s) (\<lambda>y. Inr (Items y)))"
    by (simp add: fun_eq_iff list_is_vector)
  moreover have "survives Y (vector_from_str Y (cast_from L Y t)) (vector_to_str Y (cast_to L by_hash Y t)) xs"
    by (rule vector_survives [OF laws]) (use xs(1,2) List in auto)
  ultimately show ?case
    using survives_wrap [of Y _ _ xs "cast_to L by_hash Y (List t)" Items] xs(1) by (simp add: list_is_vector)
next
  case (Set t)
  then obtain xs where xs: "v = Items xs" "\<forall>x \<in> set xs. has_type L t x" "sorted_wrt (<) xs" by (cases v) auto
  have "cast_from L Y (Set t) = (\<lambda>s. obind (set_from_str (<) Y (cast_from L Y t) s) (\<lambda>y. Inr (Items y)))"
    by (simp add: fun_eq_iff)
  moreover have "survives Y (set_from_str (<) Y (cast_from L Y t)) (set_to_str Y (cast_to L by_hash Y t)) xs"
    by (rule set_survives [OF laws _ xs(3)]) (use xs(1,2) Set in auto)
  ultimately show ?case
    using survives_wrap [of Y _ _ xs "cast_to L by_hash Y (Set t)" Items] xs(1) by simp
next
  case (Map t)
  then obtain m where m: "v = Fields m" "\<forall>p \<in> set m. has_type L t (snd p)" "smap_ok m" by (cases v) auto
  have "cast_from L Y (Map t) = (\<lambda>s. obind (map_from_str Y (cast_from L Y t) s) (\<lambda>y. Inr (Fields y)))"
    by (simp add: fun_eq_iff)
  moreover have "survives Y (map_from_str Y (cast_from L Y t)) (map_to_str Y (cast_to L by_hash Y t)) m"
    by (rule map_survives [OF laws _ m(3)]) (use m(1,2) Map in auto)
  ultimately show ?case
    using survives_wrap [of Y _ _ m "cast_to L by_hash Y (Map t)" Fields] m(1) by simp
qed simp_all

text \<open>The cast to a container looks at the document only.\<close>

lemma container_load:
  assumes "y_Load Y s = y_Load Y s'" and "\<forall>n. t \<noteq> Scalar n"
  shows "cast_from L Y t s = cast_from L Y t s'"
  using assms by (cases t)
    (simp_all add: vector_from_str_def list_from_str_def set_from_str_def uset_from_str_def map_from_str_def umap_from_str_def)

lemma typed_text_reads_back:
  assumes laws: "yaml_laws Y" and scalars: "scalars_survive L Y t v" and "ordered_type t" and "has_type L t v"
  shows "\<exists>s. cast_to L by_hash Y t v = Inr s \<and> cast_from L Y t s = Inr v"
proof (cases "\<exists>n. t = Scalar n")
  case True
  then obtain n where n: "t = Scalar n" by blast
  with assms(4) obtain x where x: "v = Leaf x" "x \<in> lx_values L n" by (cases v) auto
  then have "obind (lx_print L n x) (lx_parse L n) = Inr x" using scalars n by (simp add: scalars_survive_def)
  with n x(1) show ?thesis by (auto simp: obind_Inr_iff)
next
  case False
  then have "\<forall>(n, x) \<in> set (leaves_of t v). survives Y (lx_parse L n) (lx_print L n) x"
    using scalars by (auto simp: scalars_survive_def)
  from typed_survives [OF laws assms(3,4) this, of by_hash] obtain s m where s: "cast_to L by_hash Y t v = Inr s"
    "y_Load Y s = Inr m" "cast_from L Y t (y_Emit Y m) = Inr v"
    unfolding survives_def by blast
  have "y_Load Y s = y_Load Y (y_Emit Y m)" using yaml_lawsD(1) [OF laws yaml_node.loaded [OF s(2)]] s(2) by simp
  with container_load [of Y s "y_Emit Y m" t L] False s(1,3) show ?thesis by auto
qed

end
