(* ===== verification/Config_Typed.thy ===== *)
theory Config_Typed
  imports Config_Types Config_Load Config_Examples
begin

text \<open>
  Configurations whose variables have the types of \<open>Config_Types\<close>: every variable always has a value of the
  type it was registered with, and its text is read back as its value.
\<close>

section \<open>Configurations of typed variables\<close>

text \<open>\<open>tys\<close> gives the type that a \<open>typeid\<close> name stands for.\<close>

definition typed_env :: "'s lexical \<Rightarrow> ('s cval list \<Rightarrow> 's cval list) \<times> ((string \<times> 's cval) list \<Rightarrow> (string \<times> 's cval) list)
    \<Rightarrow> 'n yaml \<Rightarrow> (string \<Rightarrow> cty) \<Rightarrow> (string \<Rightarrow> 'w \<Rightarrow> 'w) \<Rightarrow> ('s::linorder cval, 'w) cfg_env" where
  "typed_env L by_hash Y tys rep =
     \<lparr>from_str = (\<lambda>n. cast_from L Y (tys n)), to_str = (\<lambda>n. cast_to L by_hash Y (tys n)), veq = (\<lambda>n. val_eq (tys n)),
      report = rep\<rparr>"

lemma typed_env_simps [simp]:
  "from_str (typed_env L h Y tys rep) n = cast_from L Y (tys n)" "to_str (typed_env L h Y tys rep) n = cast_to L h Y (tys n)"
  "report (typed_env L h Y tys rep) = rep"
  by (simp_all add: typed_env_def)

text \<open>What the C++ compiler lets a program do: the default of \<open>Lookup<T>\<close> and the argument of a variable's
  \<open>setValue\<close> have the type \<open>T\<close>; texts and documents can be anything.\<close>

inductive typed_step :: "'s lexical \<Rightarrow> (string \<Rightarrow> cty) \<Rightarrow> ('s::linorder cval, 'w) cfg_env \<Rightarrow> 'n yaml
    \<Rightarrow> ('s cval, 'w) config \<Rightarrow> ('s cval, 'w) config \<Rightarrow> bool" for L tys env Y where
  lookup: "has_type L (tys ty) v \<Longrightarrow> Lookup env ty n v d c = (r, c') \<Longrightarrow> typed_step L tys env Y c c'"
| set_value: "cf_vars c p = Some x \<Longrightarrow> has_type L (tys (cv_type x)) v \<Longrightarrow> setValue env p v c = (r, c') \<Longrightarrow>
    typed_step L tys env Y c c'"
| from_string: "cf_vars c p \<noteq> None \<Longrightarrow> fromString env p s c = (r, c') \<Longrightarrow> typed_step L tys env Y c c'"
| add_listener: "cf_vars c p \<noteq> None \<Longrightarrow> addListener p cb c = (k, c') \<Longrightarrow> typed_step L tys env Y c c'"
| del_listener: "cf_vars c p \<noteq> None \<Longrightarrow> typed_step L tys env Y c (delListener p k c)"
| clear_listener: "cf_vars c p \<noteq> None \<Longrightarrow> typed_step L tys env Y c (clearListener p c)"
| load: "LoadFromYaml env Y d root c = (r, c') \<Longrightarrow> typed_step L tys env Y c c'"

lemma typed_config_step: "typed_step L tys env Y c c' \<Longrightarrow> config_step env Y c c'"
  by (erule typed_step.cases) (auto intro: config_step.intros)

definition well_typed :: "'s lexical \<Rightarrow> (string \<Rightarrow> cty) \<Rightarrow> ('s::linorder cval, 'w) config \<Rightarrow> bool" where
  "well_typed L tys c \<longleftrightarrow> (\<forall>p x. cf_vars c p = Some x \<longrightarrow> has_type L (tys (cv_type x)) (cv_val x))"

lemma well_typed_put:
  "well_typed L tys c \<Longrightarrow> has_type L (tys (cv_type x)) (cv_val x) \<Longrightarrow> well_typed L tys (put_var p x c)"
  by (simp add: well_typed_def)

lemma well_typed_same [simp]:
  "well_typed L tys (say env msg c) = well_typed L tys c" "well_typed L tys (c\<lparr>cf_world := w\<rparr>) = well_typed L tys c"
  "well_typed L tys (c\<lparr>cf_fun_id := f\<rparr>) = well_typed L tys c" "well_typed L tys (c\<lparr>cf_next := m\<rparr>) = well_typed L tys c"
  "well_typed L tys (c\<lparr>cf_data := d\<rparr>) = well_typed L tys c"
  by (simp_all add: well_typed_def)

lemma well_typed_setValue:
  assumes "well_typed L tys c" and "cf_vars c p = Some x" and "has_type L (tys (cv_type x)) v"
    and "setValue env p v c = (r, c')"
  shows "well_typed L tys c'"
  using assms by (auto simp: setValue_def Let_def the_var_def well_typed_put split: if_splits prod.splits sum.splits)

lemma well_typed_fromString:
  assumes lex: "lexical_ok L" and typed: "well_typed L tys c" and p: "cf_vars c p \<noteq> None"
    and run: "fromString (typed_env L h Y tys rep) p s c = (r, c')"
  shows "well_typed L tys c'"
proof -
  let ?env = "typed_env L h Y tys rep"
  obtain x where x: "cf_vars c p = Some x" "the_var c p = x" using p by (auto simp: the_var_def)
  show ?thesis
  proof (cases rule: fromString_cases [of ?env c p s])
    case (cast e)
    with run typed show ?thesis by (auto split: if_splits)
  next
    case (set_fails v e c1)
    then have "has_type L (tys (cv_type x)) v" using x(2) cast_from_typed [OF lex] by simp
    with set_fails(2,3) run show ?thesis using well_typed_setValue [OF typed x(1)] by (auto split: if_splits)
  next
    case (set v c1)
    then have "has_type L (tys (cv_type x)) v" using x(2) cast_from_typed [OF lex] by simp
    with set(2,3) run show ?thesis using well_typed_setValue [OF typed x(1)] by auto
  qed
qed

lemma well_typed_load_node:
  assumes lex: "lexical_ok L" and ok: "config_ok c" "well_typed L tys c"
    and run: "load_node (typed_env L h Y tys rep) Y m c = (r, c')"
  shows "well_typed L tys c'"
proof (cases "fst m = [] \<or> map_of (cf_data c) (map tolower (fst m)) = None \<or> (\<exists>e. node_text Y (snd m) = Inl e)")
  case True
  with ok run show ?thesis by (auto simp: load_node_def LookupBase_def split: prod.splits option.splits if_splits)
next
  case False
  then obtain p s where p: "map_of (cf_data c) (map tolower (fst m)) = Some p" "node_text Y (snd m) = Inr s"
    by (cases "node_text Y (snd m)") auto
  obtain b c1 where f: "fromString (typed_env L h Y tys rep) p s c = (b, c1)"
    by (cases "fromString (typed_env L h Y tys rep) p s c")
  have "c' = c1" using run False p f by (auto simp: load_node_def LookupBase_def case_prod_beta split: sum.splits)
  with well_typed_fromString [OF lex ok(2) _ f] config_ok_name [OF ok(1) p(1)] show ?thesis by auto
qed

lemma well_typed_step:
  assumes lex: "lexical_ok L" and ok: "config_ok c" "well_typed L tys c"
    and step: "typed_step L tys (typed_env L h Y tys rep) Y c c'"
  shows "well_typed L tys c'"
  using step
proof cases
  case (lookup ty v n d r)
  then show ?thesis
    using ok(2) by (auto simp: Lookup_def toString_def Let_def well_typed_put new_ConfigVar_def
        split: if_splits prod.splits sum.splits option.splits)
next
  case (set_value p x v r)
  then show ?thesis using well_typed_setValue [OF ok(2)] by blast
next
  case (from_string p s r)
  then show ?thesis using well_typed_fromString [OF lex ok(2)] by blast
next
  case (add_listener p cb k)
  then show ?thesis
    using ok(2) by (auto simp: addListener_def Let_def the_var_def well_typed_def split: if_splits)
next
  case (del_listener p k)
  then show ?thesis using ok(2) by (auto simp: delListener_def Let_def the_var_def well_typed_def split: if_splits)
next
  case (clear_listener p)
  then show ?thesis using ok(2) by (auto simp: clearListener_def the_var_def well_typed_def split: if_splits)
next
  case (load d root r)
  let ?env = "typed_env L h Y tys rep"
  obtain q w ms where l: "ListAllMember (\<lambda>w msg. report ?env msg w) Y d [] root (cf_world c, []) = (q, (w, ms))"
    by (cases "ListAllMember (\<lambda>w msg. report ?env msg w) Y d [] root (cf_world c, [])") auto
  have ok1: "config_ok (c\<lparr>cf_world := w\<rparr>) \<and> well_typed L tys (c\<lparr>cf_world := w\<rparr>)"
    using ok by (auto intro: config_ok_shape [OF ok(1)])
  show ?thesis
  proof (cases q)
    case (Inl e)
    with load l have "c' = c\<lparr>cf_world := w\<rparr>" by (simp add: LoadFromYaml_def)
    with ok1 show ?thesis by blast
  next
    case (Inr u)
    with load l have run: "efor (load_node ?env Y) ms (c\<lparr>cf_world := w\<rparr>) = (r, c')" by (simp add: LoadFromYaml_def)
    have "config_ok c' \<and> well_typed L tys c'"
      by (rule efor_invariant [of "\<lambda>c. config_ok c \<and> well_typed L tys c", OF ok1 _ run])
        (blast intro: load_node_ok well_typed_load_node [OF lex])
    then show ?thesis by blast
  qed
qed

lemma typed_reach:
  assumes "lexical_ok L" and "reach config_start (typed_step L tys (typed_env L h Y tys rep) Y) c"
  shows "config_ok c \<and> well_typed L tys c"
  using assms(2)
proof (induction rule: reach.induct)
  case (reach_init c)
  then show ?case by (auto simp: config_start_ok well_typed_def elim: config_start.cases)
next
  case (reach_step c c')
  then show ?case using well_typed_step [OF assms(1)] config_ok_step typed_config_step by blast
qed

lemma Lookup_only_var:
  assumes "config_ok c" and "Lookup_only ty n c = Some p"
  obtains x where "cf_vars c p = Some x" "the_var c p = x" "cv_type x = ty"
proof -
  have p: "map_of (cf_data c) n = Some p" "cv_type (the_var c p) = ty"
    using assms(2) by (auto simp: Lookup_only_def split: option.splits if_splits)
  obtain x where "cf_vars c p = Some x" using config_ok_name [OF assms(1) p(1)] by blast
  with p(2) that [of x] show thesis by (simp add: the_var_def)
qed

text \<open>C16. The configuration is type sound. Whatever a program that compiles does with the configuration, and
  whatever texts and documents it loads, \<open>Lookup<T>(name)\<close> returns only variables of type \<open>T\<close>, and their
  value is one of \<open>T\<close>: a set is strictly ordered and has no element twice, a map has no key twice, at
  every depth of nesting.\<close>

theorem configuration_well_typed:
  assumes "lexical_ok L" and "reach config_start (typed_step L tys (typed_env L h Y tys rep) Y) c"
    and "Lookup_only ty n c = Some p"
  shows "getTypeName c p = ty \<and> has_type L (tys ty) (getValue c p)"
proof -
  have ok: "config_ok c" "well_typed L tys c" using typed_reach [OF assms(1,2)] by blast+
  obtain x where "cf_vars c p = Some x" "the_var c p = x" "cv_type x = ty" using Lookup_only_var [OF ok(1) assms(3)] .
  with ok(2) show ?thesis by (auto simp: getTypeName_def getValue_def well_typed_def)
qed

text \<open>C17. The text of a variable is read back as its value, for vectors, lists, sets and maps nested to any
  depth, if every scalar in the value is: so \<open>toString\<close> does not fail and changes nothing, \<open>fromString\<close> of that text
  on the same variable succeeds and leaves the configuration as it is, and in a configuration in which the
  variable has another value it does what \<open>setValue\<close> of the old value does.\<close>

theorem variable_text_reads_back:
  assumes lex: "lexical_ok L" and run: "reach config_start (typed_step L tys (typed_env L h Y tys rep) Y) c"
    and p: "Lookup_only ty n c = Some p" and laws: "yaml_laws Y"
    and scalars: "scalars_survive L Y (tys ty) (getValue c p)" and ordered: "ordered_type (tys ty)"
  shows "\<exists>s. toString (typed_env L h Y tys rep) p c = (Inr s, c) \<and> cast_from L Y (tys ty) s = Inr (getValue c p)
    \<and> fromString (typed_env L h Y tys rep) p s c = (Inr True, c)
    \<and> (\<forall>c2 c3. cv_type (the_var c2 p) = ty \<and> setValue (typed_env L h Y tys rep) p (getValue c p) c2 = (Inr (), c3) \<longrightarrow>
          fromString (typed_env L h Y tys rep) p s c2 = (Inr True, c3))"
proof -
  have ok: "config_ok c" "well_typed L tys c" using typed_reach [OF lex run] by blast+
  obtain x where x: "cf_vars c p = Some x" "the_var c p = x" "cv_type x = ty" using Lookup_only_var [OF ok(1) p] .
  with ok(2) have typed: "has_type L (tys ty) (cv_val x)" by (auto simp: well_typed_def)
  have val: "getValue c p = cv_val x" using x(2) by (simp add: getValue_def)
  obtain s where s: "cast_to L h Y (tys ty) (cv_val x) = Inr s" "cast_from L Y (tys ty) s = Inr (cv_val x)"
    using typed_text_reads_back [OF laws scalars ordered, unfolded val, OF typed] by blast
  have "setValue (typed_env L h Y tys rep) p (cv_val x) c = (Inr (), c)"
    using x val_eq_refl [OF typed] by (simp add: setValue_def typed_env_def Let_def)
  with s x val show ?thesis by (intro exI [of _ s]) (simp add: toString_def fromString_def Let_def)
qed

section \<open>Witnesses\<close>

text \<open>Strings as scalars, in the text form of the trees; a variable that is a vector of sets of strings.\<close>

definition string_lexical :: "string lexical" where
  "string_lexical = \<lparr>lx_parse = (\<lambda>_. tree_from_str), lx_print = (\<lambda>_. tree_to_str), lx_values = (\<lambda>_. UNIV)\<rparr>"

abbreviation hosts_type :: "string \<Rightarrow> cty" where
  "hosts_type \<equiv> \<lambda>_. Vector (Set (Scalar ''string''))"

definition hosts_value :: "string cval" where
  "hosts_value = Items [Items [Leaf ''a'', Leaf ''b''], Items [Leaf ''c'']]"

definition hosts_env :: "(string cval, unit) cfg_env" where
  "hosts_env = typed_env string_lexical (rev, rev) tree_yaml hosts_type (\<lambda>_ w. w)"

definition hosts_start :: "(string cval, unit) config" where
  "hosts_start = \<lparr>cf_vars = (\<lambda>_. None), cf_data = [], cf_next = 0, cf_fun_id = (\<lambda>_. 0), cf_world = ()\<rparr>"

definition hosts_config :: "(string cval, unit) config" where
  "hosts_config = snd (Lookup hosts_env ''h'' ''hosts'' hosts_value [] hosts_start)"

lemma string_lexical_ok: "lexical_ok string_lexical" "scalars_survive string_lexical tree_yaml t v"
proof -
  show "lexical_ok string_lexical" by (simp add: lexical_ok_def string_lexical_def)
  have "obind (tree_to_str x) tree_from_str = Inr x" for x
    using tree_loads [of "TStr x"]
    by (simp add: tree_to_str_def tree_from_str_def tree_yaml_def del: emit_tree.simps)
  then show "scalars_survive string_lexical tree_yaml t v"
    by (auto simp: scalars_survive_def string_lexical_def tree_survives)
qed

lemma hosts_reach:
  "reach config_start (typed_step string_lexical hosts_type hosts_env tree_yaml) hosts_config"
  "Lookup_only ''h'' ''hosts'' hosts_config = Some 0"
proof -
  have start: "config_start hosts_start" unfolding hosts_start_def by (rule config_start.intros)
  have typed: "has_type string_lexical (hosts_type ''h'') hosts_value"
    by (simp add: hosts_value_def string_lexical_def less_cval_def less_char_def)
  have "Lookup hosts_env ''h'' ''hosts'' hosts_value [] hosts_start =
      (fst (Lookup hosts_env ''h'' ''hosts'' hosts_value [] hosts_start), hosts_config)"
    by (simp add: hosts_config_def)
  with typed have "typed_step string_lexical hosts_type hosts_env tree_yaml hosts_start hosts_config"
    by (rule typed_step.lookup)
  moreover have "reach config_start (typed_step string_lexical hosts_type hosts_env tree_yaml) hosts_start"
    using start by (rule reach_init)
  ultimately show "reach config_start (typed_step string_lexical hosts_type hosts_env tree_yaml) hosts_config"
    by (intro reach_step [where init = config_start and s = hosts_start and t = hosts_config])
  show "Lookup_only ''h'' ''hosts'' hosts_config = Some 0"
    by (simp add: hosts_config_def Lookup_def hosts_start_def Lookup_only_def new_ConfigVar_def only_chars_def
        name_chars_def)
qed

theorem configuration_well_typed_witness:
  "has_type string_lexical (hosts_type ''h'') (getValue hosts_config 0)"
  using configuration_well_typed [OF string_lexical_ok(1) hosts_reach(1) [unfolded hosts_env_def] hosts_reach(2)] by blast

theorem variable_text_reads_back_witness:
  "\<exists>s. toString hosts_env 0 hosts_config = (Inr s, hosts_config)
     \<and> fromString hosts_env 0 s hosts_config = (Inr True, hosts_config)"
  using variable_text_reads_back [OF string_lexical_ok(1) hosts_reach(1) [unfolded hosts_env_def] hosts_reach(2)
      tree_laws string_lexical_ok(2)]
  unfolding hosts_env_def by auto

end
