(* ===== verification/Lookup_Threads.thy ===== *)
theory Lookup_Threads
  imports Config_Examples
begin

text \<open>
  \<open>Config::Lookup\<close> in several threads. It searches the registry under the read lock, lets go of it, makes
  the variable and enters it under the write lock, without looking again.
\<close>

section \<open>The two parts of a call\<close>

text \<open>The search, with the result of the call if the name is there.\<close>

definition Lookup_search :: "('v, 'w) cfg_env \<Rightarrow> string \<Rightarrow> string \<Rightarrow> ('v, 'w) config
    \<Rightarrow> ref option outcome option \<times> ('v, 'w) config" where
  "Lookup_search env ty name c =
     (case map_of (cf_data c) name of
        None \<Rightarrow> (None, c)
      | Some p \<Rightarrow>
          if cv_type (the_var c p) = ty then (Some (Inr (Some p)), say env (''Lookup name='' @ name @ '' exists'') c)
          else
            (case toString env p c of
               (Inl e, c1) \<Rightarrow> (Some (Inl e), c1)
             | (Inr s, c1) \<Rightarrow>
                 (Some (Inr None), say env (''Lookup name='' @ name @ '' exists but type not '' @ ty @ '' real_type=''
                                       @ getTypeName c p @ '' '' @ s) c1)))"

text \<open>The check of the name and the new variable.\<close>

definition Lookup_enter :: "('v, 'w) cfg_env \<Rightarrow> string \<Rightarrow> string \<Rightarrow> 'v \<Rightarrow> string
    \<Rightarrow> (('v, 'w) config, ref option) eff" where
  "Lookup_enter env ty name default_value description c =
     (if \<not> only_chars name_chars name then
        (Inl (Throw name), say env (''Lookup name invalid '' @ name) c)
      else
        (Inr (Some (cf_next c)),
         (put_var (cf_next c) (new_ConfigVar ty name default_value description) c)
           \<lparr>cf_next := cf_next c + 1, cf_data := smap_put name (cf_next c) (cf_data c)\<rparr>))"

lemma Lookup_parts:
  "Lookup env ty name v d c =
     (case Lookup_search env ty name c of (Some r, c1) \<Rightarrow> (r, c1) | (None, c1) \<Rightarrow> Lookup_enter env ty name v d c1)"
  by (simp add: Lookup_def Lookup_search_def Lookup_enter_def split: option.split prod.split sum.split)

section \<open>Threads\<close>

text \<open>Each thread makes one call; \<open>asks t\<close> are its arguments.\<close>

record 'v request =
  rq_type :: string
  rq_name :: string
  rq_value :: 'v
  rq_description :: string

datatype lookup_pc = Searching | Entering | Returned "ref option outcome"

record ('t, 'v, 'w) lookups =
  lt_config :: "('v, 'w) config"
  lt_pc :: "'t \<Rightarrow> lookup_pc"

inductive lookup_step :: "('v, 'w) cfg_env \<Rightarrow> ('t \<Rightarrow> 'v request) \<Rightarrow> ('t, 'v, 'w) lookups \<Rightarrow> ('t, 'v, 'w) lookups \<Rightarrow> bool"
  for env asks where
  found: "lt_pc s t = Searching \<Longrightarrow> Lookup_search env (rq_type (asks t)) (rq_name (asks t)) (lt_config s) = (Some r, c) \<Longrightarrow>
    lookup_step env asks s \<lparr>lt_config = c, lt_pc = (lt_pc s)(t := Returned r)\<rparr>"
| missed: "lt_pc s t = Searching \<Longrightarrow> Lookup_search env (rq_type (asks t)) (rq_name (asks t)) (lt_config s) = (None, c) \<Longrightarrow>
    lookup_step env asks s \<lparr>lt_config = c, lt_pc = (lt_pc s)(t := Entering)\<rparr>"
| enter: "lt_pc s t = Entering \<Longrightarrow>
    Lookup_enter env (rq_type (asks t)) (rq_name (asks t)) (rq_value (asks t)) (rq_description (asks t)) (lt_config s) = (r, c) \<Longrightarrow>
    lookup_step env asks s \<lparr>lt_config = c, lt_pc = (lt_pc s)(t := Returned r)\<rparr>"

inductive lookup_start :: "('v, 'w) config \<Rightarrow> ('t, 'v, 'w) lookups \<Rightarrow> bool" for c where
  "lookup_start c \<lparr>lt_config = c, lt_pc = (\<lambda>_. Searching)\<rparr>"

section \<open>What every call returns\<close>

definition answers :: "('v, 'w) config \<Rightarrow> ('v, 'w) config \<Rightarrow> 'v request \<Rightarrow> ref \<Rightarrow> bool" where
  "answers c0 c rq p \<longleftrightarrow> (\<exists>x. cf_vars c p = Some x \<and> cv_type x = rq_type rq \<and> cv_name x = rq_name rq)
     \<and> (\<forall>q. map_of (cf_data c0) (rq_name rq) = Some q \<longrightarrow> p = q)"

definition lookup_inv :: "('v, 'w) config \<Rightarrow> ('t \<Rightarrow> 'v request) \<Rightarrow> ('t, 'v, 'w) lookups \<Rightarrow> bool" where
  "lookup_inv c0 asks s \<longleftrightarrow> config_ok (lt_config s)
     \<and> (\<forall>n q. map_of (cf_data c0) n = Some q \<longrightarrow> map_of (cf_data (lt_config s)) n = Some q)
     \<and> (\<forall>t. lt_pc s t = Entering \<longrightarrow> map_of (cf_data c0) (rq_name (asks t)) = None)
     \<and> (\<forall>t p. lt_pc s t = Returned (Inr (Some p)) \<longrightarrow> answers c0 (lt_config s) (asks t) p)"

lemma Lookup_search_result:
  assumes "Lookup_search env ty n c = (r, c')"
  shows "cf_vars c' = cf_vars c \<and> cf_data c' = cf_data c \<and> cf_next c' = cf_next c
    \<and> (r = None \<longleftrightarrow> map_of (cf_data c) n = None)
    \<and> (\<forall>p. r = Some (Inr (Some p)) \<longrightarrow> map_of (cf_data c) n = Some p \<and> cv_type (the_var c p) = ty)"
  using assms
  by (cases "map_of (cf_data c) n")
    (auto simp: Lookup_search_def toString_def Let_def simp del: map_of_eq_Some_iff split: if_splits sum.splits prod.splits)

lemma config_ok_frame:
  "config_ok c \<Longrightarrow> cf_vars c' = cf_vars c \<Longrightarrow> cf_data c' = cf_data c \<Longrightarrow> cf_next c' = cf_next c \<Longrightarrow> config_ok c'"
  by (simp add: config_ok_def)

lemma Lookup_enter_result:
  assumes ok: "config_ok c" and enter: "Lookup_enter env ty n v d c = (r, c')"
  shows "config_ok c' \<and> (\<forall>m. m \<noteq> n \<longrightarrow> map_of (cf_data c') m = map_of (cf_data c) m)
    \<and> (\<forall>p x. cf_vars c p = Some x \<longrightarrow> cf_vars c' p = Some x)
    \<and> (\<forall>p. r = Inr (Some p) \<longrightarrow> (\<exists>x. cf_vars c' p = Some x \<and> cv_type x = ty \<and> cv_name x = n))"
proof (cases "only_chars name_chars n")
  case True
  have "cf_vars c (cf_next c) = None" using ok by (auto simp: config_ok_def)
  with enter True config_ok_enter [OF ok True, of ty v d] show ?thesis
    by (auto simp: Lookup_enter_def new_ConfigVar_def)
next
  case False
  with enter ok show ?thesis by (auto simp: Lookup_enter_def)
qed

lemma answers_keep:
  "answers c0 c rq p \<Longrightarrow> \<forall>q x. cf_vars c q = Some x \<longrightarrow> cf_vars c' q = Some x \<Longrightarrow> answers c0 c' rq p"
  by (auto simp: answers_def)

lemma lookup_inv_step:
  assumes inv: "lookup_inv c0 asks s" and step: "lookup_step env asks s s'"
  shows "lookup_inv c0 asks s'"
proof -
  let ?c = "lt_config s"
  have ok: "config_ok ?c" and kept: "\<And>n q. map_of (cf_data c0) n = Some q \<Longrightarrow> map_of (cf_data ?c) n = Some q"
    and entering: "\<And>t. lt_pc s t = Entering \<Longrightarrow> map_of (cf_data c0) (rq_name (asks t)) = None"
    and returned: "\<And>t p. lt_pc s t = Returned (Inr (Some p)) \<Longrightarrow> answers c0 ?c (asks t) p"
    using inv unfolding lookup_inv_def by blast+
  show ?thesis
    using step
  proof cases
    case (found t r c)
    note res = Lookup_search_result [OF found(3)]
    have "answers c0 c (asks t) p" if "r = Inr (Some p)" for p
    proof -
      have p: "map_of (cf_data ?c) (rq_name (asks t)) = Some p" "cv_type (the_var ?c p) = rq_type (asks t)"
        using res that by blast+
      then show ?thesis
        using config_ok_name [OF ok p(1)] res kept by (fastforce simp: answers_def the_var_def simp del: map_of_eq_Some_iff)
    qed
    moreover have "answers c0 c (asks u) p" if "lt_pc s u = Returned (Inr (Some p))" for u p
      by (rule answers_keep [OF returned [OF that]]) (use res in simp)
    ultimately show ?thesis
      using found(1) config_ok_frame [OF ok] kept entering res
      by (simp add: lookup_inv_def del: map_of_eq_Some_iff)
  next
    case (missed t c)
    note res = Lookup_search_result [OF missed(3)]
    have "map_of (cf_data c0) (rq_name (asks t)) = None" using res kept by (metis option.exhaust option.distinct(1))
    moreover have "answers c0 c (asks u) p" if "lt_pc s u = Returned (Inr (Some p))" for u p
      by (rule answers_keep [OF returned [OF that]]) (use res in simp)
    ultimately show ?thesis
      using missed(1) config_ok_frame [OF ok] kept entering res
      by (simp add: lookup_inv_def del: map_of_eq_Some_iff)
  next
    case (enter t r c)
    note res = Lookup_enter_result [OF ok enter(3)]
    have none: "map_of (cf_data c0) (rq_name (asks t)) = None" by (rule entering [OF enter(2)])
    have "answers c0 c (asks t) p" if "r = Inr (Some p)" for p
      using res that none by (simp add: answers_def del: map_of_eq_Some_iff)
    moreover have "answers c0 c (asks u) p" if "lt_pc s u = Returned (Inr (Some p))" for u p
      by (rule answers_keep [OF returned [OF that]]) (use res in blast)
    moreover have "map_of (cf_data c) n = Some q" if "map_of (cf_data c0) n = Some q" for n q
      using res kept [OF that] none that by (metis option.distinct(1))
    ultimately show ?thesis
      using enter(1) entering res by (simp add: lookup_inv_def del: map_of_eq_Some_iff)
  qed
qed

text \<open>In every interleaving of threads that look up variables, each call that returns a variable returns
  one of the type and the name it asked for, and the one that was registered under the name before the
  threads began, if there was one. A variable that is registered stays registered.\<close>

theorem lookups_answer:
  assumes "config_ok c0" and "lookup_start c0 s0" and "(lookup_step env asks)\<^sup>*\<^sup>* s0 s"
  shows "config_ok (lt_config s)
    \<and> (lt_pc s t = Returned (Inr (Some p)) \<longrightarrow> answers c0 (lt_config s) (asks t) p)
    \<and> (map_of (cf_data c0) n = Some q \<longrightarrow> map_of (cf_data (lt_config s)) n = Some q)"
proof -
  have "lookup_inv c0 asks s0" using assms(1,2) by (auto simp: lookup_inv_def elim!: lookup_start.cases)
  from assms(3) this have "lookup_inv c0 asks s"
    by (induction rule: rtranclp_induct) (auto intro: lookup_inv_step)
  then show ?thesis unfolding lookup_inv_def by blast
qed

section \<open>Two calls at once\<close>

text \<open>C40. Two threads that look up the same new name at the same time can get two variables: both search
  before either enters, and the one that enters later replaces the other's entry. The first thread
  keeps a variable that no name stands for, so loading a document never sets it.\<close>

theorem racing_lookups_differ:
  assumes ok: "config_ok c0" and name: "map_of (cf_data c0) n = None" "only_chars name_chars n"
    and asks: "\<forall>t :: bool. rq_name (asks t) = n" and start: "lookup_start c0 s0"
  shows "\<exists>s p q. (lookup_step env asks)\<^sup>*\<^sup>* s0 s \<and> p \<noteq> q
    \<and> lt_pc s True = Returned (Inr (Some p)) \<and> lt_pc s False = Returned (Inr (Some q))
    \<and> LookupBase n (lt_config s) = Some q \<and> (\<forall>m. LookupBase m (lt_config s) \<noteq> Some p)"
proof -
  let ?enter = "\<lambda>t c. snd (Lookup_enter env (rq_type (asks t)) n (rq_value (asks t)) (rq_description (asks t)) c)"
  let ?p = "cf_next c0" and ?c1 = "?enter True c0" and ?c2 = "?enter False (?enter True c0)"
  let ?s = "\<lambda>c x y. \<lparr>lt_config = c, lt_pc = (\<lambda>t. if t then x else y)\<rparr>"
  have s0: "s0 = ?s c0 Searching Searching" using start by (auto elim: lookup_start.cases)
  have search: "Lookup_search env ty n c0 = (None, c0)" for ty by (simp add: Lookup_search_def name(1))
  have enter: "Lookup_enter env ty n v d c = (Inr (Some (cf_next c)), snd (Lookup_enter env ty n v d c))" for ty v d and c :: "('a, 'b) config"
    by (simp add: Lookup_enter_def name(2))
  have upd: "(\<lambda>t. if t then p else q)(True := x) = (\<lambda>t. if t then x else q)"
    "(\<lambda>t. if t then p else q)(False := x) = (\<lambda>t. if t then p else x)"
    "(\<lambda>t. q)(True := x) = (\<lambda>t. if t then x else q)" for p q x :: lookup_pc
    by auto
  have 1: "lookup_step env asks (?s c0 Searching Searching) (?s c0 Entering Searching)"
    using lookup_step.missed [of "?s c0 Searching Searching" True env asks c0] asks search by (simp add: upd cong: if_cong)
  have 2: "lookup_step env asks (?s c0 Entering Searching) (?s c0 Entering Entering)"
    using lookup_step.missed [of "?s c0 Entering Searching" False env asks c0] asks search by (simp add: upd cong: if_cong)
  have 3: "lookup_step env asks (?s c0 Entering Entering) (?s ?c1 (Returned (Inr (Some ?p))) Entering)"
    using lookup_step.enter [of "?s c0 Entering Entering" True env asks "Inr (Some ?p)" ?c1] asks enter
    by (simp add: upd cong: if_cong)
  have 4: "lookup_step env asks (?s ?c1 (Returned (Inr (Some ?p))) Entering)
      (?s ?c2 (Returned (Inr (Some ?p))) (Returned (Inr (Some (cf_next ?c1)))))"
    using lookup_step.enter [of "?s ?c1 (Returned (Inr (Some ?p))) Entering" False env asks "Inr (Some (cf_next ?c1))" ?c2] asks enter
    by (simp add: upd cong: if_cong)
  have run: "(lookup_step env asks)\<^sup>*\<^sup>* s0 (?s ?c2 (Returned (Inr (Some ?p))) (Returned (Inr (Some (cf_next ?c1)))))"
    unfolding s0 by (rule converse_rtranclp_into_rtranclp, rule 1, rule converse_rtranclp_into_rtranclp, rule 2,
      rule converse_rtranclp_into_rtranclp, rule 3, rule r_into_rtranclp, rule 4)
  have "?p \<noteq> cf_next ?c1" "LookupBase n ?c2 = Some (cf_next ?c1)"
    using name(2) by (simp_all add: Lookup_enter_def LookupBase_def)
  moreover have "LookupBase m ?c2 \<noteq> Some ?p" for m
  proof
    assume "LookupBase m ?c2 = Some ?p"
    then have "map_of (cf_data c0) m = Some ?p"
      using name(2) by (auto simp: Lookup_enter_def LookupBase_def split: if_splits)
    from config_ok_name [OF ok this] have "cf_vars c0 ?p \<noteq> None" by auto
    then have "?p < ?p" using ok unfolding config_ok_def by blast
    then show False by simp
  qed
  ultimately show ?thesis using run by (intro exI [of _ ?p] exI [of _ "cf_next ?c1"]
      exI [of _ "?s ?c2 (Returned (Inr (Some ?p))) (Returned (Inr (Some (cf_next ?c1))))"]) simp
qed

section \<open>Witnesses\<close>

definition both_ask :: "bool \<Rightarrow> string request" where
  "both_ask t = \<lparr>rq_type = ''string'', rq_name = ''host'', rq_value = ''a'', rq_description = []\<rparr>"

theorem racing_lookups_differ_witness:
  "\<exists>s. (lookup_step example_cfg both_ask)\<^sup>*\<^sup>* \<lparr>lt_config = example_config, lt_pc = (\<lambda>_. Searching)\<rparr> s
    \<and> lt_pc s True \<noteq> lt_pc s False \<and> LookupBase ''host'' (lt_config s) \<noteq> None"
proof -
  have n: "map_of (cf_data example_config) ''host'' = None" "only_chars name_chars ''host''" "\<forall>t. rq_name (both_ask t) = ''host''"
    by (simp_all add: only_chars_def name_chars_def both_ask_def)
  from racing_lookups_differ [OF example_ok n lookup_start.intros, of example_cfg] show ?thesis by force
qed

theorem lookups_answer_witness:
  "map_of (cf_data (lt_config \<lparr>lt_config = example_config, lt_pc = (\<lambda>_ :: bool. Searching)\<rparr>)) ''port'' = Some 0"
  using lookups_answer [OF example_ok lookup_start.intros rtranclp.rtrancl_refl, where asks = both_ask and n = "''port''" and q = 0] by simp

end
