(* ===== verification/Console_Threads.thy ===== *)
theory Console_Threads
  imports Logger_Examples Locks
begin

text \<open>
  Several threads that write to the standard output through \<open>StdoutLogAppender::log\<close>: its level check,
  its spin lock, and the three insertions into \<open>std::cout\<close>, which another thread can come between.
  With one appender the console is what some sequence of whole calls leaves; with two it is not.
\<close>

section \<open>The calls and their steps\<close>

text \<open>
  A thread is between two calls, or it has the lock of an appender and some insertions left.
\<close>

datatype print_pc = Idle | Printing ref "string list"

type_synonym print_call = "ref \<times> level \<times> log_event"

record 't printing =
  pr_world :: log_world
  pr_locks :: "ref \<Rightarrow> pthread_spinlock"
  pr_pc :: "'t \<Rightarrow> print_pc"
  pr_todo :: "'t \<Rightarrow> print_call list"

definition insertions :: "log_env \<Rightarrow> formatter \<Rightarrow> level \<Rightarrow> log_event \<Rightarrow> string list" where
  "insertions env f lev event = [GetColorMap lev, formatter_format (strftime env) f lev event, CHR 0x1B # ''[0m'']"

inductive print_step :: "log_env \<Rightarrow> 't printing \<Rightarrow> 't printing \<Rightarrow> bool" for env where
  skip: "pr_pc s t = Idle \<Longrightarrow> pr_todo s t = (a, lev, event) # rest \<Longrightarrow> \<not> lev \<ge> ap_level (the_appender (pr_world s) a) \<Longrightarrow>
    print_step env s (s\<lparr>pr_todo := (pr_todo s)(t := rest)\<rparr>)"
| enter: "pr_pc s t = Idle \<Longrightarrow> pr_todo s t = (a, lev, event) # rest \<Longrightarrow> lev \<ge> ap_level (the_appender (pr_world s) a) \<Longrightarrow>
    Spinlock_lock (pr_locks s a) = Some m \<Longrightarrow> ap_formatter (the_appender (pr_world s) a) = Some f \<Longrightarrow>
    print_step env s (s\<lparr>pr_locks := (pr_locks s)(a := m),
      pr_pc := (pr_pc s)(t := Printing a (insertions env f lev event)), pr_todo := (pr_todo s)(t := rest)\<rparr>)"
| insert: "pr_pc s t = Printing a (str # strs) \<Longrightarrow>
    print_step env s (s\<lparr>pr_world := cout str (pr_world s), pr_pc := (pr_pc s)(t := Printing a strs)\<rparr>)"
| leave: "pr_pc s t = Printing a [] \<Longrightarrow>
    print_step env s (s\<lparr>pr_locks := (pr_locks s)(a := Spinlock_unlock (pr_locks s a)), pr_pc := (pr_pc s)(t := Idle)\<rparr>)"

inductive print_start :: "log_world \<Rightarrow> ('t \<Rightarrow> print_call list) \<Rightarrow> 't printing \<Rightarrow> bool" for w calls where
  "print_start w calls \<lparr>pr_world = w, pr_locks = (\<lambda>_. Spinlock), pr_pc = (\<lambda>_. Idle), pr_todo = calls\<rparr>"

text \<open>The same calls one after the other.\<close>

definition print_all :: "log_env \<Rightarrow> ('t \<times> print_call) list \<Rightarrow> (log_world, unit) eff" where
  "print_all env cs = efor (\<lambda>(t, a, lev, event). stdout_log env a lev event) cs"

definition of_thread :: "'t \<Rightarrow> ('t \<times> 'c) list \<Rightarrow> 'c list" where
  "of_thread t cs = map snd (filter (\<lambda>c. fst c = t) cs)"

lemma of_thread_simps [simp]:
  "of_thread t [] = []" "of_thread t (cs @ [(u, c)]) = of_thread t cs @ (if u = t then [c] else [])"
  by (simp_all add: of_thread_def)

lemma cout_cout: "cout s2 (cout s1 w) = cout (s1 @ s2) w"
  by (simp add: cout_def)

section \<open>One appender\<close>

text \<open>
  The calls that have taken the lock, or were skipped, in that order, leave what the console is once
  the thread that has the lock has made its last insertions.
\<close>

definition print_inv :: "log_env \<Rightarrow> ref \<Rightarrow> log_world \<Rightarrow> ('t \<Rightarrow> print_call list) \<Rightarrow> 't printing \<Rightarrow> bool" where
  "print_inv env a w calls s \<longleftrightarrow>
     the_appender (pr_world s) a = the_appender w a
     \<and> (\<exists>cs out. (\<forall>t. calls t = of_thread t cs @ pr_todo s t) \<and> print_all env cs w = (Inr (), out)
         \<and> (if ps_locked (pr_locks s a)
            then \<exists>t strs. pr_pc s t = Printing a strs \<and> (\<forall>u. u \<noteq> t \<longrightarrow> pr_pc s u = Idle)
                   \<and> out = cout (concat strs) (pr_world s)
            else (\<forall>t. pr_pc s t = Idle) \<and> out = pr_world s))"

lemma print_inv_start: "print_start w calls s \<Longrightarrow> print_inv env a w calls s"
  by (auto simp: print_inv_def print_all_def Spinlock_def elim!: print_start.cases intro!: exI [of _ "[]"])

lemma print_inv_step:
  assumes inv: "print_inv env a w calls s" and step: "print_step env s s'"
    and one: "\<forall>t. \<forall>(b, lev, event) \<in> set (calls t). b = a"
  shows "print_inv env a w calls s'"
proof -
  obtain cs out where same: "the_appender (pr_world s) a = the_appender w a" and cs: "\<forall>t. calls t = of_thread t cs @ pr_todo s t"
    and out: "print_all env cs w = (Inr (), out)"
    and pcs: "if ps_locked (pr_locks s a)
       then \<exists>t strs. pr_pc s t = Printing a strs \<and> (\<forall>u. u \<noteq> t \<longrightarrow> pr_pc s u = Idle) \<and> out = cout (concat strs) (pr_world s)
       else (\<forall>t. pr_pc s t = Idle) \<and> out = pr_world s"
    using inv unfolding print_inv_def by blast
  have todo: "b = a" if "pr_todo s t = (b, lev, event) # rest" for t b lev event rest
  proof -
    have "(b, lev, event) \<in> set (calls t)" using cs [rule_format, of t] that by simp
    then show ?thesis using one by blast
  qed
  have same_out: "the_appender out a = the_appender w a"
    using pcs same by (auto split: if_splits)
  have next_call: "print_all env (cs @ [(t, a, lev, event)]) w = stdout_log env a lev event out" for t lev event
    using out by (simp add: print_all_def efor_append ebind_def split: prod.split sum.split)
  show ?thesis
    using step
  proof cases
    case (skip t b lev event rest)
    with todo have b: "b = a" by blast
    then have "print_all env (cs @ [(t, a, lev, event)]) w = (Inr (), out)"
      using skip(4) same same_out by (simp add: next_call stdout_log_def)
    with cs pcs same skip b show ?thesis
      unfolding print_inv_def by (intro conjI exI [of _ "cs @ [(t, a, lev, event)]"] exI [of _ out]) auto
  next
    case (enter t b lev event rest m f)
    with todo have b: "b = a" by blast
    with enter(5) have free: "\<not> ps_locked (pr_locks s a)" and m: "ps_locked m"
      by (auto simp: Spinlock_lock_def split: if_splits)
    with pcs have idle: "\<forall>t. pr_pc s t = Idle" and o: "out = pr_world s" by auto
    have "print_all env (cs @ [(t, a, lev, event)]) w = (Inr (), cout (concat (insertions env f lev event)) (pr_world s))"
      using enter(4,6) b by (simp add: next_call stdout_log_def o insertions_def Let_def)
    with cs same enter b m idle show ?thesis
      unfolding print_inv_def
      by (intro conjI exI [of _ "cs @ [(t, a, lev, event)]"] exI [of _ "cout (concat (insertions env f lev event)) (pr_world s)"])
        auto
  next
    case (insert t b str strs)
    have locked: "ps_locked (pr_locks s a)" using pcs insert(2) by (auto split: if_splits)
    with pcs obtain u us where u: "pr_pc s u = Printing a us" "\<forall>v. v \<noteq> u \<longrightarrow> pr_pc s v = Idle"
      "out = cout (concat us) (pr_world s)" by auto
    have "t = u" using u(2) insert(2) by (cases "t = u") auto
    with u(1) insert(2) have "b = a" "us = str # strs" by simp_all
    with \<open>t = u\<close> cs same out locked u insert show ?thesis
      unfolding print_inv_def by (intro conjI exI [of _ cs] exI [of _ out]) (auto simp: cout_cout)
  next
    case (leave t b)
    have locked: "ps_locked (pr_locks s a)" using pcs leave(2) by (auto split: if_splits)
    with pcs obtain u us where u: "pr_pc s u = Printing a us" "\<forall>v. v \<noteq> u \<longrightarrow> pr_pc s v = Idle"
      "out = cout (concat us) (pr_world s)" by auto
    have "t = u" using u(2) leave(2) by (cases "t = u") auto
    with u(1) leave(2) have "b = a" "us = []" by simp_all
    with \<open>t = u\<close> cs same out u leave show ?thesis
      unfolding print_inv_def by (intro conjI exI [of _ cs] exI [of _ out]) (auto simp: Spinlock_unlock_def cout_def)
  qed
qed

lemma print_progress:
  assumes inv: "print_inv env a w calls s" and one: "\<forall>t. \<forall>(b, lev, event) \<in> set (calls t). b = a"
    and f: "ap_formatter (the_appender w a) \<noteq> None" and more: "pr_todo s t \<noteq> [] \<or> pr_pc s t \<noteq> Idle"
  shows "\<exists>s'. print_step env s s'"
proof (cases "\<exists>u. pr_pc s u \<noteq> Idle")
  case True
  then obtain u b strs where "pr_pc s u = Printing b strs" using print_pc.exhaust by blast
  then show ?thesis by (cases strs) (blast intro: print_step.insert print_step.leave)+
next
  case False
  with more obtain b lev event rest where todo: "pr_todo s t = (b, lev, event) # rest" by (cases "pr_todo s t") auto
  obtain cs out where cs: "\<forall>t. calls t = of_thread t cs @ pr_todo s t" "the_appender (pr_world s) a = the_appender w a"
    "ps_locked (pr_locks s a) \<longrightarrow> (\<exists>t strs. pr_pc s t = Printing a strs)"
    using inv unfolding print_inv_def by (auto split: if_splits)
  have "(b, lev, event) \<in> set (calls t)" using cs(1) [rule_format, of t] todo by simp
  then have b: "b = a" using one by blast
  have pc: "pr_pc s t = Idle" using False by blast
  have "\<not> ps_locked (pr_locks s a)" using False cs(3) by fastforce
  then have m: "Spinlock_lock (pr_locks s a) = Some ((pr_locks s a)\<lparr>ps_locked := True\<rparr>)" by (simp add: Spinlock_lock_def)
  obtain g where "ap_formatter (the_appender (pr_world s) a) = Some g" using f cs(2) by auto
  with pc todo m show ?thesis unfolding b
    by (cases "lev \<ge> ap_level (the_appender (pr_world s) a)") (blast intro: print_step.enter print_step.skip)+
qed

text \<open>C18. Records that threads write through one appender are never torn. In every interleaving there is an
  order of the calls made so far, each thread's own calls in the order it makes them, such that the
  console is what those calls, made one after the other without threads, leave on it, except for the
  end of the record that is being written; when no thread is inside a call it is exactly that. As long
  as a thread has calls left, some thread can go on.\<close>

theorem one_appender_is_sequential:
  assumes start: "print_start w calls s0" and run: "(print_step env)\<^sup>*\<^sup>* s0 s"
    and one: "\<forall>t. \<forall>(b, lev, event) \<in> set (calls t). b = a" and f: "ap_formatter (the_appender w a) \<noteq> None"
  shows "(\<exists>cs out. (\<forall>t. calls t = of_thread t cs @ pr_todo s t) \<and> print_all env cs w = (Inr (), out)
       \<and> (\<exists>rest. out = cout rest (pr_world s)) \<and> ((\<forall>t. pr_pc s t = Idle) \<longrightarrow> out = pr_world s))
    \<and> ((\<forall>t. pr_todo s t = [] \<and> pr_pc s t = Idle) \<or> (\<exists>s'. print_step env s s'))"
proof -
  have inv: "print_inv env a w calls s"
    using run print_inv_start [OF start] by (induction rule: rtranclp_induct) (auto intro: print_inv_step [OF _ _ one])
  have nothing: "pr_world s = cout [] (pr_world s)" by (simp add: cout_def)
  from inv obtain cs out where cs: "\<forall>t. calls t = of_thread t cs @ pr_todo s t" "print_all env cs w = (Inr (), out)"
    and pcs: "if ps_locked (pr_locks s a)
       then \<exists>t strs. pr_pc s t = Printing a strs \<and> (\<forall>u. u \<noteq> t \<longrightarrow> pr_pc s u = Idle) \<and> out = cout (concat strs) (pr_world s)
       else (\<forall>t. pr_pc s t = Idle) \<and> out = pr_world s"
    unfolding print_inv_def by blast
  have "(\<exists>rest. out = cout rest (pr_world s)) \<and> ((\<forall>t. pr_pc s t = Idle) \<longrightarrow> out = pr_world s)"
  proof (cases "ps_locked (pr_locks s a)")
    case True
    with pcs show ?thesis by fastforce
  next
    case False
    with pcs nothing show ?thesis by (intro conjI exI [of _ "[]"]) simp_all
  qed
  with cs print_progress [OF inv one f] show ?thesis by blast
qed

section \<open>Two appenders\<close>

text \<open>Every appender has its own lock, but there is one \<open>std::cout\<close>: when two threads write through two
  appenders (the one of the root logger and one that the configuration gave to another logger), the
  records can be torn apart, here the second colour between the first colour and its text.\<close>

theorem two_appenders_tear_records:
  assumes ab: "a \<noteq> b" and f: "ap_formatter (the_appender w a) = Some f" "ap_formatter (the_appender w b) = Some g"
    and lev: "l1 \<ge> ap_level (the_appender w a)" "l2 \<ge> ap_level (the_appender w b)"
    and start: "print_start w (\<lambda>t. if t then [(a, l1, e1)] else [(b, l2, e2)]) s0"
  shows "\<exists>s. (print_step env)\<^sup>*\<^sup>* s0 s \<and> (\<forall>t. pr_todo s t = [] \<and> pr_pc s t = Idle)
    \<and> pr_world s = cout (GetColorMap l1 @ GetColorMap l2 @ formatter_format (strftime env) f l1 e1
         @ formatter_format (strftime env) g l2 e2 @ CHR 0x1B # ''[0m'' @ CHR 0x1B # ''[0m'') w"
proof -
  let ?i1 = "insertions env f l1 e1" and ?i2 = "insertions env g l2 e2" and ?m = "Spinlock\<lparr>ps_locked := True\<rparr>"
  let ?s = "\<lambda>str x y rest1 rest2. \<lparr>pr_world = cout str w, pr_locks = (\<lambda>_. Spinlock)(a := fst x, b := fst y),
      pr_pc = (\<lambda>t. if t then snd x else snd y), pr_todo = (\<lambda>t. if t then rest1 else rest2)\<rparr>"
  let ?I = "\<lambda>strs. (?m, Printing a strs)" and ?J = "\<lambda>strs. (?m, Printing b strs)" and ?N = "(Spinlock, Idle)"
  let ?step = "print_step env"
  have s0: "s0 = ?s [] ?N ?N [(a, l1, e1)] [(b, l2, e2)]"
    using start by (auto simp: cout_def fun_eq_iff elim!: print_start.cases)
  have lock: "Spinlock_lock Spinlock = Some ?m" "Spinlock_unlock ?m = Spinlock"
    by (simp_all add: Spinlock_lock_def Spinlock_unlock_def Spinlock_def)
  have upd: "(\<lambda>t. if t then p else q)(True := x) = (\<lambda>t. if t then x else q)"
    "(\<lambda>t. if t then p else q)(False := x) = (\<lambda>t. if t then p else x)"
    "(\<lambda>t. q)(True := x) = (\<lambda>t. if t then x else q)" "(\<lambda>t. p)(False := x) = (\<lambda>t. if t then p else x)" for p q x :: 'z
    by auto
  note simps = upd lock ab ab [symmetric] fun_upd_twist [OF ab] cout_cout f lev
  have e1: "?step (?s [] ?N ?N [(a, l1, e1)] r) (?s [] (?I ?i1) ?N [] r)" for r
    using print_step.enter [where s = "?s [] ?N ?N [(a, l1, e1)] r" and t = True and a = a and lev = l1 and event = e1
        and rest = "[]" and env = env and m = ?m and f = f] by (simp add: simps cong: if_cong)
  have e2: "?step (?s [] x ?N [] [(b, l2, e2)]) (?s [] x (?J ?i2) [] [])" for x
    using print_step.enter [where s = "?s [] x ?N [] [(b, l2, e2)]" and t = False and a = b and lev = l2 and event = e2
        and rest = "[]" and env = env and m = ?m and f = g] by (simp add: simps cong: if_cong)
  have i1: "?step (?s out (?I (str # strs)) y [] []) (?s (out @ str) (?I strs) y [] [])" for out str strs y
    using print_step.insert [where s = "?s out (?I (str # strs)) y [] []" and t = True and a = a and str = str and strs = strs and env = env] by (simp add: simps cong: if_cong)
  have i2: "?step (?s out x (?J (str # strs)) [] []) (?s (out @ str) x (?J strs) [] [])" for out str strs x
    using print_step.insert [where s = "?s out x (?J (str # strs)) [] []" and t = False and a = b and str = str and strs = strs and env = env] by (simp add: simps cong: if_cong)
  have l1: "?step (?s out (?I []) y [] []) (?s out ?N y [] [])" for out y
    using print_step.leave [where s = "?s out (?I []) y [] []" and t = True and a = a and env = env] by (simp add: simps cong: if_cong)
  have l2: "?step (?s out ?N (?J []) [] []) (?s out ?N ?N [] [])" for out
    using print_step.leave [where s = "?s out ?N (?J []) [] []" and t = False and a = b and env = env] by (simp add: simps cong: if_cong)
  note next_step = converse_rtranclp_into_rtranclp [where r = ?step]
  let ?out = "((((([] @ GetColorMap l1) @ GetColorMap l2) @ formatter_format (strftime env) f l1 e1)
      @ formatter_format (strftime env) g l2 e2) @ CHR 0x1B # ''[0m'') @ CHR 0x1B # ''[0m''"
  have run: "?step\<^sup>*\<^sup>* s0 (?s ?out ?N ?N [] [])"
    unfolding s0
    by (rule next_step, rule e1, rule next_step, rule e2, unfold insertions_def, rule next_step, rule i1,
      rule next_step, rule i2, rule next_step, rule i1, rule next_step, rule i2, rule next_step, rule i1,
      rule next_step, rule i2, rule next_step, rule l1, rule next_step, rule l2, rule rtranclp.rtrancl_refl)
  show ?thesis by (rule exI [of _ "?s ?out ?N ?N [] []"], intro conjI, rule run) simp_all
qed

section \<open>Witnesses\<close>

definition two_calls :: "bool \<Rightarrow> print_call list" where
  "two_calls t = (if t then [(1, WARN, example_event)] else [(1, ERROR, example_event)])"

theorem one_appender_is_sequential_witness:
  "\<exists>s'. print_step example_env
     \<lparr>pr_world = manager_world, pr_locks = (\<lambda>_. Spinlock), pr_pc = (\<lambda>_. Idle), pr_todo = two_calls\<rparr> s'"
proof -
  have one: "\<forall>t. \<forall>(b, lev, event) \<in> set (two_calls t). b = 1" by (simp add: two_calls_def)
  have "two_calls t \<noteq> []" for t by (simp add: two_calls_def)
  with one_appender_is_sequential [OF print_start.intros rtranclp.rtrancl_refl one, of manager_world example_env]
  show ?thesis by simp
qed

text \<open>The appender of the root logger and a second one, both with the formatter \<open>x\<close>.\<close>

definition two_appenders :: log_world where
  "two_appenders = put_appender 1 ((new_StdoutLogAppender DEBUG)\<lparr>ap_formatter := Some (LogFormatter ''x'')\<rparr>)
     (put_appender 2 ((new_StdoutLogAppender DEBUG)\<lparr>ap_formatter := Some (LogFormatter ''x'')\<rparr>) empty_log_world)"

theorem two_appenders_tear_records_witness:
  "\<exists>s. (print_step example_env)\<^sup>*\<^sup>*
      \<lparr>pr_world = two_appenders, pr_locks = (\<lambda>_. Spinlock), pr_pc = (\<lambda>_. Idle),
       pr_todo = (\<lambda>t. if t then [(1, WARN, example_event)] else [(2, ERROR, example_event)])\<rparr> s
    \<and> w_cout (pr_world s) = CHR 0x1B # ''[33m'' @ CHR 0x1B # ''[31mxx'' @ CHR 0x1B # ''[0m'' @ CHR 0x1B # ''[0m''"
proof -
  have w: "the_appender two_appenders a = (new_StdoutLogAppender DEBUG)\<lparr>ap_formatter := Some (LogFormatter ''x'')\<rparr>"
    if "a = 1 \<or> a = 2" for a
    using that by (auto simp: two_appenders_def the_appender_def put_appender_def)
  have prems: "1 \<noteq> (2 :: ref)" "ap_formatter (the_appender two_appenders 1) = Some (LogFormatter ''x'')"
    "ap_formatter (the_appender two_appenders 2) = Some (LogFormatter ''x'')"
    "WARN \<ge> ap_level (the_appender two_appenders 1)" "ERROR \<ge> ap_level (the_appender two_appenders 2)"
    by (simp_all add: w new_StdoutLogAppender_def less_eq_level_def)
  from two_appenders_tear_records [OF prems print_start.intros, of example_env example_event example_event]
  obtain s where "(print_step example_env)\<^sup>*\<^sup>*
      \<lparr>pr_world = two_appenders, pr_locks = (\<lambda>_. Spinlock), pr_pc = (\<lambda>_. Idle),
       pr_todo = (\<lambda>t. if t then [(1, WARN, example_event)] else [(2, ERROR, example_event)])\<rparr> s"
    "pr_world s = cout (CHR 0x1B # ''[33m'' @ CHR 0x1B # ''[31mxx'' @ CHR 0x1B # ''[0m'' @ CHR 0x1B # ''[0m'') two_appenders"
    by (auto simp: format_x)
  moreover have "w_cout (cout str two_appenders) = str" for str
    unfolding cout_def log_world.simps two_appenders_def put_appender_def empty_log_world_def by simp
  ultimately show ?thesis by (intro exI [of _ s]) (simp only: simp_thms)
qed

end
