(* ===== verification/Coroutine_Threads.thy ===== *)
theory Coroutine_Threads
  imports Coroutine_Refinement
begin

text \<open>
  Coroutines in a program with many threads: the objects, their contexts and the counters are shared,
  every thread has its own \<open>t_coroutine\<close>, \<open>t_threadCoroutine\<close>, scheduler coroutine and running stack. A
  coroutine that one thread suspended can be continued by another.
\<close>

section \<open>State\<close>

record tls =
  l_coroutine :: "addr option"
  l_threadCoroutine :: "addr option"
  l_main :: "addr option"
  l_running :: stack

text \<open>The thread-local fields of \<open>p_shared\<close> mean nothing; \<open>view k\<close> is the machine as thread \<open>k\<close> sees it.\<close>

record 'task program =
  p_shared :: "'task cmachine"
  p_tls :: "int \<Rightarrow> tls"

definition view :: "int \<Rightarrow> 'task program \<Rightarrow> 'task cmachine" where
  "view k P = (p_shared P)\<lparr>t_coroutine := l_coroutine (p_tls P k), t_threadCoroutine := l_threadCoroutine (p_tls P k),
     t_main := l_main (p_tls P k), running := l_running (p_tls P k)\<rparr>"

definition update_view :: "int \<Rightarrow> 'task cmachine \<Rightarrow> 'task program \<Rightarrow> 'task program" where
  "update_view k m P = \<lparr>p_shared = m, p_tls = (p_tls P)(k :=
     \<lparr>l_coroutine = t_coroutine m, l_threadCoroutine = t_threadCoroutine m, l_main = t_main m, l_running = running m\<rparr>)\<rparr>"

definition owns :: "'task program \<Rightarrow> int \<Rightarrow> addr \<Rightarrow> bool" where
  "owns P k a \<longleftrightarrow> l_main (p_tls P k) = Some a \<or> l_threadCoroutine (p_tls P k) = Some a"

text \<open>A coroutine with a task: neither a thread's own nor a scheduler's root coroutine.\<close>

definition is_task :: "'task program \<Rightarrow> addr \<Rightarrow> bool" where
  "is_task P a \<longleftrightarrow> corts (p_shared P) a \<noteq> None \<and> (\<forall>k. \<not> owns P k a)"

section \<open>Steps\<close>

abbreviation no_tls :: tls where
  "no_tls \<equiv> \<lparr>l_coroutine = None, l_threadCoroutine = None, l_main = None, l_running = Native\<rparr>"

definition begin_worker :: "int \<Rightarrow> addr \<Rightarrow> 'task program \<Rightarrow> 'task program" where
  "begin_worker k tc P = update_view k ((snd (GetCurrent tc (view k P)))\<lparr>t_main := Some tc\<rparr>) P"

definition begin_root :: "32 word \<Rightarrow> int \<Rightarrow> addr \<Rightarrow> addr \<Rightarrow> 'task \<Rightarrow> 'task program \<Rightarrow> 'task program" where
  "begin_root dflt k tc rc run P = update_view k (snd (call_cort rc
     ((new_cort dflt rc (Some run) 0 True (snd (GetCurrent tc (view k P))))\<lparr>t_main := Some rc\<rparr>))) P"

text \<open>What \<open>Scheduler::run\<close> and the tasks do on thread \<open>k\<close>, see \<open>allowed\<close>; only tasks are switched into.\<close>

definition allowed_at :: "int \<Rightarrow> 'task cort_op \<Rightarrow> 'task program \<Rightarrow> bool" where
  "allowed_at k x P \<longleftrightarrow> l_main (p_tls P k) \<noteq> None \<and> allowed x (view k P)
     \<and> (case x of SwapIn a \<Rightarrow> is_task P a | Reset a cb \<Rightarrow> is_task P a | Destroy a \<Rightarrow> is_task P a | _ \<Rightarrow> True)"

text \<open>A worker thread begins \<open>run\<close>; the caller's thread constructs a scheduler and calls its root coroutine;
  a thread performs an operation.\<close>

inductive program_step :: "32 word \<Rightarrow> 'task program \<Rightarrow> 'task program \<Rightarrow> bool" for dflt where
  worker: "l_main (p_tls P k) = None \<Longrightarrow> corts (p_shared P) tc = None \<Longrightarrow>
    program_step dflt P (begin_worker k tc P)"
| root: "l_main (p_tls P k) = None \<Longrightarrow> corts (p_shared P) tc = None \<Longrightarrow> corts (p_shared P) rc = None \<Longrightarrow> tc \<noteq> rc \<Longrightarrow>
    program_step dflt P (begin_root dflt k tc rc run P)"
| op: "allowed_at k x P \<Longrightarrow> run_op dflt x (view k P) = (r, m) \<Longrightarrow> program_step dflt P (update_view k m P)"

inductive program_start :: "'task program \<Rightarrow> bool" where
  "program_start \<lparr>p_shared = empty_machine,
     p_tls = (\<lambda>_. no_tls)\<rparr>"

section \<open>The invariant\<close>

text \<open>A thread that has begun: its own objects exist, its scheduler coroutine is in state \<open>EXEC\<close>, and either
  that runs or a task does and the scheduler coroutine waits in its context.\<close>

definition thread_ok :: "'task program \<Rightarrow> int \<Rightarrow> addr \<Rightarrow> addr \<Rightarrow> bool" where
  "thread_ok P k mc cur \<longleftrightarrow> l_main (p_tls P k) = Some mc \<and> l_coroutine (p_tls P k) = Some cur
     \<and> (\<forall>a. owns P k a \<longrightarrow> corts (p_shared P) a \<noteq> None) \<and> c_state (cget (p_shared P) mc) = EXEC
     \<and> (cur = mc \<and> l_running (p_tls P k) = main_stack (view k P)
        \<or> is_task P cur \<and> l_running (p_tls P k) = Stack cur \<and> ctxs (p_shared P) mc = Resume (main_stack (view k P)))"

definition task_ok :: "'task program \<Rightarrow> addr \<Rightarrow> bool" where
  "task_ok P a \<longleftrightarrow> c_stack (cget (p_shared P) a)
     \<and> (c_state (cget (p_shared P) a) = EXEC \<longleftrightarrow> (\<exists>k. l_coroutine (p_tls P k) = Some a))
     \<and> context_ok a (c_state (cget (p_shared P) a)) (ctxs (p_shared P) a) (entered (p_shared P) a)"

definition program_inv :: "'task program \<Rightarrow> bool" where
  "program_inv P \<longleftrightarrow>
     (\<forall>k. if l_main (p_tls P k) = None then p_tls P k = no_tls
          else \<exists>mc cur. thread_ok P k mc cur)
     \<and> (\<forall>j k a. owns P j a \<and> owns P k a \<longrightarrow> j = k)
     \<and> (\<forall>j k a. l_coroutine (p_tls P j) = Some a \<and> l_coroutine (p_tls P k) = Some a \<longrightarrow> j = k)
     \<and> (\<forall>a. is_task P a \<longrightarrow> task_ok P a)"

lemma program_invD:
  assumes "program_inv P"
  shows "l_coroutine (p_tls P k) = Some a \<Longrightarrow> \<exists>mc. thread_ok P k mc a" "l_main (p_tls P k) = Some mc \<Longrightarrow> \<exists>cur. thread_ok P k mc cur"
    "owns P j a \<Longrightarrow> owns P k a \<Longrightarrow> j = k"
    "l_coroutine (p_tls P j) = Some a \<Longrightarrow> l_coroutine (p_tls P k) = Some a \<Longrightarrow> j = k" "is_task P a \<Longrightarrow> task_ok P a"
proof -
  have t: "if l_main (p_tls P k) = None then p_tls P k = no_tls
      else \<exists>mc cur. thread_ok P k mc cur" using assms unfolding program_inv_def by blast
  show "l_coroutine (p_tls P k) = Some a \<Longrightarrow> \<exists>mc. thread_ok P k mc a"
    "l_main (p_tls P k) = Some mc \<Longrightarrow> \<exists>cur. thread_ok P k mc cur"
    using t by (auto simp: thread_ok_def split: if_splits)
qed (use assms in \<open>unfold program_inv_def, blast+\<close>)

lemma program_inv_start: "program_start P \<Longrightarrow> program_inv P"
  by (auto simp: program_inv_def owns_def is_task_def empty_machine_def elim!: program_start.cases)

section \<open>What a thread sees of the coroutines\<close>

text \<open>The coroutines with tasks, the same for all threads, and the one that runs on thread \<open>k\<close>.\<close>

definition tasks :: "'task program \<Rightarrow> addr \<Rightarrow> (cort_state \<times> 'task option) option" where
  "tasks P a = (if is_task P a then Some (c_state (cget (p_shared P) a), c_cb (cget (p_shared P) a)) else None)"

definition task_at :: "int \<Rightarrow> 'task program \<Rightarrow> addr option" where
  "task_at k P = (if l_coroutine (p_tls P k) = l_main (p_tls P k) then None else l_coroutine (p_tls P k))"

abbreviation spec_at :: "int \<Rightarrow> 'task program \<Rightarrow> 'task spec" where
  "spec_at k P \<equiv> (tasks P, task_at k P)"

text \<open>The other threads keep their pointers and stacks, and thread \<open>k\<close> keeps its own coroutines.\<close>

definition only_thread :: "int \<Rightarrow> 'task program \<Rightarrow> 'task program \<Rightarrow> bool" where
  "only_thread k P P' \<longleftrightarrow> (\<forall>j. j \<noteq> k \<longrightarrow> p_tls P' j = p_tls P j) \<and> l_main (p_tls P' k) = l_main (p_tls P k)"

section \<open>The operations by what they change\<close>

lemma view_simps [simp]:
  "corts (view k P) = corts (p_shared P)" "ctxs (view k P) = ctxs (p_shared P)" "entered (view k P) = entered (p_shared P)"
  "t_coroutine (view k P) = l_coroutine (p_tls P k)" "t_main (view k P) = l_main (p_tls P k)"
  "t_threadCoroutine (view k P) = l_threadCoroutine (p_tls P k)" "running (view k P) = l_running (p_tls P k)"
  "cget (view k P) a = cget (p_shared P) a" "getState (view k P) a = c_state (cget (p_shared P) a)"
  "s_coroutine_count (view k P) = s_coroutine_count (p_shared P)"
  by (simp_all add: view_def cget_def getState_def)

lemma update_view_simps [simp]:
  "p_shared (update_view k m P) = m"
  "p_tls (update_view k m P) j = (if j = k then \<lparr>l_coroutine = t_coroutine m, l_threadCoroutine = t_threadCoroutine m,
     l_main = t_main m, l_running = running m\<rparr> else p_tls P j)"
  by (simp_all add: update_view_def)

lemma main_stack_view:
  "main_stack (view k P) = (case l_main (p_tls P k) of None \<Rightarrow> Native
     | Some mc \<Rightarrow> if c_stack (cget (p_shared P) mc) then Stack mc else Native)"
  by (simp add: main_stack_def split: option.split)

lemma tasks_update:
  assumes "t_main m = l_main (p_tls P k)" "t_threadCoroutine m = l_threadCoroutine (p_tls P k)"
    and "corts m = (corts (p_shared P))(a := c)" and "\<forall>j. \<not> owns P j a"
  shows "tasks (update_view k m P) = (tasks P)(a := map_option (\<lambda>c. (c_state c, c_cb c)) c)"
proof
  fix b
  have owns: "owns (update_view k m P) j = owns P j" for j using assms(1,2) by (simp add: owns_def fun_eq_iff)
  show "tasks (update_view k m P) b = ((tasks P)(a := map_option (\<lambda>c. (c_state c, c_cb c)) c)) b"
    using assms(3,4) by (cases "b = a") (auto simp: tasks_def is_task_def owns cget_def)
qed

lemma only_thread_update: "t_main m = l_main (p_tls P k) \<Longrightarrow> only_thread k P (update_view k m P)"
  by (simp add: only_thread_def)

text \<open>How an operation by which a task leaves changes the coroutine.\<close>

fun left :: "'task cort_op \<Rightarrow> 'task option \<Rightarrow> cort_state \<times> 'task option" where
  "left Yields cb = (READY, cb)"
| "left Sleeps cb = (HOLD, cb)"
| "left (Finishes returned) cb = (if returned \<and> cb \<noteq> None then (TERMINATED, None) else (EXCEPT, cb))"
| "left _ cb = (INIT, cb)"

lemma left_simps:
  assumes "x = Yields \<or> x = Sleeps \<or> (\<exists>b. x = Finishes b)"
  shows "fst (left x cb) \<noteq> EXEC" "spec_op x (sts, Some c) = (sts(c \<mapsto> left x (snd (the (sts c)))), None)"
  using assms by (auto split: if_splits)

lemma swapIn_effect:
  assumes "t_main m = Some mc" and "corts m a = Some c" and "a \<noteq> mc" and "c_state c \<noteq> EXEC"
    and "ctxs m a = Start MainFunc a \<or> ctxs m a = Resume (Stack a) \<and> entered m a = Some MainFunc"
  shows "swapIn a m = (Inr (), m\<lparr>t_coroutine := Some a, corts := (corts m)(a \<mapsto> c\<lparr>c_state := EXEC\<rparr>),
    ctxs := (ctxs m)(mc := Resume (running m)), running := Stack a, entered := (entered m)(a \<mapsto> MainFunc)\<rparr>)"
  using assms by (auto simp: op_defs getState_def cget_def Let_def fun_upd_idem)

lemma suspend_effect:
  assumes "t_main m = Some mc" and "t_coroutine m = Some cur" and "corts m cur = Some c" and "cur \<noteq> mc"
    and "ctxs m mc = Resume s" and "entered m cur = Some MainFunc" and "running m = Stack cur"
    and "x = Yields \<or> x = Sleeps \<or> (\<exists>b. x = Finishes b)"
  shows "\<exists>c' save. run_op dflt x m = (Inr (), m\<lparr>t_coroutine := Some mc, corts := (corts m)(cur \<mapsto> c'),
      ctxs := (ctxs m)(cur := save), running := s\<rparr>)
    \<and> c_stack c' = c_stack c \<and> (c_state c', c_cb c') = left x (c_cb c) \<and> context_ok cur (c_state c') save (Some MainFunc)"
  using assms(8)
proof (elim disjE exE)
  assume "x = Yields"
  with assms(1-7) show ?thesis
    by (intro exI [of _ "c\<lparr>c_state := READY\<rparr>"] exI [of _ "Resume (Stack cur)"]) (simp add: op_defs cget_def Let_def)
next
  assume "x = Sleeps"
  with assms(1-7) show ?thesis
    by (intro exI [of _ "c\<lparr>c_state := HOLD\<rparr>"] exI [of _ "Resume (Stack cur)"]) (simp add: op_defs cget_def Let_def)
next
  fix b
  assume "x = Finishes b"
  with assms(1-7) show ?thesis
    by (intro exI [of _ "if b \<and> c_cb c \<noteq> None then c\<lparr>c_cb := None, c_state := TERMINATED\<rparr> else c\<lparr>c_state := EXCEPT\<rparr>"]
        exI [of _ "Finished cur"], cases "b \<and> c_cb c \<noteq> None") (auto simp: op_defs cget_def Let_def)
qed

section \<open>One object changes\<close>

lemma thread_frame:
  assumes "thread_ok P j mc cur" and "p_tls P' j = p_tls P j" and "\<forall>a. owns P j a \<longrightarrow> corts (p_shared P') a = corts (p_shared P) a"
    and "ctxs (p_shared P') mc = ctxs (p_shared P) mc" and "is_task P cur \<longrightarrow> is_task P' cur"
  shows "thread_ok P' j mc cur"
proof -
  have "owns P' j = owns P j" using assms(2) by (simp add: owns_def fun_eq_iff)
  moreover have "owns P j mc" using assms(1) by (simp add: thread_ok_def owns_def)
  then have "cget (p_shared P') mc = cget (p_shared P) mc" using assms(3) by (simp add: cget_def)
  moreover from this assms(1,2) have "main_stack (view j P') = main_stack (view j P)"
    by (simp add: main_stack_view thread_ok_def)
  ultimately show ?thesis using assms by (auto simp: thread_ok_def)
qed

text \<open>Thread \<open>k\<close> changes one object \<open>a\<close>, which no thread owns, and the context of its own scheduler
  coroutine; no other thread is running \<open>a\<close>.\<close>

lemma program_inv_local:
  assumes inv: "program_inv P" and k: "thread_ok P k mc cur"
    and own: "t_main m = l_main (p_tls P k)" "t_threadCoroutine m = l_threadCoroutine (p_tls P k)"
    and frame: "\<forall>b. b \<noteq> a \<longrightarrow> corts m b = corts (p_shared P) b \<and> entered m b = entered (p_shared P) b
       \<and> (b \<noteq> mc \<longrightarrow> ctxs m b = ctxs (p_shared P) b)"
    and a: "\<forall>j. \<not> owns P j a" "\<forall>j. j \<noteq> k \<longrightarrow> l_coroutine (p_tls P j) \<noteq> Some a"
    and k': "thread_ok (update_view k m P) k mc cur'" and task: "is_task (update_view k m P) a \<longrightarrow> task_ok (update_view k m P) a"
    and cur: "t_coroutine m = Some cur'" "cur' = cur \<or> {cur, cur'} \<subseteq> {a, mc}"
  shows "program_inv (update_view k m P)"
proof -
  let ?P = "update_view k m P"
  have owns: "owns ?P j = owns P j" for j using own by (simp add: owns_def fun_eq_iff)
  note distinct = program_invD(3) [OF inv] and curs = program_invD(4) [OF inv] and tasks = program_invD(5) [OF inv]
  have mc: "owns P k mc" "l_coroutine (p_tls P k) = Some cur" "l_main (p_tls P k) = Some mc"
    using k by (simp_all add: thread_ok_def owns_def)
  then have mc_a: "mc \<noteq> a" using a(1) by blast
  have same: "corts m b = corts (p_shared P) b" if "owns P j b" for j b
    using frame a(1) that by (cases "b = a") auto
  have is_task: "is_task ?P b \<longleftrightarrow> is_task P b" if "b \<noteq> a" for b
    using frame that by (auto simp: is_task_def owns)
  have other: "thread_ok ?P j mj cj" if "j \<noteq> k" "thread_ok P j mj cj" for j mj cj
  proof (rule thread_frame [OF that(2)])
    have mj: "owns P j mj" using that(2) by (simp add: thread_ok_def owns_def)
    then have "mj \<noteq> mc" "mj \<noteq> a" using distinct mc(1) that(1) a(1) by blast+
    then show "ctxs (p_shared ?P) mj = ctxs (p_shared P) mj" using frame by simp
    have "cj \<noteq> a" using a(2) that by (auto simp: thread_ok_def)
    then show "is_task P cj \<longrightarrow> is_task ?P cj" using is_task by blast
  qed (use that(1) same in auto)
  have t1: "if l_main (p_tls ?P j) = None
      then p_tls ?P j = no_tls
      else \<exists>mj cj. thread_ok ?P j mj cj" for j
  proof (cases "j = k")
    case True
    then show ?thesis using k' own mc(3) by auto
  next
    case False
    have "if l_main (p_tls P j) = None
      then p_tls P j = no_tls
      else \<exists>mj cj. thread_ok P j mj cj" using inv unfolding program_inv_def by blast
    with False other [OF False] show ?thesis by (auto split: if_splits)
  qed
  have mc_only: "l_coroutine (p_tls P j) = Some mc \<Longrightarrow> j = k" for j
  proof (rule ccontr)
    assume j: "l_coroutine (p_tls P j) = Some mc" "j \<noteq> k"
    obtain mj where "thread_ok P j mj mc" using program_invD(1) [OF inv j(1)] by blast
    then have "owns P j mc" using mc(1) by (auto simp: thread_ok_def is_task_def owns_def)
    with distinct mc(1) j(2) show False by blast
  qed
  have t3: "i = j" if "l_coroutine (p_tls ?P i) = Some b" "l_coroutine (p_tls ?P j) = Some b" for i j b
  proof (cases "cur' = cur")
    case True
    then have "l_coroutine (p_tls ?P j) = l_coroutine (p_tls P j)" for j using cur(1) mc(2) by simp
    with that curs show ?thesis by simp
  next
    case False
    with that curs cur a(2) mc_only show ?thesis by (auto split: if_splits)
  qed
  have t4: "task_ok ?P b" if "is_task ?P b" for b
  proof (cases "b = a")
    case False
    then have b: "task_ok P b" "b \<noteq> mc" using that is_task tasks mc(1) by (auto simp: is_task_def)
    have "l_coroutine (p_tls ?P j) = Some b \<longleftrightarrow> l_coroutine (p_tls P j) = Some b" for j
      using cur mc(2) False b(2) by (cases "cur' = cur") auto
    with b False frame show ?thesis by (simp only: task_ok_def cget_def update_view_simps(1) simp_thms)
  qed (use that task in blast)
  have t2: "i = j" if "owns ?P i b" "owns ?P j b" for i j b using that distinct by (simp add: owns)
  show ?thesis unfolding program_inv_def by (intro conjI allI impI t1) (blast intro: t2 t3 t4)+
qed

section \<open>Every operation succeeds and keeps the invariant\<close>

lemma started_thread:
  assumes "program_inv P" and "allowed_at k x P"
  obtains mc cur where "thread_ok P k mc cur"
proof -
  obtain mc where "l_main (p_tls P k) = Some mc" using assms(2) by (auto simp: allowed_at_def)
  from program_invD(2) [OF assms(1) this] that show thesis by blast
qed

lemma running_main:
  assumes "thread_ok P k mc cur"
  shows "l_running (p_tls P k) = main_stack (view k P) \<longleftrightarrow> cur = mc"
  using assms by (auto simp: thread_ok_def main_stack_view is_task_def owns_def split: if_splits)

lemma create_ok:
  fixes dflt :: "32 word"
  assumes inv: "program_inv P" and al: "allowed_at k (Create a cb sz) P"
  defines "P' \<equiv> update_view k (new_cort dflt a cb sz False (view k P)) P"
  shows "program_inv P' \<and> spec_at k P' = spec_op (Create a cb sz) (spec_at k P) \<and> only_thread k P P'"
proof -
  obtain mc cur where k: "thread_ok P k mc cur" using started_thread [OF inv al] .
  have new: "corts (p_shared P) a = None" using al by (simp add: allowed_at_def)
  have none: "\<not> owns P j a" for j
  proof
    assume o: "owns P j a"
    then have "l_main (p_tls P j) \<noteq> None"
      using inv by (auto simp: program_inv_def owns_def split: if_splits dest!: spec [of _ j])
    then obtain mj cj where "thread_ok P j mj cj" using program_invD(2) [OF inv] by blast
    with o new show False by (auto simp: thread_ok_def)
  qed
  have cur: "l_coroutine (p_tls P j) \<noteq> Some a" for j
    using program_invD(1) [OF inv, of j a] none new by (auto simp: thread_ok_def is_task_def owns_def)
  let ?m = "new_cort dflt a cb sz False (view k P)"
  have mc: "mc \<noteq> a" "cur \<noteq> a" using k none cur by (auto simp: thread_ok_def owns_def)
  have "program_inv (update_view k ?m P)"
  proof (rule program_inv_local [OF inv k, where a = a and cur' = cur])
    show "thread_ok (update_view k ?m P) k mc cur"
      by (rule thread_frame [OF k]) (use k mc none in \<open>auto simp: new_cort_def is_task_def owns_def thread_ok_def\<close>)
    show "is_task (update_view k ?m P) a \<longrightarrow> task_ok (update_view k ?m P) a"
      using cur by (auto simp: task_ok_def new_cort_def cget_def)
  qed (use none cur mc k in \<open>auto simp: new_cort_def thread_ok_def\<close>)
  moreover have "tasks (update_view k ?m P) = (tasks P)(a \<mapsto> (INIT, cb))"
    by (subst tasks_update [where a = a and c = "corts ?m a"]) (use none in \<open>simp_all add: new_cort_def\<close>)
  then have "spec_at k (update_view k ?m P) = spec_op (Create a cb sz) (spec_at k P)"
    by (simp add: task_at_def) (simp add: new_cort_def)
  moreover have "only_thread k P (update_view k ?m P)" by (rule only_thread_update) (simp add: new_cort_def)
  ultimately show ?thesis unfolding P'_def by blast
qed

text \<open>Switching into a task, from the scheduler coroutine of thread \<open>k\<close>.\<close>

lemma swapIn_ok:
  assumes inv: "program_inv P" and al: "allowed_at k (SwapIn a) P"
  shows "\<exists>m. swapIn a (view k P) = (Inr (), m) \<and> program_inv (update_view k m P)
    \<and> spec_at k (update_view k m P) = spec_op (SwapIn a) (spec_at k P) \<and> only_thread k P (update_view k m P)"
proof -
  obtain mc cur where k: "thread_ok P k mc cur" using started_thread [OF inv al] .
  have a: "is_task P a" "c_state (cget (p_shared P) a) \<in> {INIT, READY, HOLD}" "cur = mc"
    using al running_main [OF k] by (auto simp: allowed_at_def)
  have ok: "task_ok P a" by (rule program_invD(5) [OF inv a(1)])
  obtain c where c: "corts (p_shared P) a = Some c" "cget (p_shared P) a = c" using a(1) by (auto simp: is_task_def cget_def)
  have mc: "l_main (p_tls P k) = Some mc" "a \<noteq> mc" using k a(1) by (auto simp: thread_ok_def is_task_def owns_def)
  have ctx: "ctxs (p_shared P) a = Start MainFunc a \<or> ctxs (p_shared P) a = Resume (Stack a) \<and> entered (p_shared P) a = Some MainFunc"
    using ok a(2) by (auto simp: task_ok_def)
  let ?m = "(view k P)\<lparr>t_coroutine := Some a, corts := (corts (p_shared P))(a \<mapsto> c\<lparr>c_state := EXEC\<rparr>),
    ctxs := (ctxs (p_shared P))(mc := Resume (l_running (p_tls P k))), running := Stack a,
    entered := (entered (p_shared P))(a \<mapsto> MainFunc)\<rparr>"
  have run: "swapIn a (view k P) = (Inr (), ?m)"
    using swapIn_effect [of "view k P" mc a c] mc c a(2) ctx by auto
  have nobody: "l_coroutine (p_tls P j) \<noteq> Some a" for j using ok a(2) by (auto simp: task_ok_def)
  have "program_inv (update_view k ?m P)"
  proof (rule program_inv_local [OF inv k, where a = a and cur' = a])
    show "thread_ok (update_view k ?m P) k mc a"
      using k a c mc by (auto simp: thread_ok_def main_stack_view is_task_def owns_def cget_def)
    show "is_task (update_view k ?m P) a \<longrightarrow> task_ok (update_view k ?m P) a"
      using ok c by (auto simp: task_ok_def cget_def)
  qed (use a nobody mc in \<open>auto simp: is_task_def\<close>)
  moreover have "tasks (update_view k ?m P) = (tasks P)(a \<mapsto> (EXEC, c_cb c))"
    by (subst tasks_update [where a = a and c = "Some (c\<lparr>c_state := EXEC\<rparr>)"]) (use mc a(1) in \<open>simp_all add: is_task_def\<close>)
  then have "spec_at k (update_view k ?m P) = spec_op (SwapIn a) (spec_at k P)"
    using mc a(1) c by (simp add: task_at_def tasks_def)
  ultimately show ?thesis using run mc only_thread_update [of ?m P k] by simp
qed

text \<open>Suspending or ending the task that runs on thread \<open>k\<close>: back to this thread's scheduler coroutine,
  whichever thread the task ran on before.\<close>

lemma suspend_ok:
  assumes inv: "program_inv P" and al: "allowed_at k x P" and x: "x = Yields \<or> x = Sleeps \<or> (\<exists>b. x = Finishes b)"
  shows "\<exists>m. run_op dflt x (view k P) = (Inr (), m) \<and> program_inv (update_view k m P)
    \<and> spec_at k (update_view k m P) = spec_op x (spec_at k P) \<and> only_thread k P (update_view k m P)
    \<and> t_coroutine m = l_main (p_tls P k) \<and> running m = main_stack (view k P)"
proof -
  obtain mc cur where k: "thread_ok P k mc cur" using started_thread [OF inv al] .
  have "l_running (p_tls P k) \<noteq> main_stack (view k P)" using al x by (auto simp: allowed_at_def)
  then have cur: "cur \<noteq> mc" "is_task P cur" "l_running (p_tls P k) = Stack cur" "ctxs (p_shared P) mc = Resume (main_stack (view k P))"
    using k running_main [OF k] by (auto simp: thread_ok_def)
  have ok: "task_ok P cur" by (rule program_invD(5) [OF inv cur(2)])
  have l: "l_main (p_tls P k) = Some mc" "l_coroutine (p_tls P k) = Some cur" using k by (simp_all add: thread_ok_def)
  obtain c where c: "corts (p_shared P) cur = Some c" "cget (p_shared P) cur = c" using cur(2) by (auto simp: is_task_def cget_def)
  have exec: "c_state c = EXEC" using ok l(2) c(2) by (auto simp: task_ok_def)
  then have entered: "entered (p_shared P) cur = Some MainFunc" using ok c(2) by (simp add: task_ok_def)
  obtain c' save where run: "run_op dflt x (view k P) = (Inr (), (view k P)\<lparr>t_coroutine := Some mc,
      corts := (corts (p_shared P))(cur \<mapsto> c'), ctxs := (ctxs (p_shared P))(cur := save), running := main_stack (view k P)\<rparr>)"
    and c': "c_stack c' = c_stack c" "(c_state c', c_cb c') = left x (c_cb c)" "context_ok cur (c_state c') save (Some MainFunc)"
    using suspend_effect [of "view k P" mc cur c "main_stack (view k P)" x dflt] l cur c(1) entered x by (auto simp del: left.simps)
  have c'': "c_state c' \<noteq> EXEC" using left_simps(1) [OF x, of "c_cb c"] c'(2) [symmetric] by simp
  let ?m = "(view k P)\<lparr>t_coroutine := Some mc, corts := (corts (p_shared P))(cur \<mapsto> c'),
      ctxs := (ctxs (p_shared P))(cur := save), running := main_stack (view k P)\<rparr>"
  have other: "l_coroutine (p_tls P j) \<noteq> Some cur" if "j \<noteq> k" for j using program_invD(4) [OF inv _ l(2), of j] that by blast
  have "program_inv (update_view k ?m P)"
  proof (rule program_inv_local [OF inv k, where a = cur and cur' = mc])
    show "thread_ok (update_view k ?m P) k mc mc"
      using k cur c l by (auto simp: thread_ok_def main_stack_view is_task_def owns_def cget_def)
    show "is_task (update_view k ?m P) cur \<longrightarrow> task_ok (update_view k ?m P) cur"
      using ok c c'(1,3) c'' entered other cur(1) by (auto simp: task_ok_def cget_def)
  qed (use cur other l in \<open>auto simp: is_task_def\<close>)
  moreover have "tasks (update_view k ?m P) = (tasks P)(cur \<mapsto> left x (c_cb c))"
    by (subst tasks_update [where a = cur and c = "Some c'"]) (use l cur(2) c'(2) in \<open>simp_all add: is_task_def\<close>)
  then have "spec_at k (update_view k ?m P) = spec_op x (spec_at k P)"
    using l cur c left_simps(2) [OF x] by (simp add: task_at_def tasks_def)
  ultimately show ?thesis using run l only_thread_update [of ?m P k] by simp
qed

lemma reset_ok:
  assumes inv: "program_inv P" and al: "allowed_at k (Reset a cb) P"
  shows "\<exists>m. reset_cort a cb (view k P) = (Inr (), m) \<and> program_inv (update_view k m P)
    \<and> spec_at k (update_view k m P) = spec_op (Reset a cb) (spec_at k P) \<and> only_thread k P (update_view k m P)"
proof -
  obtain mc cur where k: "thread_ok P k mc cur" using started_thread [OF inv al] .
  have a: "is_task P a" "c_state (cget (p_shared P) a) \<in> {INIT, TERMINATED, EXCEPT}" using al by (auto simp: allowed_at_def)
  have ok: "task_ok P a" by (rule program_invD(5) [OF inv a(1)])
  obtain c where c: "corts (p_shared P) a = Some c" "cget (p_shared P) a = c" using a(1) by (auto simp: is_task_def cget_def)
  have nobody: "l_coroutine (p_tls P j) \<noteq> Some a" for j using ok a(2) by (auto simp: task_ok_def)
  have mc: "mc \<noteq> a" "cur \<noteq> a" using k a(1) nobody by (auto simp: thread_ok_def is_task_def owns_def)
  let ?m = "(view k P)\<lparr>corts := (corts (p_shared P))(a \<mapsto> c\<lparr>c_cb := cb, c_state := INIT\<rparr>), ctxs := (ctxs (p_shared P))(a := Start MainFunc a)\<rparr>"
  have st: "c_stack c" "c_state c = INIT \<or> c_state c = TERMINATED \<or> c_state c = EXCEPT"
    using ok a(2) c(2) by (simp_all add: task_ok_def)
  then have run: "reset_cort a cb (view k P) = (Inr (), ?m)"
    by (simp add: reset_cort_def cupd_def Let_def c disj_assoc del: view_simps(9))
  have "program_inv (update_view k ?m P)"
  proof (rule program_inv_local [OF inv k, where a = a and cur' = cur])
    show "thread_ok (update_view k ?m P) k mc cur"
      by (rule thread_frame [OF k]) (use k mc a(1) in \<open>auto simp: is_task_def owns_def thread_ok_def\<close>)
    show "is_task (update_view k ?m P) a \<longrightarrow> task_ok (update_view k ?m P) a"
      using ok c nobody by (auto simp: task_ok_def cget_def)
  qed (use a nobody k in \<open>auto simp: is_task_def thread_ok_def\<close>)
  moreover have "tasks (update_view k ?m P) = (tasks P)(a := Some (INIT, cb))"
    by (subst tasks_update [where a = a and c = "Some (c\<lparr>c_cb := cb, c_state := INIT\<rparr>)"]) (use a(1) in \<open>simp_all add: is_task_def\<close>)
  then have "spec_at k (update_view k ?m P) = spec_op (Reset a cb) (spec_at k P)" by (simp add: task_at_def)
  ultimately show ?thesis using run only_thread_update [of ?m P k] by auto
qed

lemma destroy_ok:
  assumes inv: "program_inv P" and al: "allowed_at k (Destroy a) P"
  shows "\<exists>m. delete_cort a (view k P) = (Inr (), m) \<and> program_inv (update_view k m P)
    \<and> spec_at k (update_view k m P) = spec_op (Destroy a) (spec_at k P) \<and> only_thread k P (update_view k m P)"
proof -
  obtain mc cur where k: "thread_ok P k mc cur" using started_thread [OF inv al] .
  have a: "is_task P a" "c_state (cget (p_shared P) a) \<in> {INIT, TERMINATED, EXCEPT}" using al by (auto simp: allowed_at_def)
  have ok: "task_ok P a" by (rule program_invD(5) [OF inv a(1)])
  have nobody: "l_coroutine (p_tls P j) \<noteq> Some a" for j using ok a(2) by (auto simp: task_ok_def)
  have mc: "mc \<noteq> a" "cur \<noteq> a" using k a(1) nobody by (auto simp: thread_ok_def is_task_def owns_def)
  let ?m = "(view k P)\<lparr>s_coroutine_count := s_coroutine_count (p_shared P) - 1, corts := (corts (p_shared P))(a := None),
    ctxs := (ctxs (p_shared P))(a := Unset)\<rparr>"
  have st: "c_stack (cget (p_shared P) a)" using ok by (simp add: task_ok_def)
  moreover have "c_state (cget (p_shared P) a) = TERMINATED \<or> c_state (cget (p_shared P) a) = INIT \<or> c_state (cget (p_shared P) a) = EXCEPT"
    using a(2) by auto
  ultimately have run: "delete_cort a (view k P) = (Inr (), ?m)"
    by (simp add: delete_cort_def Let_def)
  have "program_inv (update_view k ?m P)"
  proof (rule program_inv_local [OF inv k, where a = a and cur' = cur])
    show "thread_ok (update_view k ?m P) k mc cur"
      by (rule thread_frame [OF k]) (use k mc a(1) in \<open>auto simp: is_task_def owns_def thread_ok_def\<close>)
  qed (use a nobody k in \<open>auto simp: is_task_def thread_ok_def\<close>)
  moreover have "tasks (update_view k ?m P) = (tasks P)(a := None)"
    by (subst tasks_update [where a = a and c = "None"]) (use a(1) in \<open>simp_all add: is_task_def\<close>)
  then have "spec_at k (update_view k ?m P) = spec_op (Destroy a) (spec_at k P)" by (simp add: task_at_def)
  ultimately show ?thesis using run only_thread_update [of ?m P k] by auto
qed


lemma op_ok:
  assumes inv: "program_inv P" and al: "allowed_at k x P"
  shows "\<exists>m. run_op dflt x (view k P) = (Inr (), m) \<and> program_inv (update_view k m P)
    \<and> spec_at k (update_view k m P) = spec_op x (spec_at k P) \<and> only_thread k P (update_view k m P)"
proof (cases x)
  case (Create a cb sz)
  with create_ok [OF inv, of k a cb sz dflt] al show ?thesis by simp
next
  case (SwapIn a)
  with swapIn_ok [OF inv, of k a] al show ?thesis by auto
next
  case (Reset a cb)
  with reset_ok [OF inv, of k a cb] al show ?thesis by simp
next
  case (Destroy a)
  with destroy_ok [OF inv, of k a] al show ?thesis by simp
qed (use suspend_ok [OF inv al, of dflt] in auto)

section \<open>A thread begins\<close>

lemma program_inv_begin:
  assumes inv: "program_inv P" and idle: "l_main (p_tls P k) = None"
    and new: "\<forall>a \<in> A. corts (p_shared P) a = None"
    and frame: "\<forall>a. a \<notin> A \<longrightarrow> corts m a = corts (p_shared P) a \<and> entered m a = entered (p_shared P) a
       \<and> ctxs m a = ctxs (p_shared P) a"
    and k: "thread_ok (update_view k m P) k mc mc" and mine: "\<forall>a. owns (update_view k m P) k a \<longleftrightarrow> a \<in> A"
  shows "program_inv (update_view k m P)"
proof -
  let ?P = "update_view k m P"
  have tls: "if l_main (p_tls P j) = None
      then p_tls P j = no_tls
      else \<exists>mj cj. thread_ok P j mj cj" for j using inv unfolding program_inv_def by blast
  have exists: "corts (p_shared P) a \<noteq> None" if "owns P j a" for j a
    using tls [of j] that by (auto simp: owns_def thread_ok_def split: if_splits)
  have old: "a \<notin> A" if "owns P j a" for j a using exists [OF that] new by auto
  have cur_old: "a \<notin> A" if "l_coroutine (p_tls P j) = Some a" for j a
  proof -
    from program_invD(1) [OF inv that] obtain mj where "thread_ok P j mj a" ..
    then have "corts (p_shared P) a \<noteq> None" by (auto simp: thread_ok_def is_task_def owns_def)
    with new show ?thesis by auto
  qed
  have same: "owns ?P j = owns P j" if "j \<noteq> k" for j using that by (simp add: owns_def fun_eq_iff)
  have none: "\<not> owns P k a" "l_coroutine (p_tls P k) = None" for a using tls [of k] idle by (simp_all add: owns_def)
  have mc: "mc \<in> A" "l_coroutine (p_tls ?P k) = Some mc" "l_main (p_tls ?P k) = Some mc"
    using k mine by (auto simp: thread_ok_def owns_def)
  have task: "is_task ?P a \<longleftrightarrow> is_task P a" for a
  proof (cases "a \<in> A")
    case True
    then show ?thesis using new mine by (auto simp: is_task_def)
  next
    case False
    then have "owns ?P j a \<longleftrightarrow> owns P j a" for j using mine none same by (cases "j = k") auto
    with frame False show ?thesis by (simp add: is_task_def)
  qed
  have other: "thread_ok ?P j mj cj" if "j \<noteq> k" "thread_ok P j mj cj" for j mj cj
  proof (rule thread_frame [OF that(2)])
    have "owns P j mj" using that(2) by (simp add: thread_ok_def owns_def)
    then show "ctxs (p_shared ?P) mj = ctxs (p_shared P) mj" using old frame by simp
  qed (use that(1) task old frame in auto)
  have t1: "if l_main (p_tls ?P j) = None
      then p_tls ?P j = no_tls
      else \<exists>mj cj. thread_ok ?P j mj cj" for j
  proof (cases "j = k")
    case True
    then show ?thesis using k mc(3) by auto
  next
    case False
    with tls [of j] other [OF False] show ?thesis by (auto split: if_splits)
  qed
  have t2: "i = j" if "owns ?P i b" "owns ?P j b" for i j b
  proof (cases "i = k \<or> j = k")
    case True
    then have "b \<in> A" using that mine by blast
    then have "\<not> owns P l b" for l using old by blast
    then show ?thesis using that same by (metis (no_types))
  next
    case False
    with that same program_invD(3) [OF inv, of i b j] show ?thesis by simp
  qed
  have t3: "i = j" if "l_coroutine (p_tls ?P i) = Some b" "l_coroutine (p_tls ?P j) = Some b" for i j b
  proof (cases "i = k \<or> j = k")
    case True
    then have "b = mc" using that mc(2) by auto
    then have "l_coroutine (p_tls P l) \<noteq> Some b" for l using cur_old mc(1) by blast
    then show ?thesis using that by (auto split: if_splits)
  next
    case False
    with that program_invD(4) [OF inv, of i b j] show ?thesis by simp
  qed
  have t4: "task_ok ?P b" if "is_task ?P b" for b
  proof -
    have b: "task_ok P b" "b \<notin> A" using that task program_invD(5) [OF inv] new by (auto simp: is_task_def)
    have "l_coroutine (p_tls ?P j) = Some b \<longleftrightarrow> l_coroutine (p_tls P j) = Some b" for j
      using mc b(2) none by (cases "j = k") auto
    with b frame show ?thesis by (simp only: task_ok_def cget_def update_view_simps(1) simp_thms)
  qed
  show ?thesis unfolding program_inv_def by (intro conjI allI impI t1) (blast intro: t2 t3 t4)+
qed

lemma idle_view:
  assumes "program_inv P" and "l_main (p_tls P k) = None"
  shows "p_tls P k = no_tls"
  using assms unfolding program_inv_def by presburger

lemma begin_worker_ok:
  assumes inv: "program_inv P" and idle: "l_main (p_tls P k) = None" and tc: "corts (p_shared P) tc = None"
  shows "program_inv (begin_worker k tc P)"
  unfolding begin_worker_def
  by (rule program_inv_begin [OF inv idle, where A = "{tc}" and mc = tc])
    (use idle_view [OF inv idle] tc in \<open>auto simp: GetCurrent_def new_main_def SetCurrent_def thread_ok_def owns_def
      main_stack_view cget_def\<close>)

lemma begin_root_ok:
  assumes inv: "program_inv P" and idle: "l_main (p_tls P k) = None"
    and new: "corts (p_shared P) tc = None" "corts (p_shared P) rc = None" "tc \<noteq> rc"
  shows "program_inv (begin_root dflt k tc rc run P)"
  unfolding begin_root_def
  by (rule program_inv_begin [OF inv idle, where A = "{tc, rc}" and mc = rc])
    (use idle_view [OF inv idle] new in \<open>auto simp: op_defs thread_ok_def owns_def getState_def Let_def
      main_stack_view cget_def\<close>)

lemma program_inv_step:
  assumes inv: "program_inv P" and step: "program_step dflt P P'"
  shows "program_inv P'"
  using step
proof cases
  case (worker k tc)
  with begin_worker_ok [OF inv] show ?thesis by simp
next
  case (root k tc rc run)
  with begin_root_ok [OF inv] show ?thesis by simp
next
  case (op k x r m)
  with op_ok [OF inv, of k x dflt] show ?thesis by auto
qed

interpretation program: invariant_system program_start "program_step dflt" program_inv for dflt
  by unfold_locales (auto intro: program_inv_start program_inv_step)

section \<open>Properties\<close>

lemma running_current:
  assumes "program_inv P" and "l_running (p_tls P k) = Stack a"
  shows "l_coroutine (p_tls P k) = Some a"
proof (cases "l_main (p_tls P k)")
  case None
  from idle_view [OF assms(1) this] assms(2) show ?thesis by simp
next
  case (Some mc)
  from program_invD(2) [OF assms(1) this] obtain cur where "thread_ok P k mc cur" ..
  with assms(2) show ?thesis by (auto simp: thread_ok_def main_stack_view split: if_splits)
qed

lemma stacks_distinct:
  assumes "program_inv P" and "l_running (p_tls P i) \<noteq> Native" and "l_running (p_tls P i) = l_running (p_tls P j)"
  shows "i = j"
proof -
  obtain a where "l_running (p_tls P i) = Stack a" using assms(2) by (cases "l_running (p_tls P i)") auto
  then show ?thesis
    using running_current [OF assms(1)] program_invD(4) [OF assms(1), of i a j] assms(3) by simp
qed

text \<open>C13. Every operation that the scheduler and the tasks perform succeeds on every thread, no two threads ever
  run one stack, and a task that is suspended or ends on thread \<open>k\<close> continues this thread's scheduler
  coroutine, whichever thread had entered the task before.\<close>

theorem threads_switch_safely:
  assumes "reach program_start (program_step dflt) P" and "allowed_at k x P"
  shows "\<exists>m. run_op dflt x (view k P) = (Inr (), m)
    \<and> (running m = Native \<or> (\<forall>j. j \<noteq> k \<longrightarrow> l_running (p_tls P j) \<noteq> running m))
    \<and> (x = Yields \<or> x = Sleeps \<or> (\<exists>b. x = Finishes b)
       \<longrightarrow> t_coroutine m = l_main (p_tls P k) \<and> running m = main_stack (view k P))"
proof -
  have inv: "program_inv P" by (rule program.reach_inv [OF assms(1)])
  obtain m where m: "run_op dflt x (view k P) = (Inr (), m)" "program_inv (update_view k m P)"
    using op_ok [OF inv assms(2)] by blast
  have "l_running (p_tls P j) \<noteq> running m" if "running m \<noteq> Native" "j \<noteq> k" for j
    using stacks_distinct [OF m(2), of k j] that by auto
  moreover have "t_coroutine m = l_main (p_tls P k) \<and> running m = main_stack (view k P)"
    if "x = Yields \<or> x = Sleeps \<or> (\<exists>b. x = Finishes b)"
    using suspend_ok [OF inv assms(2) that, of dflt] m(1) by auto
  ultimately show ?thesis using m(1) by blast
qed

text \<open>C12. The threads refine one specification of all coroutines: in every state the program can reach, every
  operation a thread performs succeeds, does to the coroutines' states, to their tasks and to which one
  runs on this thread exactly what the specification says, and changes nothing that runs on another
  thread. So coroutines move between threads without losing their state or their task.\<close>

theorem threads_refine_states:
  assumes "reach program_start (program_step dflt) P" and "allowed_at k x P"
  shows "\<exists>m. run_op dflt x (view k P) = (Inr (), m)
    \<and> spec_at k (update_view k m P) = spec_op x (spec_at k P)
    \<and> (\<forall>j. j \<noteq> k \<longrightarrow> task_at j (update_view k m P) = task_at j P)"
proof -
  have inv: "program_inv P" by (rule program.reach_inv [OF assms(1)])
  from op_ok [OF inv assms(2), of dflt] show ?thesis by (auto simp: only_thread_def task_at_def)
qed

text \<open>Thread 0 creates coroutine 7 and enters it, the task yields; thread 1 continues it.\<close>

fun run_at :: "(int \<times> 'task cort_op) list \<Rightarrow> 'task program \<Rightarrow> 'task program" where
  "run_at [] P = P"
| "run_at ((k, x) # xs) P = run_at xs (update_view k (snd (run_op 1024 x (view k P))) P)"

fun all_allowed :: "(int \<times> 'task cort_op) list \<Rightarrow> 'task program \<Rightarrow> bool" where
  "all_allowed [] P \<longleftrightarrow> True"
| "all_allowed ((k, x) # xs) P \<longleftrightarrow> allowed_at k x P
     \<and> all_allowed xs (update_view k (snd (run_op 1024 x (view k P))) P)"

definition two_workers :: "unit program" where
  "two_workers = begin_worker 1 2 (begin_worker 0 1 \<lparr>p_shared = empty_machine, p_tls = (\<lambda>_. no_tls)\<rparr>)"

lemma run_at_reach:
  "reach program_start (program_step 1024) P \<Longrightarrow> all_allowed xs P
   \<Longrightarrow> reach program_start (program_step 1024) (run_at xs P)"
proof (induction xs arbitrary: P)
  case (Cons y xs)
  obtain k x where y: "y = (k, x)" by (cases y)
  then have "program_step 1024 P (update_view k (snd (run_op 1024 x (view k P))) P)"
    using Cons.prems(2) by (intro program_step.op [where r = "fst (run_op 1024 x (view k P))"]) simp_all
  from reach_step [OF Cons.prems(1) this] Cons.IH Cons.prems(2) y show ?case by simp
qed simp

lemma worker_reach:
  assumes "reach program_start (program_step dflt) P" and "l_main (p_tls P k) = None" and "corts (p_shared P) tc = None"
  shows "reach program_start (program_step dflt) (begin_worker k tc P)"
  by (rule reach_step [where s = P, OF assms(1)], rule program_step.worker [OF assms(2,3)])

lemma two_workers_reach: "reach program_start (program_step 1024) two_workers"
  unfolding two_workers_def
  by (rule worker_reach, rule worker_reach, rule reach_init, rule program_start.intros)
    (simp_all add: begin_worker_def op_defs empty_machine_def)

lemmas run_example = two_workers_def begin_worker_def empty_machine_def allowed_at_def is_task_def owns_def op_defs
  main_stack_view managed_def cget_def getState_def Let_def

lemma migration_allowed:
  "all_allowed [(0, Create 7 (Some ()) 0), (0, SwapIn 7), (0, Yields), (1, SwapIn 7), (1, Yields)] two_workers"
  by (simp add: run_example)

theorem threads_switch_safely_witness:
  "\<exists>m. run_op 1024 Yields (view 1 (run_at [(0, Create 7 (Some ()) 0), (0, SwapIn 7), (0, Yields), (1, SwapIn 7)] two_workers))
      = (Inr (), m) \<and> t_coroutine m = Some 2 \<and> running m = Native"
proof -
  let ?xs = "[(0, Create 7 (Some ()) 0), (0, SwapIn 7), (0, Yields), (1, SwapIn 7)]"
  let ?P = "run_at ?xs two_workers"
  have "all_allowed ?xs two_workers" and al: "allowed_at 1 Yields ?P" using migration_allowed by simp_all
  from threads_switch_safely [OF run_at_reach [OF two_workers_reach this(1)] al]
  obtain m where m: "run_op 1024 Yields (view 1 ?P) = (Inr (), m)" "t_coroutine m = l_main (p_tls ?P 1)"
    "running m = main_stack (view 1 ?P)" by auto
  moreover have "l_main (p_tls ?P 1) = Some 2" "main_stack (view 1 ?P) = Native" by (simp_all add: run_example)
  ultimately show ?thesis by simp
qed

theorem threads_refine_states_witness:
  "\<exists>m P. run_op 1024 Yields (view 1 P) = (Inr (), m) \<and> task_at 1 P = Some 7 \<and> task_at 1 (update_view 1 m P) = None
     \<and> tasks (update_view 1 m P) 7 = Some (READY, Some ())"
proof -
  let ?xs = "[(0, Create 7 (Some ()) 0), (0, SwapIn 7), (0, Yields), (1, SwapIn 7)]"
  let ?P = "run_at ?xs two_workers"
  have "all_allowed ?xs two_workers" and al: "allowed_at 1 Yields ?P" using migration_allowed by simp_all
  from threads_refine_states [OF run_at_reach [OF two_workers_reach this(1)] al]
  obtain m where m: "run_op 1024 Yields (view 1 ?P) = (Inr (), m)"
    "spec_at 1 (update_view 1 m ?P) = spec_op Yields (spec_at 1 ?P)" by blast
  have at: "task_at 1 ?P = Some 7" by (simp add: task_at_def run_example)
  have "tasks ?P 7 = Some (EXEC, Some ())" by (simp add: tasks_def run_example)
  with m at show ?thesis by (intro exI [of _ m] exI [of _ ?P]) simp
qed

end
