(* ===== verification/Scheduler_Program.thy ===== *)
theory Scheduler_Program
  imports Coroutine_Threads Scheduler_Exclusive
begin

text \<open>
  The scheduler on the coroutines of \<open>mocker/coroutine.cpp\<close>: every step of a worker in \<open>run\<close> performs
  coroutine operations on its thread. Workers and coroutines stay in step, and no operation fails.
\<close>

section \<open>What a worker's step does to the coroutines\<close>

text \<open>\<open>ia t\<close> is the idle coroutine of worker \<open>t\<close>, \<open>run_ops\<close> what the step does to the other coroutines.\<close>

fun idle_ops :: "(int \<Rightarrow> addr) \<Rightarrow> int \<Rightarrow> cort_state \<Rightarrow> addr \<Rightarrow> 'task pc \<Rightarrow> 'task sched \<Rightarrow> 'task cort_op list" where
  "idle_ops ia t st a (Dispatch r) s =
     (if run_ops t st a (Dispatch r) s = [] \<and> sc_idle s t \<noteq> TERMINATED then [SwapIn (ia t)] else [])"
| "idle_ops ia t st a InIdle s = [if stopping s then Finishes True else Sleeps]"
| "idle_ops ia t st a _ s = []"

definition joint_ops :: "(int \<Rightarrow> addr) \<Rightarrow> int \<Rightarrow> cort_state \<Rightarrow> addr \<Rightarrow> 'task pc \<Rightarrow> 'task sched \<Rightarrow> 'task cort_op list" where
  "joint_ops ia t st a p s = run_ops t st a p s @ idle_ops ia t st a p s"

text \<open>Operations on thread \<open>k\<close>, until one of them fails.\<close>

fun perform :: "32 word \<Rightarrow> int \<Rightarrow> 'task cort_op list \<Rightarrow> ('task program, unit) eff" where
  "perform dflt k [] P = (Inr (), P)"
| "perform dflt k (x # xs) P =
     (case run_op dflt x (view k P) of
        (Inl e, m) \<Rightarrow> (Inl e, update_view k m P)
      | (Inr _, m) \<Rightarrow> perform dflt k xs (update_view k m P))"

text \<open>Which coroutine runs on the thread of a worker.\<close>

fun place :: "(int \<Rightarrow> addr) \<Rightarrow> int \<Rightarrow> 'task pc \<Rightarrow> addr option" where
  "place ia t (InCort c) = Some c"
| "place ia t (InCb c) = Some c"
| "place ia t InIdle = Some (ia t)"
| "place ia t _ = None"

text \<open>A task can return only if its coroutine has one.\<close>

definition task_runs :: "int \<Rightarrow> 'task program \<Rightarrow> bool" where
  "task_runs t P \<longleftrightarrow> (\<exists>c k. task_at t P = Some c \<and> tasks P c = Some (EXEC, Some k))"

inductive joint_step :: "(int \<Rightarrow> addr) \<Rightarrow> 32 word \<Rightarrow> 'task sched \<times> 'task program \<Rightarrow> 'task sched \<times> 'task program \<Rightarrow> bool"
  for ia dflt where
  worker: "sc_pc s t = Some p \<Longrightarrow> leaves st \<Longrightarrow> st = TERMINATED \<longrightarrow> task_runs t P \<Longrightarrow>
    a \<notin> sc_objects s \<Longrightarrow> corts (p_shared P) a = None \<Longrightarrow> worker_step t st a p s = Inr s' \<Longrightarrow>
    perform dflt t (joint_ops ia t st a p s) P = (r, P') \<Longrightarrow> joint_step ia dflt (s, P) (s', P')"
| create: "l_main (p_tls P k) \<noteq> None \<Longrightarrow> corts (p_shared P) a = None \<Longrightarrow>
    perform dflt k [Create a cb sz] P = (r, P') \<Longrightarrow>
    joint_step ia dflt (s, P) (set_state a INIT (s\<lparr>sc_objects := insert a (sc_objects s)\<rparr>), P')"
| client: "unclaimed s x \<Longrightarrow> joint_step ia dflt (s, P) (schedule x s, P)"
| auto_stop: "joint_step ia dflt (s, P) (s\<lparr>m_autoStop := True\<rparr>, P)"
| stop_flag: "joint_step ia dflt (s, P) (s\<lparr>m_stopping := True\<rparr>, P)"

text \<open>The workers are at the top of their loops, each with its idle coroutine.\<close>

inductive joint_start :: "(int \<Rightarrow> addr) \<Rightarrow> 32 word \<Rightarrow> 'task sched \<times> 'task program \<Rightarrow> bool" for ia dflt where
  "inj_on ia {t. sc_pc s t \<noteq> None} \<Longrightarrow> started s \<Longrightarrow> reach program_start (program_step dflt) P \<Longrightarrow>
   (\<And>t. sc_pc s t \<noteq> None \<Longrightarrow> l_main (p_tls P t) \<noteq> None \<and> task_at t P = None \<and> ia t \<notin> sc_objects s
      \<and> (\<exists>idle. tasks P (ia t) = Some (INIT, Some idle))) \<Longrightarrow>
   (\<And>c. c \<in> sc_objects s \<Longrightarrow> \<exists>cb. tasks P c = Some (sc_state s c, cb)) \<Longrightarrow>
   joint_start ia dflt (s, P)"

section \<open>Performing operations\<close>

lemma spec_allowed_at:
  assumes inv: "program_inv P" and main: "l_main (p_tls P k) \<noteq> None" and al: "spec_allowed x (spec_at k P)"
    and new: "\<And>a cb sz. x = Create a cb sz \<Longrightarrow> corts (p_shared P) a = None"
  shows "allowed_at k x P"
proof -
  obtain mc where mc: "l_main (p_tls P k) = Some mc" using main by auto
  from program_invD(2) [OF inv mc] obtain cur where k: "thread_ok P k mc cur" ..
  then have "task_at k P = None \<longleftrightarrow> l_running (p_tls P k) = main_stack (view k P)"
    using running_main [OF k] by (auto simp: task_at_def thread_ok_def)
  moreover have "is_task P a \<Longrightarrow> managed (view k P) a" for a by (auto simp: managed_def is_task_def owns_def)
  ultimately show ?thesis
    using al new main by (cases x) (auto simp: allowed_at_def tasks_def split: if_splits)
qed

lemma only_thread_trans: "only_thread k P Q \<Longrightarrow> only_thread k Q R \<Longrightarrow> only_thread k P R"
  by (simp add: only_thread_def)

lemma only_thread_main: "only_thread k P Q \<Longrightarrow> l_main (p_tls Q j) = l_main (p_tls P j)"
  by (cases "j = k") (simp_all add: only_thread_def)

lemma only_thread_task: "only_thread k P Q \<Longrightarrow> j \<noteq> k \<Longrightarrow> task_at j Q = task_at j P"
  by (simp add: only_thread_def task_at_def)

text \<open>A new coroutine, if any, is created first.\<close>

fun creates_first :: "'task cort_op list \<Rightarrow> 'task program \<Rightarrow> bool" where
  "creates_first [] P \<longleftrightarrow> True"
| "creates_first (x # xs) P \<longleftrightarrow> (\<forall>a cb sz. x = Create a cb sz \<longrightarrow> corts (p_shared P) a = None)
     \<and> (\<forall>y \<in> set xs. \<forall>a cb sz. y \<noteq> Create a cb sz)"

lemma perform_spec:
  assumes "program_inv P" and "l_main (p_tls P k) \<noteq> None" and "spec_run xs (spec_at k P) = Some sp"
    and "creates_first xs P"
  shows "\<exists>P'. perform dflt k xs P = (Inr (), P') \<and> program_inv P' \<and> spec_at k P' = sp \<and> only_thread k P P'"
  using assms
proof (induction xs arbitrary: P)
  case Nil
  then show ?case by (simp add: only_thread_def)
next
  case (Cons x xs)
  have al: "spec_allowed x (spec_at k P)" and rest: "spec_run xs (spec_op x (spec_at k P)) = Some sp"
    using Cons.prems(3) by (simp_all split: if_splits)
  have "allowed_at k x P" by (rule spec_allowed_at [OF Cons.prems(1,2) al]) (use Cons.prems(4) in auto)
  from op_ok [OF Cons.prems(1) this, of dflt] obtain m where m: "run_op dflt x (view k P) = (Inr (), m)"
    "program_inv (update_view k m P)" "spec_at k (update_view k m P) = spec_op x (spec_at k P)"
    "only_thread k P (update_view k m P)" by blast
  have "creates_first xs (update_view k m P)" using Cons.prems(4) by (cases xs) auto
  moreover have "l_main (p_tls (update_view k m P) k) \<noteq> None" using only_thread_main [OF m(4), of k] Cons.prems(2) by simp
  ultimately obtain P' where "perform dflt k xs (update_view k m P) = (Inr (), P')" "program_inv P'"
    "spec_at k P' = sp" "only_thread k (update_view k m P) P'"
    using Cons.IH [OF m(2)] m(3) rest by auto
  with m(1) only_thread_trans [OF m(4)] show ?case by auto
qed

section \<open>The simulation\<close>

text \<open>A worker whose task has left its coroutine, which it has not yet dealt with.\<close>

fun left_pc :: "'task pc \<Rightarrow> addr option" where
  "left_pc (LeaveCort c) = Some c"
| "left_pc (BackCort c) = Some c"
| "left_pc (AfterCort c) = Some c"
| "left_pc (LeaveCb c) = Some c"
| "left_pc (BackCb c) = Some c"
| "left_pc (AfterCb c) = Some c"
| "left_pc _ = None"

text \<open>The program's coroutines are in the states that the scheduler sees, and each runs where its worker is.\<close>

definition worker_follows :: "(int \<Rightarrow> addr) \<Rightarrow> 'task sched \<Rightarrow> 'task program \<Rightarrow> int \<Rightarrow> 'task pc \<Rightarrow> bool" where
  "worker_follows ia s P t p \<longleftrightarrow> l_main (p_tls P t) \<noteq> None \<and> task_at t P = place ia t p \<and> ia t \<notin> sc_objects s
     \<and> (\<exists>cb. tasks P (ia t) = Some (sc_idle s t, cb) \<and> (sc_idle s t \<noteq> TERMINATED \<longrightarrow> cb \<noteq> None) \<and> sc_idle s t \<noteq> EXCEPT)
     \<and> (\<forall>c. left_pc p = Some c \<longrightarrow> leaves (sc_state s c))
     \<and> (p = BackIdle \<longrightarrow> sc_idle s t = TERMINATED \<or> sc_idle s t = HOLD)"

definition follows :: "(int \<Rightarrow> addr) \<Rightarrow> 'task sched \<Rightarrow> 'task program \<Rightarrow> bool" where
  "follows ia s P \<longleftrightarrow> program_inv P \<and> exclusive_inv s \<and> inj_on ia {t. sc_pc s t \<noteq> None}
     \<and> (\<forall>t p. sc_pc s t = Some p \<longrightarrow> worker_follows ia s P t p)
     \<and> (\<forall>c \<in> sc_objects s. \<exists>cb. tasks P c = Some (sc_state s c, cb))"

lemma followsD:
  assumes "follows ia s P"
  shows "program_inv P" "exclusive_inv s" "sc_pc s t = Some p \<Longrightarrow> worker_follows ia s P t p"
    "c \<in> sc_objects s \<Longrightarrow> \<exists>cb. tasks P c = Some (sc_state s c, cb)" "inj_on ia {t. sc_pc s t \<noteq> None}"
  using assms unfolding follows_def by blast+

lemma left_holds:
  assumes "exclusive_inv s" and "sc_pc s t = Some p" and "left_pc p = Some c"
  shows "holds s t c"
  using assms exclusive_at(3) [OF assms(1,2)] by (cases p) (auto simp: holds_def)

text \<open>A step of worker \<open>t\<close> that changes at most one coroutine \<open>x\<close>: one it holds, or a new one, or its idle
  coroutine.\<close>

lemma follows_update:
  assumes fol: "follows ia s P" and pc: "sc_pc s t = Some p" and x': "exclusive_inv s'"
    and pc': "sc_pc s' = (sc_pc s)(t \<mapsto> p')" and P': "program_inv P'" "only_thread t P P'" "task_at t P' = place ia t p'"
    and tasks: "\<And>c. c \<noteq> x \<Longrightarrow> tasks P' c = tasks P c"
    and x: "holds s t x \<or> tasks P x = None \<or> x = ia t"
    and objects: "sc_objects s' - {x} = sc_objects s - {x}" "x \<in> sc_objects s \<Longrightarrow> x \<in> sc_objects s'"
    and states: "\<And>c. c \<noteq> x \<Longrightarrow> sc_state s' c = sc_state s c" "\<And>u. u \<noteq> t \<Longrightarrow> sc_idle s' u = sc_idle s u"
    and new: "x \<in> sc_objects s' \<Longrightarrow> \<exists>cb. tasks P' x = Some (sc_state s' x, cb)"
    and idle: "\<exists>cb. tasks P' (ia t) = Some (sc_idle s' t, cb) \<and> (sc_idle s' t \<noteq> TERMINATED \<longrightarrow> cb \<noteq> None) \<and> sc_idle s' t \<noteq> EXCEPT" "ia t \<notin> sc_objects s'"
    and left: "\<And>c. left_pc p' = Some c \<Longrightarrow> leaves (sc_state s' c)" "p' = BackIdle \<longrightarrow> sc_idle s' t = TERMINATED \<or> sc_idle s' t = HOLD"
  shows "follows ia s' P'"
proof -
  note F = followsD [OF fol]
  have "worker_follows ia s' P' u q" if u: "sc_pc s' u = Some q" for u q
  proof (cases "u = t")
    case True
    then have "q = p'" using u pc' by simp
    moreover have "l_main (p_tls P' t) \<noteq> None"
      using F(3) [OF pc] only_thread_main [OF P'(2), of t] by (simp add: worker_follows_def)
    ultimately show ?thesis using True P'(3) idle left by (simp add: worker_follows_def)
  next
    case False
    then have q: "sc_pc s u = Some q" using u pc' by simp
    from F(3) [OF this] have W: "l_main (p_tls P u) \<noteq> None" "task_at u P = place ia u q" "ia u \<notin> sc_objects s"
      "\<exists>cb. tasks P (ia u) = Some (sc_idle s u, cb) \<and> (sc_idle s u \<noteq> TERMINATED \<longrightarrow> cb \<noteq> None) \<and> sc_idle s u \<noteq> EXCEPT"
      "\<forall>c. left_pc q = Some c \<longrightarrow> leaves (sc_state s c)" "q = BackIdle \<longrightarrow> sc_idle s u = TERMINATED \<or> sc_idle s u = HOLD"
      unfolding worker_follows_def by blast+
    have apart: "x \<noteq> ia u"
      using x W(3,4) exclusive_facts(4) [OF F(2), of t x] inj_onD [OF F(5), of t u] pc q False by auto
    have "c \<noteq> x" if "left_pc q = Some c" for c
    proof -
      have c: "holds s u c" by (rule left_holds [OF F(2) q that])
      then have "c \<in> sc_objects s" "\<not> holds s t c" using exclusive_facts(3,4) [OF F(2)] False by blast+
      moreover have "ia t \<notin> sc_objects s" using F(3) [OF pc] by (simp add: worker_follows_def)
      moreover have "tasks P c \<noteq> None" using F(4) [OF calculation(1)] by auto
      ultimately show ?thesis using x by auto
    qed
    with W(5) states(1) have "\<forall>c. left_pc q = Some c \<longrightarrow> leaves (sc_state s' c)" by auto
    moreover have "ia u \<notin> sc_objects s'" using objects(1) W(3) apart by blast
    moreover have "l_main (p_tls P' u) \<noteq> None" "task_at u P' = place ia u q"
      using W(1,2) only_thread_main [OF P'(2), of u] only_thread_task [OF P'(2) False] by simp_all
    ultimately show ?thesis using W(4,6) tasks [of "ia u"] apart states(2) [OF False] unfolding worker_follows_def by simp
  qed
  moreover have "\<exists>cb. tasks P' c = Some (sc_state s' c, cb)" if "c \<in> sc_objects s'" for c
  proof (cases "c = x")
    case False
    then have "c \<in> sc_objects s" using that objects(1) by blast
    with F(4) [OF this] tasks [OF False] states(1) [OF False] show ?thesis by simp
  qed (use that new in blast)
  moreover have "{u. sc_pc s' u \<noteq> None} = {u. sc_pc s u \<noteq> None}" using pc pc' by auto
  ultimately show ?thesis using P'(1) x' F(5) unfolding follows_def by simp
qed

text \<open>The three kinds of steps: no operation, operations on a coroutine, an operation on the idle coroutine.\<close>

lemma follows_still:
  assumes fol: "follows ia s P" and pc: "sc_pc s t = Some p" and x': "exclusive_inv s'"
    and pc': "sc_pc s' = (sc_pc s)(t \<mapsto> p')" "place ia t p' = place ia t p" "p' \<noteq> BackIdle"
    and same: "sc_objects s' = sc_objects s" "sc_state s' = sc_state s" "sc_idle s' = sc_idle s"
    and left: "\<And>c. left_pc p' = Some c \<Longrightarrow> left_pc p = Some c"
  shows "\<exists>P'. perform dflt t [] P = (Inr (), P') \<and> follows ia s' P'"
proof -
  have W: "worker_follows ia s P t p" by (rule followsD(3) [OF fol pc])
  have "follows ia s' P"
    by (rule follows_update [OF fol pc x' pc'(1), where x = "ia t"])
      (use W followsD(1) [OF fol] pc'(2,3) same left in \<open>auto simp: worker_follows_def only_thread_def\<close>)
  then show ?thesis by simp
qed

lemma follows_cort:
  assumes fol: "follows ia s P" and pc: "sc_pc s t = Some p" and x': "exclusive_inv s'"
    and run: "spec_run xs (spec_at t P) = Some ((tasks P)(c \<mapsto> (v, cb)), place ia t p')" "creates_first xs P"
    and c: "holds s t c \<or> tasks P c = None"
    and s': "sc_pc s' = (sc_pc s)(t \<mapsto> p')" "sc_objects s' = insert c (sc_objects s)" "sc_state s' = (sc_state s)(c := v)"
      "sc_idle s' = sc_idle s"
    and left: "\<And>d. left_pc p' = Some d \<Longrightarrow> d = c \<and> leaves v" "p' \<noteq> BackIdle"
  shows "\<exists>P'. perform dflt t xs P = (Inr (), P') \<and> follows ia s' P'"
proof -
  have W: "worker_follows ia s P t p" by (rule followsD(3) [OF fol pc])
  then have main: "l_main (p_tls P t) \<noteq> None" by (simp add: worker_follows_def)
  from perform_spec [OF followsD(1) [OF fol] main run, of dflt] obtain P' where P': "perform dflt t xs P = (Inr (), P')"
    "program_inv P'" "tasks P' = (tasks P)(c \<mapsto> (v, cb))" "task_at t P' = place ia t p'" "only_thread t P P'" by auto
  have c_idle: "c \<noteq> ia t"
    using c W exclusive_facts(4) [OF followsD(2) [OF fol], of t c] by (auto simp: worker_follows_def)
  have "follows ia s' P'"
    by (rule follows_update [OF fol pc x' s'(1) P'(2,5,4), where x = c])
      (use W c c_idle P'(3) s' left in \<open>auto simp: worker_follows_def\<close>)
  with P'(1) show ?thesis by blast
qed

lemma follows_idle:
  assumes fol: "follows ia s P" and pc: "sc_pc s t = Some p" and x': "exclusive_inv s'"
    and run: "spec_run [x] (spec_at t P) = Some ((tasks P)(ia t \<mapsto> (v, cb)), place ia t p')" "\<And>a cb sz. x \<noteq> Create a cb sz"
    and s': "sc_pc s' = (sc_pc s)(t \<mapsto> p')" "sc_objects s' = sc_objects s" "sc_state s' = sc_state s"
      "sc_idle s' = (sc_idle s)(t := v)" "v \<noteq> TERMINATED \<longrightarrow> cb \<noteq> None" "v \<noteq> EXCEPT" "left_pc p' = None"
      "p' = BackIdle \<longrightarrow> v = TERMINATED \<or> v = HOLD"
  shows "\<exists>P'. perform dflt t [x] P = (Inr (), P') \<and> follows ia s' P'"
proof -
  have W: "worker_follows ia s P t p" by (rule followsD(3) [OF fol pc])
  then have main: "l_main (p_tls P t) \<noteq> None" by (simp add: worker_follows_def)
  have "creates_first [x] P" using run(2) by simp
  from perform_spec [OF followsD(1) [OF fol] main run(1) this, of dflt] obtain P' where P': "perform dflt t [x] P = (Inr (), P')"
    "program_inv P'" "tasks P' = (tasks P)(ia t \<mapsto> (v, cb))" "task_at t P' = place ia t p'" "only_thread t P P'" by auto
  have "follows ia s' P'"
    by (rule follows_update [OF fol pc x' s'(1) P'(2,5,4), where x = "ia t"])
      (use W P'(3) s' in \<open>auto simp: worker_follows_def\<close>)
  with P'(1) show ?thesis by blast
qed

section \<open>Every step of a worker\<close>

lemma follows_leave:
  assumes fol: "follows ia s P" and pc: "sc_pc s t = Some p" and x': "exclusive_inv s'"
    and p: "place ia t p = Some c" "c \<in> sc_objects s" "holds s t c" and st: "leaves st" "st = TERMINATED \<longrightarrow> task_runs t P"
    and s': "s' = goto t p' (set_state c st s)" "place ia t p' = None" "\<And>d. left_pc p' = Some d \<Longrightarrow> d = c"
      "p' \<noteq> BackIdle"
  shows "\<exists>P'. perform dflt t [leave_op st] P = (Inr (), P') \<and> follows ia s' P'"
proof -
  have at: "task_at t P = Some c" using followsD(3) [OF fol pc] p(1) by (simp add: worker_follows_def)
  obtain cb where cb: "tasks P c = Some (sc_state s c, cb)" using followsD(4) [OF fol p(2)] by blast
  have "st = TERMINATED \<Longrightarrow> cb \<noteq> None" using st(2) at cb by (auto simp: task_runs_def)
  then have "\<exists>cb'. spec_run [leave_op st] (spec_at t P) = Some ((tasks P)(c \<mapsto> (st, cb')), None)"
    using st(1) at cb by (auto simp: leaves_def)
  then obtain cb' where run: "spec_run [leave_op st] (spec_at t P) = Some ((tasks P)(c \<mapsto> (st, cb')), place ia t p')"
    using s'(2) by auto
  show ?thesis
    by (rule follows_cort [OF fol pc x' run])
      (use st(1) p s' in \<open>auto simp: leaves_def goto_def set_state_def\<close>)
qed

lemma follows_cb:
  assumes fol: "follows ia s P" and pc: "sc_pc s t = Some p" and x': "exclusive_inv s'"
    and p: "place ia t p = None" and new: "a \<notin> sc_objects s" "corts (p_shared P) a = None" and cb: "cb \<noteq> None"
    and step: "start_cb t a s = Inr s'"
  shows "\<exists>P'. perform dflt t (cb_ops t a cb s) P = (Inr (), P') \<and> follows ia s' P'"
proof -
  have at: "task_at t P = None" using followsD(3) [OF fol pc] p by (simp add: worker_follows_def)
  show ?thesis
  proof (cases "sc_cb s t")
    case None
    have none: "tasks P a = None" using new(2) by (simp add: tasks_def is_task_def)
    then have run: "spec_run [Create a cb 0, SwapIn a] (spec_at t P) = Some ((tasks P)(a \<mapsto> (EXEC, cb)), place ia t (InCb a))"
      using at by simp
    have "\<exists>P'. perform dflt t [Create a cb 0, SwapIn a] P = (Inr (), P') \<and> follows ia s' P'"
      by (rule follows_cort [OF fol pc x' run])
        (use none new(2) None step in \<open>auto simp: start_cb_def goto_def set_state_def\<close>)
    with None cb show ?thesis by (auto simp: cb_ops_def simp del: perform.simps)
  next
    case (Some b)
    have held: "holds s t b" using Some by (simp add: holds_def)
    then have b: "b \<in> sc_objects s" by (rule exclusive_facts(4) [OF followsD(2) [OF fol]])
    from followsD(4) [OF fol this] obtain cb0 where cb0: "tasks P b = Some (sc_state s b, cb0)" ..
    have st: "sc_state s b = INIT \<or> sc_state s b = TERMINATED \<or> sc_state s b = EXCEPT"
      "s' = goto t (InCb b) (set_state b EXEC s)"
      using step Some by (auto simp: start_cb_def split: if_splits)
    then have run: "spec_run [Reset b cb, SwapIn b] (spec_at t P) = Some ((tasks P)(b \<mapsto> (EXEC, cb)), place ia t (InCb b))"
      using at cb0 by auto
    have "\<exists>P'. perform dflt t [Reset b cb, SwapIn b] P = (Inr (), P') \<and> follows ia s' P'"
      by (rule follows_cort [OF fol pc x' run]) (use held b st(2) in \<open>auto simp: goto_def set_state_def\<close>)
    with Some cb show ?thesis by (auto simp: cb_ops_def simp del: perform.simps)
  qed
qed

lemma follows_go_idle:
  assumes fol: "follows ia s P" and pc: "sc_pc s t = Some p" and x': "exclusive_inv s'"
    and p: "place ia t p = None" and step: "go_idle t b s = Inr s'"
  shows "\<exists>P'. perform dflt t (if sc_idle s t \<noteq> TERMINATED then [SwapIn (ia t)] else []) P = (Inr (), P') \<and> follows ia s' P'"
proof (cases "sc_idle s t = TERMINATED")
  case True
  have "\<exists>P'. perform dflt t [] P = (Inr (), P') \<and> follows ia s' P'"
    by (rule follows_still [OF fol pc x', where p' = Exited])
      (use True step p in \<open>auto simp: go_idle_def goto_def dec_active_def Let_def split: if_splits\<close>)
  with True show ?thesis by simp
next
  case False
  have W: "worker_follows ia s P t p" by (rule followsD(3) [OF fol pc])
  then obtain cb where at: "task_at t P = None" and cb: "tasks P (ia t) = Some (sc_idle s t, cb)" "cb \<noteq> None"
    using p False by (auto simp: worker_follows_def)
  have idle: "sc_idle s t \<noteq> EXEC" using step False by (auto simp: go_idle_def dec_active_def Let_def split: if_splits)
  have run: "spec_run [SwapIn (ia t)] (spec_at t P) = Some ((tasks P)(ia t \<mapsto> (EXEC, cb)), place ia t InIdle)"
    using at cb idle False W by (cases "sc_idle s t") (auto simp: worker_follows_def)
  have "\<exists>P'. perform dflt t [SwapIn (ia t)] P = (Inr (), P') \<and> follows ia s' P'"
    by (rule follows_idle [OF fol pc x' run])
      (use False step cb(2) in \<open>auto simp: go_idle_def goto_def dec_active_def Let_def split: if_splits\<close>)
  with False show ?thesis by (auto simp del: perform.simps)
qed

lemma follows_worker:
  assumes fol: "follows ia s P" and pc: "sc_pc s t = Some p" and st: "leaves st"
    and returns: "st = TERMINATED \<longrightarrow> task_runs t P" and a: "a \<notin> sc_objects s" "corts (p_shared P) a = None"
    and step: "worker_step t st a p s = Inr s'"
  shows "\<exists>P'. perform dflt t (joint_ops ia t st a p s) P = (Inr (), P') \<and> follows ia s' P'"
proof -
  have exc: "exclusive_inv s" by (rule followsD(2) [OF fol])
  have x': "exclusive_inv s'" by (rule exclusive_worker [OF exc pc a(1) st step])
  have W: "worker_follows ia s P t p" by (rule followsD(3) [OF fol pc])
  note at = exclusive_at [OF exc pc]
  note still = follows_still [OF fol pc x', where dflt = dflt]
  show ?thesis
  proof (cases p)
    case AtLoop
    with step obtain r where "sc_pc s' = (sc_pc s)(t \<mapsto> Dispatch r)" "sc_objects s' = sc_objects s"
      "sc_state s' = sc_state s" "sc_idle s' = sc_idle s"
      by (auto simp: scan_step_def obind_def goto_def split: sum.splits prod.splits)
    with AtLoop show ?thesis using still [of "Dispatch r"] by (simp add: joint_ops_def del: perform.simps)
  next
    case (Dispatch r)
    have pl: "place ia t p = None" by (simp add: Dispatch)
    note go = follows_go_idle [OF fol pc x' pl, where dflt = dflt]
    have rest: "\<exists>P'. perform dflt t (joint_ops ia t st a p s) P = (Inr (), P') \<and> follows ia s' P'"
      if "run_ops t st a p s = cb_ops t a cb s" "(if cb \<noteq> None then start_cb t a s else go_idle t True s) = Inr s'" for cb
    proof (cases "cb = None")
      case True
      with that go [of True] show ?thesis by (simp add: joint_ops_def Dispatch cb_ops_def del: perform.simps)
    next
      case False
      then have "cb_ops t a cb s \<noteq> []" by (auto simp: cb_ops_def split: option.split)
      with that False follows_cb [OF fol pc x' pl a False, of dflt] show ?thesis
        by (simp add: joint_ops_def Dispatch del: perform.simps)
    qed
    show ?thesis
    proof (cases r)
      case None
      with step go [of False] show ?thesis by (simp add: joint_ops_def Dispatch dispatch_step_def del: perform.simps)
    next
      case (Some x)
      show ?thesis
      proof (cases "\<exists>c. coe_coroutine x = Some c \<and> sc_state s c \<noteq> TERMINATED \<and> sc_state s c \<noteq> EXCEPT")
        case False
        then have "run_ops t st a p s = cb_ops t a (coe_cb x) s" by (auto simp: Dispatch Some split: option.split)
        moreover have "(if coe_cb x \<noteq> None then start_cb t a s else go_idle t True s) = Inr s'"
          using step False by (auto simp: Dispatch Some dispatch_step_def split: option.splits if_splits)
        ultimately show ?thesis by (rule rest)
      next
        case True
        then obtain c where c: "coe_coroutine x = Some c" "sc_state s c \<noteq> TERMINATED" "sc_state s c \<noteq> EXCEPT" by blast
        with step have s': "sc_state s c \<noteq> EXEC" "s' = goto t (InCort c) (set_state c EXEC s)"
          by (auto simp: Dispatch Some dispatch_step_def split: if_splits)
        have held: "holds s t c" using pc c(1) by (simp add: Dispatch Some holds_def)
        have obj: "c \<in> sc_objects s" using at(1) [of c] c(1) by (simp add: Dispatch Some)
        from followsD(4) [OF fol this] obtain cb where cb: "tasks P c = Some (sc_state s c, cb)" ..
        have "task_at t P = None" using W pl by (simp add: worker_follows_def)
        then have run: "spec_run [SwapIn c] (spec_at t P) = Some ((tasks P)(c \<mapsto> (EXEC, cb)), place ia t (InCort c))"
          using cb c(2,3) s'(1) by (cases "sc_state s c") simp_all
        have "\<exists>P'. perform dflt t [SwapIn c] P = (Inr (), P') \<and> follows ia s' P'"
          by (rule follows_cort [OF fol pc x' run]) (use held obj s'(2) in \<open>auto simp: goto_def set_state_def\<close>)
        with c show ?thesis by (simp add: joint_ops_def Dispatch Some del: perform.simps)
      qed
    qed
  next
    case (InCort c)
    have "holds s t c" using pc InCort by (simp add: holds_def)
    then show ?thesis
      using follows_leave [OF fol pc x' _ _ _ st returns, of c "LeaveCort c" dflt] step at(1) [of c] InCort
      by (simp add: joint_ops_def del: perform.simps)
  next
    case (InCb c)
    have "sc_cb s t = Some c" using at(3) [of c] InCb by simp
    then show ?thesis
      using follows_leave [OF fol pc x' _ _ _ st returns, of c "LeaveCb c" dflt] step at(2) [of c] InCb
      by (simp add: joint_ops_def holds_def del: perform.simps)
  next
    case (AfterCort c)
    have "sc_state s' = sc_state s"
      using step W AfterCort by (auto simp: after_cort_def goto_def set_state_def schedule_def worker_follows_def leaves_def fun_upd_idem_iff)
    moreover have "sc_pc s' = (sc_pc s)(t \<mapsto> AtLoop)" "sc_objects s' = sc_objects s" "sc_idle s' = sc_idle s"
      using step AfterCort by (auto simp: after_cort_def goto_def set_state_def schedule_def split: if_splits)
    ultimately show ?thesis using still [of AtLoop] AfterCort by (simp add: joint_ops_def del: perform.simps)
  next
    case (AfterCb c)
    have held: "sc_cb s t = Some c" using at(3) [of c] AfterCb by simp
    then have obj: "c \<in> sc_objects s" using at(2) by blast
    from followsD(4) [OF fol this] obtain cb where cb: "tasks P c = Some (sc_state s c, cb)" ..
    have left: "leaves (sc_state s c)" and main: "task_at t P = None" using W AfterCb by (auto simp: worker_follows_def)
    have s': "sc_pc s' = (sc_pc s)(t \<mapsto> AtLoop)" "sc_objects s' = sc_objects s" "sc_idle s' = sc_idle s"
      using step AfterCb by (auto simp: after_cb_def goto_def set_state_def schedule_def split: if_splits)
    show ?thesis
    proof (cases "sc_state s c = EXCEPT \<or> sc_state s c = TERMINATED")
      case True
      then have run: "spec_run [Reset c None] (spec_at t P) = Some ((tasks P)(c \<mapsto> (INIT, None)), place ia t AtLoop)"
        using cb main by auto
      have "\<exists>P'. perform dflt t [Reset c None] P = (Inr (), P') \<and> follows ia s' P'"
        by (rule follows_cort [OF fol pc x' run])
          (use True held obj s' step AfterCb in \<open>auto simp: after_cb_def holds_def goto_def set_state_def\<close>)
      with True AfterCb show ?thesis by (auto simp: joint_ops_def simp del: perform.simps)
    next
      case False
      then have "sc_state s' = sc_state s"
        using step left AfterCb by (auto simp: after_cb_def goto_def set_state_def schedule_def leaves_def fun_upd_idem_iff)
      with s' False AfterCb show ?thesis using still [of AtLoop] by (simp add: joint_ops_def del: perform.simps)
    qed
  next
    case InIdle
    let ?v = "if stopping s then TERMINATED else HOLD" and ?x = "if stopping s then Finishes True else Sleeps"
    have "task_at t P = Some (ia t)" "sc_idle s t = EXEC" using W at(5) InIdle by (auto simp: worker_follows_def)
    moreover from this W obtain cb where cb: "tasks P (ia t) = Some (EXEC, cb)" "cb \<noteq> None" by (auto simp: worker_follows_def)
    ultimately have run: "spec_run [?x] (spec_at t P) =
        Some ((tasks P)(ia t \<mapsto> (?v, if stopping s then None else cb)), place ia t BackIdle)" by simp
    have "\<exists>P'. perform dflt t [?x] P = (Inr (), P') \<and> follows ia s' P'"
      by (rule follows_idle [OF fol pc x' run])
        (use step cb(2) InIdle in \<open>auto simp: idle_step_def goto_def\<close>)
    with InIdle show ?thesis by (simp add: joint_ops_def del: perform.simps)
  next
    case BackIdle
    have "sc_idle s t = TERMINATED \<or> sc_idle s t = HOLD" using W BackIdle by (simp add: worker_follows_def)
    then have "sc_idle s' = sc_idle s"
      using step BackIdle by (auto simp: after_idle_def goto_def fun_upd_idem_iff)
    moreover have "sc_pc s' = (sc_pc s)(t \<mapsto> AtLoop)" "sc_objects s' = sc_objects s" "sc_state s' = sc_state s"
      using step BackIdle by (auto simp: after_idle_def goto_def)
    ultimately show ?thesis using still [of AtLoop] BackIdle by (simp add: joint_ops_def del: perform.simps)
  next
    case (LeaveCort c)
    with step show ?thesis using still [of "BackCort c"] by (auto simp: joint_ops_def goto_def simp del: perform.simps)
  next
    case (BackCort c)
    with step show ?thesis using still [of "AfterCort c"] by (auto simp: joint_ops_def goto_def dec_active_def simp del: perform.simps)
  next
    case (LeaveCb c)
    with step show ?thesis using still [of "BackCb c"] by (auto simp: joint_ops_def goto_def simp del: perform.simps)
  next
    case (BackCb c)
    with step show ?thesis using still [of "AfterCb c"] by (auto simp: joint_ops_def goto_def dec_active_def simp del: perform.simps)
  next
    case Exited
    with step fol show ?thesis by (simp add: joint_ops_def)
  qed
qed

section \<open>The other steps\<close>

lemma exclusive_create:
  assumes inv: "exclusive_inv s" and a: "a \<notin> sc_objects s"
  shows "exclusive_inv (set_state a INIT (s\<lparr>sc_objects := insert a (sc_objects s)\<rparr>))"
proof -
  let ?s = "set_state a INIT (s\<lparr>sc_objects := insert a (sc_objects s)\<rparr>)"
  note facts = exclusive_facts [OF inv]
  have same: "sc_pc ?s = sc_pc s" "sc_cb ?s = sc_cb s" "m_coroutines ?s = m_coroutines s" "sc_idle ?s = sc_idle s"
    "sc_state ?s = (sc_state s)(a := INIT)" "sc_objects ?s = insert a (sc_objects s)"
    by (simp_all add: set_state_def)
  have holds: "holds ?s t c = holds s t c" "exec_pc ?s t c = exec_pc s t c" for t c
    by (simp_all add: holds_def exec_pc_def same)
  have "worker_ok ?s t" for t
    using facts(2) [of t] by (simp add: worker_ok_def same split: option.splits)
  then show ?thesis
    unfolding exclusive_inv_def holds same using facts by auto
qed

lemma follows_create:
  assumes fol: "follows ia s P" and main: "l_main (p_tls P k) \<noteq> None" and a: "corts (p_shared P) a = None"
    and step: "perform dflt k [Create a cb sz] P = (r, P')"
  shows "follows ia (set_state a INIT (s\<lparr>sc_objects := insert a (sc_objects s)\<rparr>)) P'"
proof -
  let ?s = "set_state a INIT (s\<lparr>sc_objects := insert a (sc_objects s)\<rparr>)"
  note F = followsD [OF fol]
  have new: "tasks P a = None" using a by (simp add: tasks_def is_task_def)
  then have run: "spec_run [Create a cb sz] (spec_at k P) = Some ((tasks P)(a \<mapsto> (INIT, cb)), task_at k P)" by simp
  from perform_spec [OF F(1) main run, of dflt] a step have P': "program_inv P'" "tasks P' = (tasks P)(a \<mapsto> (INIT, cb))"
    "task_at k P' = task_at k P" "only_thread k P P'" by (auto simp del: perform.simps)
  have fresh: "a \<notin> sc_objects s" using F(4) [of a] new by auto
  have at: "task_at u P' = task_at u P" for u using P'(3) only_thread_task [OF P'(4)] by (cases "u = k") simp_all
  have "worker_follows ia ?s P' t p" if t: "sc_pc s t = Some p" for t p
  proof -
    have W: "worker_follows ia s P t p" by (rule F(3) [OF t])
    have "left_pc p = Some c \<Longrightarrow> c \<noteq> a" for c
      using left_holds [OF F(2) t, of c] exclusive_facts(4) [OF F(2)] fresh by blast
    moreover have "ia t \<noteq> a" using W new by (auto simp: worker_follows_def)
    ultimately show ?thesis
      using W P'(2) at only_thread_main [OF P'(4), of t] by (auto simp: worker_follows_def set_state_def)
  qed
  moreover have "\<exists>cb. tasks P' c = Some (sc_state ?s c, cb)" if "c \<in> sc_objects ?s" for c
    using that F(4) [of c] P'(2) by (auto simp: set_state_def)
  ultimately show ?thesis
    using P'(1) exclusive_create [OF F(2) fresh] F(5) by (auto simp: follows_def set_state_def)
qed

lemma follows_frame:
  assumes "follows ia s P" and "exclusive_inv s'" and "sc_pc s' = sc_pc s" "sc_objects s' = sc_objects s"
    "sc_state s' = sc_state s" "sc_idle s' = sc_idle s"
  shows "follows ia s' P"
  using assms by (auto simp: follows_def worker_follows_def)

lemma follows_step:
  assumes fol: "follows ia (fst sp) (snd sp)" and step: "joint_step ia dflt sp sp'"
  shows "follows ia (fst sp') (snd sp')"
  using step
proof cases
  case (worker s t p st P a s' r P')
  then show ?thesis using follows_worker [of ia s P t p st a s' dflt] fol by auto
next
  case (create P k a cb sz r P' s)
  then show ?thesis using follows_create [of ia s P k a dflt cb sz r P'] fol by (simp del: perform.simps)
next
  case (client s x P)
  then show ?thesis using fol exclusive_client [of s x] by (auto simp: followsD(2) intro!: follows_frame [of ia s P])
next
  case (auto_stop s P)
  then show ?thesis using fol followsD(2) [of ia s P]
    by (auto simp: exclusive_inv_def intro!: follows_frame [of ia s P])
next
  case (stop_flag s P)
  then show ?thesis using fol followsD(2) [of ia s P]
    by (auto simp: exclusive_inv_def intro!: follows_frame [of ia s P])
qed

lemma follows_start:
  assumes "joint_start ia dflt sp"
  shows "follows ia (fst sp) (snd sp)"
  using assms
proof cases
  case (1 s P)
  have pc: "sc_pc s t = Some p \<Longrightarrow> p = AtLoop \<and> sc_idle s t = INIT" for t p
    using 1(3) by (auto elim!: started.cases split: if_splits)
  have "worker_follows ia s P t p" if t: "sc_pc s t = Some p" for t p
  proof -
    have "p = AtLoop" "sc_idle s t = INIT" using pc [OF t] by blast+
    with 1(5) [of t] t show ?thesis by (auto simp: worker_follows_def)
  qed
  then show ?thesis
    using 1(1,2,6) program.reach_inv [OF 1(4)] exclusive_started [OF 1(3)] by (simp add: follows_def)
qed

interpretation joint: invariant_system "joint_start ia dflt" "joint_step ia dflt" "\<lambda>sp. follows ia (fst sp) (snd sp)" for ia dflt
  by unfold_locales (auto intro: follows_start follows_step)

section \<open>The scheduler runs on its coroutines\<close>

text \<open>C5. The scheduler and the coroutines fit together. Any number of workers run on their threads, clients
  create coroutines and schedule any that are neither queued nor held by a worker: then every step of
  every worker is possible, none of the coroutine operations it performs fails an assertion or uses a
  null pointer, every coroutine is in the state that \<open>run\<close> sees, the coroutine a worker has entered (and no
  other) runs on its thread, and no two threads run on one stack.\<close>

theorem workers_run_their_coroutines:
  assumes "reach (joint_start ia dflt) (joint_step ia dflt) (s, P)" and "sc_pc s t = Some p"
    and "leaves st" and "st = TERMINATED \<longrightarrow> task_runs t P" and "a \<notin> sc_objects s" and "corts (p_shared P) a = None"
  shows "\<exists>s' P'. worker_step t st a p s = Inr s' \<and> perform dflt t (joint_ops ia t st a p s) P = (Inr (), P')
    \<and> (\<forall>c \<in> sc_objects s'. map_option fst (tasks P' c) = Some (sc_state s' c))
    \<and> (\<forall>u q. sc_pc s' u = Some q \<longrightarrow> task_at u P' = place ia u q)
    \<and> (\<forall>u v. l_running (p_tls P' u) \<noteq> Native \<and> l_running (p_tls P' u) = l_running (p_tls P' v) \<longrightarrow> u = v)"
proof -
  have fol: "follows ia s P" using joint.reach_inv [OF assms(1)] by simp
  obtain s' where s': "worker_step t st a p s = Inr s'" using exclusive_progress [OF followsD(2) [OF fol] assms(2)] by blast
  from follows_worker [OF fol assms(2-6) s'] obtain P' where P': "perform dflt t (joint_ops ia t st a p s) P = (Inr (), P')"
    "follows ia s' P'" by blast
  have "\<forall>c \<in> sc_objects s'. map_option fst (tasks P' c) = Some (sc_state s' c)"
    using followsD(4) [OF P'(2)] by fastforce
  moreover have "\<forall>u q. sc_pc s' u = Some q \<longrightarrow> task_at u P' = place ia u q"
    using followsD(3) [OF P'(2)] by (auto simp: worker_follows_def)
  moreover have "\<forall>u v. l_running (p_tls P' u) \<noteq> Native \<and> l_running (p_tls P' u) = l_running (p_tls P' v) \<longrightarrow> u = v"
    using stacks_distinct [OF followsD(1) [OF P'(2)]] by blast
  ultimately show ?thesis using s' P'(1) by blast
qed

section \<open>Witness\<close>

text \<open>Two workers on the threads 0 and 1 with the idle coroutines 8 and 9; coroutine 7 has been taken by the first.\<close>

definition joint_ia :: "int \<Rightarrow> addr" where
  "joint_ia t = (if t = 0 then 8 else 9)"

definition joint_program :: "unit program" where
  "joint_program = run_at [(0, Create 8 (Some ()) 0), (1, Create 9 (Some ()) 0), (0, Create 7 (Some ()) 0)] two_workers"

definition joint_sched :: "unit sched" where
  "joint_sched = \<lparr>m_coroutines = [], m_activeThreadCount = 0, m_idleThreadCount = 0, m_stopping = False,
     m_autoStop = False, sc_state = (\<lambda>_. INIT), sc_objects = {7},
     sc_pc = (\<lambda>t. if t = 0 \<or> t = 1 then Some AtLoop else None), sc_idle = (\<lambda>_. INIT), sc_cb = (\<lambda>_. None)\<rparr>"

lemma two_workers_simps:
  "corts (p_shared two_workers) a = None \<longleftrightarrow> a \<noteq> 1 \<and> a \<noteq> 2"
  "l_main (p_tls two_workers t) = (if t = 0 then Some 1 else if t = 1 then Some 2 else None)"
  "l_coroutine (p_tls two_workers t) = l_main (p_tls two_workers t)"
  by (simp_all add: two_workers_def begin_worker_def empty_machine_def GetCurrent_def new_main_def SetCurrent_def)

lemma created:
  fixes P :: "'task program" and cb :: "'task option" and sz :: "32 word"
  assumes "program_inv P" and "l_main (p_tls P k) \<noteq> None" and "corts (p_shared P) a = None"
  defines "P' \<equiv> update_view k (new_cort 1024 a cb sz False (view k P)) P"
  shows "program_inv P'" "tasks P' = (tasks P)(a \<mapsto> (INIT, cb))" "task_at u P' = task_at u P"
    "l_main (p_tls P' u) = l_main (p_tls P u)" "corts (p_shared P') b = None \<longleftrightarrow> b \<noteq> a \<and> corts (p_shared P) b = None"
proof -
  have "allowed_at k (Create a cb sz) P" using assms(2,3) by (simp add: allowed_at_def)
  from create_ok [OF assms(1) this, of 1024] show "program_inv P'" "tasks P' = (tasks P)(a \<mapsto> (INIT, cb))"
    "task_at u P' = task_at u P" "l_main (p_tls P' u) = l_main (p_tls P u)"
    using only_thread_main [of k P P' u] only_thread_task [of k P P' u] unfolding P'_def by (cases "u = k"; auto)+
  show "corts (p_shared P') b = None \<longleftrightarrow> b \<noteq> a \<and> corts (p_shared P) b = None" by (simp add: P'_def new_cort_def)
qed

lemma joint_program_simps:
  "tasks joint_program a = (if a = 7 \<or> a = 8 \<or> a = 9 then Some (INIT, Some ()) else None)"
  "task_at t joint_program = None" "l_main (p_tls joint_program t) = (if t = 0 then Some 1 else if t = 1 then Some 2 else None)"
  "corts (p_shared joint_program) 10 = None"
proof -
  have inv: "program_inv two_workers" by (rule program.reach_inv [OF two_workers_reach])
  have "owns two_workers 0 1" "owns two_workers 1 2" by (simp_all add: owns_def two_workers_simps)
  then have none: "tasks two_workers a = None" for a
    using two_workers_simps(1) [of a] by (auto simp: tasks_def is_task_def)
  define P1 where "P1 = update_view 0 (new_cort 1024 8 (Some ()) 0 False (view 0 two_workers)) two_workers"
  define P2 where "P2 = update_view 1 (new_cort 1024 9 (Some ()) 0 False (view 1 P1)) P1"
  have P: "joint_program = update_view 0 (new_cort 1024 7 (Some ()) 0 False (view 0 P2)) P2"
    by (simp add: joint_program_def P1_def P2_def)
  note c1 = created [OF inv, where k = 0 and a = 8 and cb = "Some ()" and sz = 0, folded P1_def]
  have new1: "l_main (p_tls two_workers 0) \<noteq> None" "corts (p_shared two_workers) 8 = None" by (simp_all add: two_workers_simps)
  note c1 = c1 [OF new1]
  have new2: "l_main (p_tls P1 1) \<noteq> None" "corts (p_shared P1) 9 = None" by (simp_all add: c1 two_workers_simps)
  note c2 = created [OF c1(1) new2, where cb = "Some ()" and sz = 0, folded P2_def]
  have new3: "l_main (p_tls P2 0) \<noteq> None" "corts (p_shared P2) 7 = None" by (simp_all add: c2 c1 two_workers_simps)
  note c3 = created [OF c2(1) new3, where cb = "Some ()" and sz = 0, folded P]
  show "tasks joint_program a = (if a = 7 \<or> a = 8 \<or> a = 9 then Some (INIT, Some ()) else None)"
    by (simp add: c3(2) c2(2) c1(2) none)
  have "task_at t two_workers = None" by (simp add: task_at_def two_workers_simps)
  then show "task_at t joint_program = None" by (simp add: c3(3) c2(3) c1(3))
  show "l_main (p_tls joint_program t) = (if t = 0 then Some 1 else if t = 1 then Some 2 else None)"
    by (simp add: c3(4) c2(4) c1(4) two_workers_simps)
  show "corts (p_shared joint_program) 10 = None"
    using c3(5) [of 10] c2(5) [of 10] c1(5) [of 10] two_workers_simps(1) [of 10] by simp
qed

lemma joint_program_reach: "reach program_start (program_step 1024) joint_program"
  unfolding joint_program_def
  by (rule run_at_reach [OF two_workers_reach]) (simp add: run_example)

definition joint_taken :: "unit sched" where
  "joint_taken = goto 0 (Dispatch (Some (coe_of_cort (Some 7) (- 1)))) (joint_sched\<lparr>m_activeThreadCount := 1\<rparr>)"

lemma joint_taken_reach: "reach (joint_start joint_ia 1024) (joint_step joint_ia 1024) (joint_taken, joint_program)"
proof -
  let ?x = "coe_of_cort (Some 7) (- 1) :: unit coe"
  let ?reach = "\<lambda>s. reach (joint_start joint_ia 1024) (joint_step joint_ia 1024) (s, joint_program)"
  have "started joint_sched" unfolding joint_sched_def
    by (rule started.intros) (simp_all add: finite_subset [of "{t :: int. t = 0 \<or> t = 1}" "{0, 1}"])
  then have "joint_start joint_ia 1024 (joint_sched, joint_program)"
    by (intro joint_start.intros joint_program_reach)
      (auto simp: joint_program_simps joint_sched_def joint_ia_def inj_on_def split: if_splits)
  then have "?reach joint_sched" by (rule reach_init)
  moreover have "joint_step joint_ia 1024 (joint_sched, joint_program) (schedule ?x joint_sched, joint_program)"
    by (rule joint_step.client) (auto simp: unclaimed_def joint_sched_def coe_of_cort_def holds_def split: if_splits)
  ultimately have "?reach (schedule ?x joint_sched)" by (rule reach_step)
  moreover have "joint_step joint_ia 1024 (schedule ?x joint_sched, joint_program) (joint_taken, joint_program)"
    by (rule joint_step.worker [of _ 0 AtLoop READY joint_program 10])
      (simp_all add: leaves_def scan_step_def joint_taken_def schedule_def scheduleNoLock_def coe_of_cort_def coe_valid_def
        goto_def joint_sched_def joint_program_simps joint_ops_def)
  ultimately show ?thesis by (rule reach_step)
qed

theorem workers_run_their_coroutines_witness:
  "\<exists>P'. perform 1024 0 [SwapIn 7] joint_program = (Inr (), P') \<and> map_option fst (tasks P' 7) = Some EXEC
     \<and> task_at 0 P' = Some 7 \<and> task_at 1 P' = None"
proof -
  have pc: "sc_pc joint_taken 0 = Some (Dispatch (Some (coe_of_cort (Some 7) (- 1))))" by (simp add: joint_taken_def goto_def)
  have ops: "joint_ops joint_ia 0 READY 10 (Dispatch (Some (coe_of_cort (Some 7) (- 1)))) joint_taken = [SwapIn 7]"
    by (simp add: joint_ops_def joint_taken_def joint_sched_def coe_of_cort_def goto_def)
  have new: "10 \<notin> sc_objects joint_taken" by (simp add: joint_taken_def joint_sched_def goto_def)
  from workers_run_their_coroutines [OF joint_taken_reach pc _ _ new joint_program_simps(4), of READY, unfolded ops]
  obtain s' P' where s': "worker_step 0 READY 10 (Dispatch (Some (coe_of_cort (Some 7) (- 1)))) joint_taken = Inr s'"
    and P': "perform 1024 0 [SwapIn 7] joint_program = (Inr (), P')"
    and states: "\<forall>c \<in> sc_objects s'. map_option fst (tasks P' c) = Some (sc_state s' c)"
    and places: "\<forall>u q. sc_pc s' u = Some q \<longrightarrow> task_at u P' = place joint_ia u q"
    by (auto simp: leaves_def simp del: worker_step.simps perform.simps)
  have "s' = goto 0 (InCort 7) (set_state 7 EXEC joint_taken)"
    using s' by (auto simp: dispatch_step_def coe_of_cort_def joint_taken_def joint_sched_def goto_def)
  then have "sc_pc s' 0 = Some (InCort 7)" "sc_pc s' 1 = Some AtLoop" "7 \<in> sc_objects s'" "sc_state s' 7 = EXEC"
    by (simp_all add: joint_taken_def joint_sched_def goto_def set_state_def)
  with states places P' show ?thesis by (intro exI [of _ P']) force
qed

end
