(* ===== verification/Lock_Order.thy ===== *)
theory Lock_Order
  imports Lock_Guards
begin

text \<open>
  Several threads that take locks inside one another. The code takes every lock through a scoped guard,
  so what an operation does with locks is a list of sections, each with the sections inside it. The
  contract of a lock is a locale; when inner sections always have locks of lower rank, threads never
  wait for each other in a circle and every run ends.
\<close>

section \<open>Sections\<close>

datatype 'l lock_section = Section guard_kind 'l "'l lock_section list"

text \<open>What a thread does with locks: the guards' constructors and destructors.\<close>

datatype 'l action = Acquire guard_kind 'l | Release guard_kind 'l

fun actions :: "'l lock_section \<Rightarrow> 'l action list" where
  "actions (Section k l body) = Acquire k l # concat (map actions body) @ [Release k l]"

definition all_actions :: "'l lock_section list \<Rightarrow> 'l action list" where
  "all_actions ss = concat (map actions ss)"

fun outer :: "'l lock_section \<Rightarrow> 'l" where
  "outer (Section k l body) = l"

fun ordered :: "('l \<Rightarrow> nat) \<Rightarrow> 'l lock_section \<Rightarrow> bool" where
  "ordered rank (Section k l body) \<longleftrightarrow> (\<forall>s \<in> set body. ordered rank s \<and> rank (outer s) < rank l)"

text \<open>The rest of a thread's actions fits to what it holds: guards end in the reverse order of their
  beginnings, and a new one has a lock of lower rank than all others.\<close>

fun nested :: "('l \<Rightarrow> nat) \<Rightarrow> (guard_kind \<times> 'l) list \<Rightarrow> 'l action list \<Rightarrow> bool" where
  "nested rank held [] \<longleftrightarrow> held = []"
| "nested rank held (Acquire k l # as) \<longleftrightarrow> (\<forall>h \<in> set held. rank l < rank (snd h)) \<and> nested rank ((k, l) # held) as"
| "nested rank held (Release k l # as) \<longleftrightarrow> (\<exists>rest. held = (k, l) # rest \<and> nested rank rest as)"

lemma nested_section:
  "ordered rank s \<Longrightarrow> \<forall>h \<in> set held. rank (outer s) < rank (snd h) \<Longrightarrow>
     nested rank held (actions s @ as) \<longleftrightarrow> nested rank held as"
proof (induction s arbitrary: held as)
  case (Section k l body)
  let ?held = "(k, l) # held"
  have "nested rank ?held (concat (map actions ss) @ bs) \<longleftrightarrow> nested rank ?held bs" if "set ss \<subseteq> set body" for ss bs
    using that
  proof (induction ss)
    case (Cons s ss)
    then have s: "s \<in> set body" by simp
    then have "ordered rank s" "\<forall>h \<in> set ?held. rank (outer s) < rank (snd h)"
      using Section.prems by (auto intro: less_trans)
    from Section.IH [OF s this] Cons show ?case by simp
  qed simp
  from this [of body "Release k l # as"] Section.prems(2) show ?case by simp
qed

lemma nested_sections:
  assumes "\<forall>s \<in> set ss. ordered rank s"
  shows "nested rank [] (all_actions ss)"
proof -
  have "nested rank [] (all_actions ss @ as) \<longleftrightarrow> nested rank [] as" for as
    using assms unfolding all_actions_def
    by (induction ss) (simp_all add: nested_section)
  from this [of "[]"] show ?thesis by simp
qed

section \<open>The contract of a lock\<close>

text \<open>
  \<open>records m R W\<close>: the object \<open>m\<close> is in the state it has when the threads \<open>R\<close> have it as readers and the
  threads \<open>W\<close> as writers. A lock that nobody has is granted.
\<close>

locale lock_contract =
  fixes grant :: "guard_kind \<Rightarrow> 'm \<Rightarrow> 'm option" and release :: "'m \<Rightarrow> 'm" and fresh :: "'m \<Rightarrow> bool"
    and records :: "'m \<Rightarrow> 't set \<Rightarrow> 't set \<Rightarrow> bool"
  assumes records_fresh: "fresh m \<Longrightarrow> records m {} {}"
    and records_read: "records m R W \<Longrightarrow> t \<notin> R \<union> W \<Longrightarrow> grant ReadLock m = Some m' \<Longrightarrow> records m' (insert t R) W"
    and records_write: "records m R W \<Longrightarrow> t \<notin> R \<union> W \<Longrightarrow> grant WriteLock m = Some m' \<Longrightarrow> records m' R (insert t W)"
    and records_reader: "records m R W \<Longrightarrow> t \<in> R \<Longrightarrow> t \<notin> W \<Longrightarrow> records (release m) (R - {t}) W"
    and records_writer: "records m R W \<Longrightarrow> t \<in> W \<Longrightarrow> t \<notin> R \<Longrightarrow> records (release m) R (W - {t})"
    and granted: "records m {} {} \<Longrightarrow> grant k m \<noteq> None"

section \<open>Threads\<close>

record ('t, 'l, 'm) locking =
  lk_locks :: "'l \<Rightarrow> 'm"
  lk_held :: "'t \<Rightarrow> (guard_kind \<times> 'l) list"
  lk_todo :: "'t \<Rightarrow> 'l action list"

inductive lock_step :: "(guard_kind \<Rightarrow> 'm \<Rightarrow> 'm option) \<Rightarrow> ('m \<Rightarrow> 'm)
    \<Rightarrow> ('t, 'l, 'm) locking \<Rightarrow> ('t, 'l, 'm) locking \<Rightarrow> bool" for grant release where
  acquire: "lk_todo s t = Acquire k l # as \<Longrightarrow> grant k (lk_locks s l) = Some m \<Longrightarrow>
    lock_step grant release s
      \<lparr>lk_locks = (lk_locks s)(l := m), lk_held = (lk_held s)(t := (k, l) # lk_held s t), lk_todo = (lk_todo s)(t := as)\<rparr>"
| release: "lk_todo s t = Release k l # as \<Longrightarrow>
    lock_step grant release s
      \<lparr>lk_locks = (lk_locks s)(l := release (lk_locks s l)), lk_held = (lk_held s)(t := remove1 (k, l) (lk_held s t)),
       lk_todo = (lk_todo s)(t := as)\<rparr>"

text \<open>Nobody has a lock, and every thread has a list of operations to do.\<close>

inductive lock_start :: "('l \<Rightarrow> 'm) \<Rightarrow> ('t \<Rightarrow> 'l lock_section list) \<Rightarrow> ('t, 'l, 'm) locking \<Rightarrow> bool" for new work where
  "lock_start new work \<lparr>lk_locks = new, lk_held = (\<lambda>_. []), lk_todo = (\<lambda>t. all_actions (work t))\<rparr>"

definition holders :: "('t, 'l, 'm) locking \<Rightarrow> guard_kind \<Rightarrow> 'l \<Rightarrow> 't set" where
  "holders s k l = {t. (k, l) \<in> set (lk_held s t)}"

section \<open>Locks taken in order\<close>

locale ordered_locks = lock_contract grant release fresh records
  for grant :: "guard_kind \<Rightarrow> 'm \<Rightarrow> 'm option" and release :: "'m \<Rightarrow> 'm" and fresh :: "'m \<Rightarrow> bool"
    and records :: "'m \<Rightarrow> 't set \<Rightarrow> 't set \<Rightarrow> bool" +
  fixes new :: "'l \<Rightarrow> 'm" and rank :: "'l \<Rightarrow> nat"
  assumes new_fresh: "fresh (new l)"
begin

definition inv :: "('t, 'l, 'm) locking \<Rightarrow> bool" where
  "inv s \<longleftrightarrow> (\<forall>t. nested rank (lk_held s t) (lk_todo s t) \<and> distinct (map snd (lk_held s t)))
     \<and> (\<forall>l. records (lk_locks s l) (holders s ReadLock l) (holders s WriteLock l))"

lemma inv_start: "\<forall>t. \<forall>x \<in> set (work t). ordered rank x \<Longrightarrow> lock_start new work s \<Longrightarrow> inv s"
  using records_fresh [OF new_fresh]
  by (auto simp: inv_def holders_def nested_sections elim!: lock_start.cases)

lemma holders_acquire:
  "holders \<lparr>lk_locks = m, lk_held = (lk_held s)(t := (k, l) # lk_held s t), lk_todo = w\<rparr> k' l' =
     (if k' = k \<and> l' = l then insert t (holders s k l) else holders s k' l')"
  by (auto simp: holders_def)

lemma holders_release:
  assumes "lk_held s t = (k, l) # rest" and "distinct (map snd (lk_held s t))"
  shows "holders \<lparr>lk_locks = m, lk_held = (lk_held s)(t := rest), lk_todo = w\<rparr> k' l' =
     (if k' = k \<and> l' = l then holders s k l - {t} else holders s k' l')"
  using assms by (force simp: holders_def)

lemma inv_step:
  assumes inv: "inv s" and step: "lock_step grant release s s'"
  shows "inv s'"
  using step
proof cases
  case (acquire t k l as m)
  have n: "nested rank (lk_held s t) (Acquire k l # as)" and d: "distinct (map snd (lk_held s t))"
    using inv acquire(2) unfolding inv_def by metis+
  have l: "l \<notin> snd ` set (lk_held s t)" using n by auto
  then have out: "t \<notin> holders s ReadLock l \<union> holders s WriteLock l" by (force simp: holders_def)
  have rec: "records (lk_locks s l) (holders s ReadLock l) (holders s WriteLock l)" using inv unfolding inv_def by blast
  have "records (lk_locks s' l') (holders s' ReadLock l') (holders s' WriteLock l')" for l'
    using inv records_read [OF rec out] records_write [OF rec out] acquire(3)
    by (cases k) (simp_all add: acquire(1) holders_acquire inv_def)
  moreover have "nested rank (lk_held s' t') (lk_todo s' t') \<and> distinct (map snd (lk_held s' t'))" for t'
    using inv n d l by (simp add: acquire(1) inv_def)
  ultimately show ?thesis by (simp add: inv_def)
next
  case (release t k l as)
  have n: "nested rank (lk_held s t) (Release k l # as)" and d: "distinct (map snd (lk_held s t))"
    using inv release(2) unfolding inv_def by metis+
  then obtain rest where rest: "lk_held s t = (k, l) # rest" "nested rank rest as" by auto
  have rec: "records (lk_locks s l) (holders s ReadLock l) (holders s WriteLock l)" using inv unfolding inv_def by blast
  have mem: "t \<in> holders s k l" "\<And>k'. k' \<noteq> k \<Longrightarrow> t \<notin> holders s k' l"
    using rest d by (force simp: holders_def)+
  have "records (lk_locks s' l') (holders s' ReadLock l') (holders s' WriteLock l')" for l'
    using inv records_reader [OF rec, of t] records_writer [OF rec, of t] mem
    by (cases k) (simp_all add: release(1) rest(1) holders_release [OF rest(1) d] inv_def)
  moreover have "nested rank (lk_held s' t') (lk_todo s' t') \<and> distinct (map snd (lk_held s' t'))" for t'
    using inv rest d by (simp add: release(1) inv_def)
  ultimately show ?thesis by (simp add: inv_def)
qed

text \<open>Whoever waits, waits for a thread whose next lock has a lower rank, or that does not wait.\<close>

lemma some_step:
  assumes inv: "inv s"
  shows "lk_todo s t \<noteq> [] \<Longrightarrow> (\<forall>k l as. lk_todo s t = Acquire k l # as \<longrightarrow> rank l < n) \<Longrightarrow>
    \<exists>s'. lock_step grant release s s'"
proof (induction n arbitrary: t)
  case (Suc n)
  show ?case
  proof (cases "\<exists>k l as. lk_todo s t = Acquire k l # as")
    case False
    with Suc.prems(1) obtain k l as where "lk_todo s t = Release k l # as"
      by (cases "lk_todo s t"; cases "hd (lk_todo s t)") auto
    then show ?thesis by (blast intro: lock_step.release)
  next
    case True
    then obtain k l as where a: "lk_todo s t = Acquire k l # as" by blast
    show ?thesis
    proof (cases "grant k (lk_locks s l)")
      case (Some m)
      with a show ?thesis by (blast intro: lock_step.acquire)
    next
      case None
      have "records (lk_locks s l) (holders s ReadLock l) (holders s WriteLock l)" using inv unfolding inv_def by blast
      then have "holders s ReadLock l \<noteq> {} \<or> holders s WriteLock l \<noteq> {}"
        using granted [of "lk_locks s l" k] None by (cases "holders s ReadLock l = {} \<and> holders s WriteLock l = {}") auto
      then obtain t' k' where t': "(k', l) \<in> set (lk_held s t')" by (auto simp: holders_def)
      have nest: "nested rank (lk_held s t') (lk_todo s t')" using inv unfolding inv_def by blast
      show ?thesis
      proof (rule Suc.IH [of t'])
        show "lk_todo s t' \<noteq> []" using nest t' by auto
        show "\<forall>k l as. lk_todo s t' = Acquire k l # as \<longrightarrow> rank l < n"
        proof (intro allI impI)
          fix k'' l'' as''
          assume "lk_todo s t' = Acquire k'' l'' # as''"
          with nest t' have "rank l'' < rank l" by auto
          moreover have "rank l < Suc n" using Suc.prems(2) a by blast
          ultimately show "rank l'' < n" by simp
        qed
      qed
    qed
  qed
next
  case 0
  then have "\<nexists>k l as. lk_todo s t = Acquire k l # as" by blast
  with 0(1) obtain k l as where "lk_todo s t = Release k l # as"
    by (cases "lk_todo s t"; cases "hd (lk_todo s t)") auto
  then show ?case by (blast intro: lock_step.release)
qed

lemma no_deadlock:
  assumes "inv s" and "lk_todo s t \<noteq> []"
  shows "\<exists>s'. lock_step grant release s s'"
proof (cases "\<exists>k l as. lk_todo s t = Acquire k l # as")
  case True
  then obtain k l as where "lk_todo s t = Acquire k l # as" by blast
  then show ?thesis by (intro some_step [OF assms, of "Suc (rank l)"]) simp
qed (rule some_step [OF assms, of 0], blast)

end

sublocale ordered_locks \<subseteq> guards: invariant_system
    "\<lambda>s. \<exists>work. (\<forall>t. \<forall>x \<in> set (work t). ordered rank x) \<and> lock_start new work s" "lock_step grant release" inv
  by unfold_locales (auto intro: inv_start inv_step)

text \<open>With finitely many threads every step brings the end nearer.\<close>

definition actions_left :: "('t::finite, 'l, 'm) locking \<Rightarrow> nat" where
  "actions_left s = (\<Sum>t \<in> UNIV. length (lk_todo s t))"

lemma actions_left_step: "lock_step grant release s s' \<Longrightarrow> actions_left s = Suc (actions_left s')"
proof -
  have one: "(\<Sum>t \<in> UNIV. length (f t)) = Suc (\<Sum>t \<in> UNIV. length ((f(u := as)) t))" if "f u = a # as"
    for f :: "'t :: finite \<Rightarrow> 'l action list" and u a as
    using that by (simp add: sum.remove [of UNIV u])
  assume "lock_step grant release s s'"
  then show ?thesis
    by cases (simp_all only: actions_left_def locking.simps one)
qed

lemma actions_left_0: "actions_left s = 0 \<longleftrightarrow> (\<forall>t. lk_todo s t = [])"
  by (simp add: actions_left_def)

lemma all_finish:
  fixes s :: "('t::finite, 'l, 'm) locking"
  assumes progress: "\<And>s' t. P s' \<Longrightarrow> lk_todo s' t \<noteq> [] \<Longrightarrow> \<exists>s''. lock_step grant release s' s''"
    and keeps: "\<And>s' s''. P s' \<Longrightarrow> lock_step grant release s' s'' \<Longrightarrow> P s''" and "P s"
  shows "\<exists>s'. (lock_step grant release ^^ actions_left s) s s' \<and> (\<forall>t. lk_todo s' t = [])"
  using \<open>P s\<close>
proof (induction "actions_left s" arbitrary: s)
  case 0
  then show ?case using actions_left_0 [of s] by auto
next
  case (Suc n)
  then obtain t where "lk_todo s t \<noteq> []" using actions_left_0 [of s] by auto
  then obtain s1 where s1: "lock_step grant release s s1" using progress [OF Suc.prems] by blast
  then have n: "n = actions_left s1" using actions_left_step [OF s1] Suc.hyps(2) by simp
  from Suc.hyps(1) [OF n keeps [OF Suc.prems s1]] obtain s' where
    "(lock_step grant release ^^ actions_left s1) s1 s'" "\<forall>t. lk_todo s' t = []" by blast
  with s1 n Suc.hyps(2) show ?case by (metis relpowp_Suc_I2)
qed

section \<open>The locks of the library\<close>

text \<open>A lock object by its class; \<open>Mutex\<close> and \<open>Spinlock\<close> have one kind of guard.\<close>

datatype lock_object = RW pthread_rwlock | MX pthread_mutex | SP pthread_spinlock

fun object_grant :: "guard_kind \<Rightarrow> lock_object \<Rightarrow> lock_object option" where
  "object_grant ReadLock (RW m) = map_option RW (RWMutex_rdlock m)"
| "object_grant WriteLock (RW m) = map_option RW (RWMutex_wrlock m)"
| "object_grant k (MX m) = map_option MX (Mutex_lock m)"
| "object_grant k (SP m) = map_option SP (Spinlock_lock m)"

fun object_release :: "lock_object \<Rightarrow> lock_object" where
  "object_release (RW m) = RW (RWMutex_unlock m)"
| "object_release (MX m) = MX (Mutex_unlock m)"
| "object_release (SP m) = SP (Spinlock_unlock m)"

definition new_object :: "lock_object \<Rightarrow> bool" where
  "new_object m \<longleftrightarrow> m = RW RWMutex \<or> m = MX Mutex \<or> m = SP Spinlock"

text \<open>An exclusive lock is taken exactly when one thread, and no other, has it.\<close>

definition one_set :: "bool \<Rightarrow> 't set \<Rightarrow> bool" where
  "one_set taken A \<longleftrightarrow> (taken \<longleftrightarrow> A \<noteq> {}) \<and> (\<forall>i \<in> A. \<forall>j \<in> A. i = j)"

lemma one_set_add: "one_set False A \<Longrightarrow> one_set True (insert t A)"
  by (auto simp: one_set_def)

lemma one_set_only: "one_set b A \<Longrightarrow> t \<in> A \<Longrightarrow> A = {t}"
  unfolding one_set_def by blast

lemma one_set_del:
  assumes "one_set b (R \<union> W)" and "t \<in> R \<union> W"
  shows "t \<notin> W \<Longrightarrow> one_set False (R - {t} \<union> W)" and "t \<notin> R \<Longrightarrow> one_set False (R \<union> (W - {t}))"
  using one_set_only [OF assms] by (auto simp: one_set_def)

fun object_records :: "lock_object \<Rightarrow> 't set \<Rightarrow> 't set \<Rightarrow> bool" where
  "object_records (RW m) R W = rw_sets m R W"
| "object_records (MX m) R W = one_set (pm_locked m) (R \<union> W)"
| "object_records (SP m) R W = one_set (ps_locked m) (R \<union> W)"

lemma rw_contract: "rw_sets m R W \<Longrightarrow> RWMutex_wrlock m = Some m' \<Longrightarrow> rw_sets m' R (insert t W)"
  using rw_sets_free rw_sets_wrlock by fastforce

lemma rw_unlock_write: "rw_sets m R W \<Longrightarrow> t \<in> W \<Longrightarrow> rw_sets (RWMutex_unlock m) R (W - {t})"
  using rw_sets_writer rw_sets_unlock_write by fastforce

interpretation library_locks: lock_contract object_grant object_release new_object object_records
proof
  show "object_records m {} {}" if "new_object m" for m
    using that by (auto simp: new_object_def one_set_def rw_sets_def RWMutex_def Mutex_def Spinlock_def)
  show "object_records m' (insert t R) W" if "object_records m R W" "t \<notin> R \<union> W" "object_grant ReadLock m = Some m'" for m m' t R W
    using that by (cases m) (auto simp: rw_sets_rdlock Mutex_lock_def Spinlock_lock_def one_set_add split: if_splits)
  show "object_records m' R (insert t W)" if "object_records m R W" "t \<notin> R \<union> W" "object_grant WriteLock m = Some m'" for m m' t R W
    using that by (cases m) (auto simp: rw_contract Mutex_lock_def Spinlock_lock_def one_set_add split: if_splits)
  show "object_records (object_release m) (R - {t}) W" if "object_records m R W" "t \<in> R" "t \<notin> W" for m t R W
    using that by (cases m) (simp_all add: rw_sets_unlock_read Mutex_unlock_def Spinlock_unlock_def one_set_del(1))
  show "object_records (object_release m) R (W - {t})" if "object_records m R W" "t \<in> W" "t \<notin> R" for m t R W
    using that by (cases m) (simp_all add: rw_unlock_write Mutex_unlock_def Spinlock_unlock_def one_set_del(2))
  show "object_grant k m \<noteq> None" if "object_records m {} {}" for k m
    using that by (cases m; cases k) (auto simp: rw_sets_def one_set_def RWMutex_rdlock_def RWMutex_wrlock_def Mutex_lock_def
        Spinlock_lock_def split: if_splits)
qed

end
