(* ===== verification/Library_Locks.thy ===== *)
theory Library_Locks
  imports Lock_Order Logger_Examples Config
begin

text \<open>
  Which locks the operations of the library take, and inside which others: the registry of the
  configuration, its variables, the schedulers, the manager of the loggers, the loggers and the
  appenders. Every operation takes them in this order, so threads that use the library never wait for
  each other in a circle.
\<close>

section \<open>The locks and their order\<close>

datatype lib_lock =
    Registry
  | Variable ref
  | Workers nat
  | Manager
  | OfLogger ref
  | OfAppender ref

fun lib_new :: "lib_lock \<Rightarrow> lock_object" where
  "lib_new Registry = RW RWMutex"
| "lib_new (Variable p) = RW RWMutex"
| "lib_new (Workers s) = MX Mutex"
| "lib_new Manager = SP Spinlock"
| "lib_new (OfLogger l) = SP Spinlock"
| "lib_new (OfAppender a) = SP Spinlock"

text \<open>A logger hands its records to the root logger while it has its own lock.\<close>

fun lib_rank :: "ref \<Rightarrow> lib_lock \<Rightarrow> nat" where
  "lib_rank root Registry = 6"
| "lib_rank root (Variable p) = 5"
| "lib_rank root (Workers s) = 4"
| "lib_rank root Manager = 3"
| "lib_rank root (OfLogger l) = (if l = root then 1 else 2)"
| "lib_rank root (OfAppender a) = 0"

type_synonym sections = "lib_lock lock_section list"

abbreviation Guard :: "lib_lock \<Rightarrow> sections \<Rightarrow> lib_lock lock_section" where
  "Guard \<equiv> Section WriteLock"

abbreviation Reading :: "lib_lock \<Rightarrow> sections \<Rightarrow> lib_lock lock_section" where
  "Reading \<equiv> Section ReadLock"

section \<open>Loggers\<close>

text \<open>
  The sections of an operation depend on the loggers as they are when it comes to them; \<open>w\<close> is that
  store. \<open>FileLogAppender::log\<close> reopens its file in a section before its own.
\<close>

definition appender_log_locks :: "log_env \<Rightarrow> level \<Rightarrow> log_world \<Rightarrow> ref \<Rightarrow> sections" where
  "appender_log_locks env lev w a =
     (let x = the_appender w a in
      if lev \<ge> ap_level x then
        (case ap_kind x of
           StdoutLogAppender \<Rightarrow> [Guard (OfAppender a) []]
         | FileLogAppender \<Rightarrow>
             (if now env \<noteq> ap_lastTime x then [Guard (OfAppender a) []] else []) @ [Guard (OfAppender a) []])
      else [])"

text \<open>\<open>ws\<close> are the stores in which the logger and then its root are found.\<close>

fun logger_log_locks :: "log_env \<Rightarrow> level \<Rightarrow> log_world list \<Rightarrow> ref \<Rightarrow> sections" where
  "logger_log_locks env lev [] l = []"
| "logger_log_locks env lev (w # ws) l =
     (let x = the_logger w l in
      if lev \<ge> lg_level x then
        [Guard (OfLogger l)
           (if lg_appenders x \<noteq> [] then concat (map (appender_log_locks env lev w) (lg_appenders x))
            else (case lg_root x of None \<Rightarrow> [] | Some r \<Rightarrow> logger_log_locks env lev ws r))]
      else [])"

definition addAppender_locks :: "log_world \<Rightarrow> ref \<Rightarrow> ref \<Rightarrow> sections" where
  "addAppender_locks w l a =
     [Guard (OfLogger l) ([Guard (OfAppender a) []]
        @ (if appender_getFormatter w a = None then [Guard (OfAppender a) []] else []))]"

definition setFormatter_locks :: "log_world \<Rightarrow> ref \<Rightarrow> sections" where
  "setFormatter_locks w l =
     [Guard (OfLogger l) (map (\<lambda>a. Guard (OfAppender a) []) (lg_appenders (the_logger w l)))]"

definition setFormatter_string_locks :: "log_world \<Rightarrow> ref \<Rightarrow> string \<Rightarrow> sections" where
  "setFormatter_string_locks w l val =
     (if formatter.m_error (LogFormatter val) then [] else setFormatter_locks w l)"

definition logger_yaml_locks :: "log_world \<Rightarrow> ref \<Rightarrow> sections" where
  "logger_yaml_locks w l =
     [Guard (OfLogger l) (map (\<lambda>a. Guard (OfAppender a) []) (lg_appenders (the_logger w l)))]"

definition manager_yaml_locks :: "log_world \<Rightarrow> sections" where
  "manager_yaml_locks w = [Guard Manager (concat (map (\<lambda>(n, l). logger_yaml_locks w l) (w_registry w)))]"

text \<open>
  The calls on loggers, appenders and the manager. \<open>Plain_logger\<close> are \<open>delAppender\<close>, \<open>clearAppender\<close> and
  \<open>getFormatter\<close>; \<open>Plain_appender\<close> are an appender's \<open>setFormatter\<close>, \<open>getFormatter\<close>, \<open>toYamlString\<close>, \<open>reopen\<close>
  and the constructor of \<open>FileLogAppender\<close>, which calls it.
\<close>

datatype log_call =
    Log log_env level log_world log_world ref
  | Add_appender log_world ref ref
  | Plain_logger ref
  | Set_formatter log_world ref
  | Set_pattern log_world ref string
  | Logger_yaml log_world ref
  | Plain_appender ref
  | Get_logger
  | Manager_yaml log_world

fun log_call_locks :: "log_call \<Rightarrow> sections" where
  "log_call_locks (Log env lev w wr l) = logger_log_locks env lev [w, wr] l"
| "log_call_locks (Add_appender w l a) = addAppender_locks w l a"
| "log_call_locks (Plain_logger l) = [Guard (OfLogger l) []]"
| "log_call_locks (Set_formatter w l) = setFormatter_locks w l"
| "log_call_locks (Set_pattern w l val) = setFormatter_string_locks w l val"
| "log_call_locks (Logger_yaml w l) = logger_yaml_locks w l"
| "log_call_locks (Plain_appender a) = [Guard (OfAppender a) []]"
| "log_call_locks Get_logger = [Guard Manager []]"
| "log_call_locks (Manager_yaml w) = manager_yaml_locks w"

definition log_calls_locks :: "log_call list \<Rightarrow> sections" where
  "log_calls_locks cs = concat (map log_call_locks cs)"

section \<open>Configuration\<close>

text \<open>
  \<open>message\<close> are the calls of a logging macro (none if the level is too low), \<open>calls\<close> those of the
  listeners, which use only loggers as the listener of \<open>LogIniter\<close> does, \<open>throws\<close> says whether one of
  them throws.
\<close>

definition getValue_locks :: "ref \<Rightarrow> sections" where
  "getValue_locks p = [Reading (Variable p) []]"

definition toString_locks :: "('v, 'w) cfg_env \<Rightarrow> log_call list \<Rightarrow> ref \<Rightarrow> ('v, 'w) config \<Rightarrow> sections" where
  "toString_locks env message p c =
     getValue_locks p
     @ (case to_str env (cv_type (the_var c p)) (getValue c p) of
          Inr _ \<Rightarrow> []
        | Inl e \<Rightarrow> if is_exception e then log_calls_locks message else [])"

definition setValue_locks :: "('v, 'w) cfg_env \<Rightarrow> log_call list \<Rightarrow> bool \<Rightarrow> ref \<Rightarrow> 'v \<Rightarrow> ('v, 'w) config \<Rightarrow> sections" where
  "setValue_locks env calls throws p v c =
     (if veq env (cv_type (the_var c p)) v (cv_val (the_var c p)) then [Reading (Variable p) []]
      else [Reading (Variable p) (log_calls_locks calls)] @ (if throws then [] else [Guard (Variable p) []]))"

definition fromString_locks :: "('v, 'w) cfg_env \<Rightarrow> log_call list \<Rightarrow> log_call list \<Rightarrow> bool \<Rightarrow> ref \<Rightarrow> string
    \<Rightarrow> ('v, 'w) config \<Rightarrow> sections" where
  "fromString_locks env message calls throws p val c =
     (case from_str env (cv_type (the_var c p)) val of
        Inl e \<Rightarrow> if is_exception e then log_calls_locks message else []
      | Inr v \<Rightarrow> setValue_locks env calls throws p v c @ (if throws then log_calls_locks message else []))"

definition Lookup_locks :: "('v, 'w) cfg_env \<Rightarrow> log_call list \<Rightarrow> string \<Rightarrow> string \<Rightarrow> ('v, 'w) config \<Rightarrow> sections" where
  "Lookup_locks env message ty name c =
     (case map_of (cf_data c) name of
        Some p \<Rightarrow>
          [Reading Registry
             ((if cv_type (the_var c p) = ty then [] else toString_locks env message p c) @ log_calls_locks message)]
      | None \<Rightarrow>
          [Reading Registry []]
          @ (if \<not> only_chars name_chars name then log_calls_locks message else [Guard Registry []]))"

text \<open>The calls on one variable, which a callback of \<open>Visit\<close> can make as well.\<close>

datatype ('v, 'w) var_call =
    Use_loggers "log_call list"
  | Get_value ref
  | To_string "('v, 'w) cfg_env" "log_call list" ref "('v, 'w) config"
  | Set_value "('v, 'w) cfg_env" "log_call list" bool ref 'v "('v, 'w) config"
  | From_string "('v, 'w) cfg_env" "log_call list" "log_call list" bool ref string "('v, 'w) config"
  | Change_listeners ref
  | Get_listener ref

fun var_call_locks :: "('v, 'w) var_call \<Rightarrow> sections" where
  "var_call_locks (Use_loggers calls) = log_calls_locks calls"
| "var_call_locks (Get_value p) = getValue_locks p"
| "var_call_locks (To_string env message p c) = toString_locks env message p c"
| "var_call_locks (Set_value env calls throws p v c) = setValue_locks env calls throws p v c"
| "var_call_locks (From_string env message calls throws p s c) = fromString_locks env message calls throws p s c"
| "var_call_locks (Change_listeners p) = [Guard (Variable p) []]"
| "var_call_locks (Get_listener p) = [Reading (Variable p) []]"

definition Visit_locks :: "(ref \<Rightarrow> ('v, 'w) var_call list) \<Rightarrow> ('v, 'w) config \<Rightarrow> sections" where
  "Visit_locks cb c =
     [Reading Registry (concat (map (\<lambda>(name, p). concat (map var_call_locks (cb p))) (cf_data c)))]"

section \<open>Scheduler\<close>

text \<open>
  \<open>schedule\<close> with its \<open>tickle\<close>, which logs; \<open>start\<close>, which constructs the threads under the lock (each
  constructor waits for its thread, which takes no lock before it answers, and logs a failure);
  the other sections are \<open>stopping\<close>, the scan of \<open>run\<close> and the end of \<open>stop\<close>.
\<close>

definition schedule_locks :: "bool \<Rightarrow> log_call list \<Rightarrow> nat \<Rightarrow> sections" where
  "schedule_locks need_tickle message s =
     [Guard (Workers s) []] @ (if need_tickle then log_calls_locks message else [])"

definition start_locks :: "log_call list list \<Rightarrow> nat \<Rightarrow> sections" where
  "start_locks messages s = [Guard (Workers s) (concat (map log_calls_locks messages))]"

section \<open>All operations\<close>

datatype ('v, 'w) lib_call =
    On_variable "('v, 'w) var_call"
  | Look_up "('v, 'w) cfg_env" "log_call list" string string "('v, 'w) config"
  | Look_up_only
  | Visit_all "ref \<Rightarrow> ('v, 'w) var_call list" "('v, 'w) config"
  | Schedule bool "log_call list" nat
  | Start "log_call list list" nat
  | Queue_section nat

fun lib_call_locks :: "('v, 'w) lib_call \<Rightarrow> sections" where
  "lib_call_locks (On_variable v) = var_call_locks v"
| "lib_call_locks (Look_up env message ty name c) = Lookup_locks env message ty name c"
| "lib_call_locks Look_up_only = [Reading Registry []]"
| "lib_call_locks (Visit_all cb c) = Visit_locks cb c"
| "lib_call_locks (Schedule need_tickle message s) = schedule_locks need_tickle message s"
| "lib_call_locks (Start messages s) = start_locks messages s"
| "lib_call_locks (Queue_section s) = [Guard (Workers s) []]"

section \<open>All sections are ordered\<close>

text \<open>The sections are ordered and have locks below \<open>n\<close>.\<close>

definition below :: "ref \<Rightarrow> nat \<Rightarrow> sections \<Rightarrow> bool" where
  "below root n ss \<longleftrightarrow> (\<forall>s \<in> set ss. ordered (lib_rank root) s \<and> lib_rank root (outer s) < n)"

lemma below_simps [simp]:
  "below root n []"
  "below root n (xs @ ys) \<longleftrightarrow> below root n xs \<and> below root n ys"
  "below root n (Section k l body # ss) \<longleftrightarrow> below root (lib_rank root l) body \<and> lib_rank root l < n \<and> below root n ss"
  by (auto simp: below_def)

lemma below_concat: "(\<And>x. x \<in> set xs \<Longrightarrow> below root n (f x)) \<Longrightarrow> below root n (concat (map f xs))"
  by (auto simp: below_def)

lemma below_mono: "below root m ss \<Longrightarrow> m \<le> n \<Longrightarrow> below root n ss"
  by (auto simp: below_def intro: less_le_trans)

lemma below_appenders: "0 < n \<Longrightarrow> below root n (map (\<lambda>a. Guard (OfAppender a) []) as)"
  by (auto simp: below_def)

fun log_call_ok :: "ref \<Rightarrow> log_call \<Rightarrow> bool" where
  "log_call_ok root (Log env lev w wr l) \<longleftrightarrow> rooted w \<and> w_root w = root \<and> w_loggers w l \<noteq> None \<and> rooted wr \<and> w_root wr = root"
| "log_call_ok root _ \<longleftrightarrow> True"

lemma below_appender_log: "0 < n \<Longrightarrow> below root n (appender_log_locks env lev w a)"
  by (simp add: appender_log_locks_def Let_def split: appender_kind.split)

lemma below_logger_root:
  assumes "rooted wr" and "w_root wr = root" and "1 < n"
  shows "below root n (logger_log_locks env lev (wr # ws) root)"
  using assms by (auto simp: Let_def rooted_def intro!: below_concat below_appender_log)

lemma below_log_call: "log_call_ok root c \<Longrightarrow> below root 4 (log_call_locks c)"
proof (cases c)
  case (Log env lev w wr l)
  assume ok: "log_call_ok root c"
  show ?thesis
  proof (cases "l = root")
    case True
    then show ?thesis using ok Log below_logger_root [of w root 4 env lev "[wr]"] by simp
  next
    case False
    have r: "lg_root (the_logger w l) = Some r \<Longrightarrow> r = root" for r
      using ok Log by (auto simp: rooted_def)
    have "below root 2 (logger_log_locks env lev [wr] root)" using ok Log by (intro below_logger_root) simp_all
    with False r show ?thesis
      unfolding Log by (auto simp: Let_def intro!: below_concat below_appender_log split: option.split)
  qed
qed (auto simp: addAppender_locks_def setFormatter_locks_def setFormatter_string_locks_def logger_yaml_locks_def
    manager_yaml_locks_def below_appenders intro!: below_concat)

lemma below_log_calls: "\<forall>c \<in> set cs. log_call_ok root c \<Longrightarrow> 4 \<le> n \<Longrightarrow> below root n (log_calls_locks cs)"
  unfolding log_calls_locks_def by (intro below_concat) (blast intro: below_mono below_log_call)

text \<open>The calls that are inside another one.\<close>

fun var_call_inner :: "('v, 'w) var_call \<Rightarrow> log_call list" where
  "var_call_inner (Use_loggers calls) = calls"
| "var_call_inner (To_string env message p c) = message"
| "var_call_inner (Set_value env calls throws p v c) = calls"
| "var_call_inner (From_string env message calls throws p s c) = message @ calls"
| "var_call_inner _ = []"

lemma below_var_call: "\<forall>c \<in> set (var_call_inner v). log_call_ok root c \<Longrightarrow> below root 6 (var_call_locks v)"
  by (cases v)
    (auto simp: toString_locks_def getValue_locks_def setValue_locks_def fromString_locks_def below_log_calls
      split: sum.split)

fun lib_call_inner :: "('v, 'w) lib_call \<Rightarrow> log_call set" where
  "lib_call_inner (On_variable v) = set (var_call_inner v)"
| "lib_call_inner (Look_up env message ty name c) = set message"
| "lib_call_inner (Visit_all cb c) = {x. \<exists>p v. v \<in> set (cb p) \<and> x \<in> set (var_call_inner v)}"
| "lib_call_inner (Schedule need_tickle message s) = set message"
| "lib_call_inner (Start messages s) = {x. \<exists>m \<in> set messages. x \<in> set m}"
| "lib_call_inner _ = {}"

lemma below_lib_call: "\<forall>c \<in> lib_call_inner v. log_call_ok root c \<Longrightarrow> below root 7 (lib_call_locks v)"
proof (cases v)
  case (On_variable x)
  assume "\<forall>c \<in> lib_call_inner v. log_call_ok root c"
  then show ?thesis using On_variable below_mono [OF below_var_call [of x root], of 7] by simp
next
  case (Visit_all cb c)
  assume ok: "\<forall>c \<in> lib_call_inner v. log_call_ok root c"
  have "below root 6 (var_call_locks x)" if "x \<in> set (cb p)" for p x
    by (intro below_var_call) (use ok Visit_all that in auto)
  then show ?thesis using Visit_all by (auto simp: Visit_locks_def intro!: below_concat)
next
  case (Start messages s)
  assume "\<forall>c \<in> lib_call_inner v. log_call_ok root c"
  then show ?thesis using Start by (auto simp: start_locks_def intro!: below_concat below_log_calls)
qed (auto simp: Lookup_locks_def schedule_locks_def toString_locks_def getValue_locks_def below_log_calls
    split: option.split sum.split)

section \<open>No circular waiting\<close>

text \<open>What a thread that makes the calls \<open>cs\<close>, one after the other, does with locks.\<close>

definition program_locks :: "('v, 'w) lib_call list \<Rightarrow> sections" where
  "program_locks cs = concat (map lib_call_locks cs)"

definition program_ok :: "ref \<Rightarrow> ('v, 'w) lib_call list \<Rightarrow> bool" where
  "program_ok root cs \<longleftrightarrow> (\<forall>v \<in> set cs. \<forall>c \<in> lib_call_inner v. log_call_ok root c)"

interpretation library: ordered_locks object_grant object_release new_object object_records lib_new "lib_rank root" for root
proof
  show "new_object (lib_new l)" for l by (cases l) (simp_all add: new_object_def)
qed

lemma program_ordered:
  assumes "program_ok root cs"
  shows "\<forall>x \<in> set (program_locks cs). ordered (lib_rank root) x"
proof -
  have "below root 7 (program_locks cs)"
    unfolding program_locks_def by (intro below_concat below_lib_call) (use assms in \<open>auto simp: program_ok_def\<close>)
  then show ?thesis by (simp add: below_def)
qed

lemma library_inv:
  assumes "\<forall>t. program_ok root (cs t)" and "lock_start lib_new (\<lambda>t. program_locks (cs t)) s0"
    and "(lock_step object_grant object_release)\<^sup>*\<^sup>* s0 s"
  shows "library.inv root s"
proof -
  have "library.inv root s0" by (rule library.inv_start [OF _ assms(2)]) (use assms(1) program_ordered in blast)
  then show ?thesis by (rule library.guards.steps_inv [OF assms(3)])
qed

text \<open>C10. Threads never deadlock with the calls of \<open>lib_call\<close>: those on loggers, appenders and their manager,
  on configuration variables, \<open>Lookup\<close>, \<open>Visit\<close>, and a scheduler's \<open>schedule\<close>, \<open>start\<close> and the other regions under
  its mutex. Not among them are listeners that use configuration variables, \<open>Visit\<close> callbacks that create
  variables or visit again, and what waits for other threads (\<open>stop\<close>, \<open>Thread::join\<close>); the loggers are those
  of the one manager. Let any number of threads make any number of these calls in any interleaving of their
  guards' operations: as long as one of them is not done, some thread can go on; and from every state that is
  reached, going on for as many steps as there are guards to lock and unlock ends with all threads done.
  (A callback that creates a variable hangs: \<open>visit_callback_that_creates_hangs\<close>.)\<close>

theorem library_never_deadlocks:
  fixes s :: "('t::finite, lib_lock, lock_object) locking"
  assumes "\<forall>t. program_ok root (cs t)" and "lock_start lib_new (\<lambda>t. program_locks (cs t)) s0"
    and "(lock_step object_grant object_release)\<^sup>*\<^sup>* s0 s"
  shows "((\<forall>t. lk_todo s t = []) \<or> (\<exists>s'. lock_step object_grant object_release s s'))
    \<and> (\<exists>s'. (lock_step object_grant object_release ^^ actions_left s) s s' \<and> (\<forall>t. lk_todo s' t = []))"
proof (rule conjI)
  have inv: "library.inv root s" by (rule library_inv [OF assms])
  then show "(\<forall>t. lk_todo s t = []) \<or> (\<exists>s'. lock_step object_grant object_release s s')"
    using library.no_deadlock [of root s] by blast
  show "\<exists>s'. (lock_step object_grant object_release ^^ actions_left s) s s' \<and> (\<forall>t. lk_todo s' t = [])"
    by (rule all_finish [of "library.inv root", OF library.no_deadlock [of root] library.inv_step [of root] inv])
qed

text \<open>What the types of the calls exclude: a callback of \<open>Visit\<close> that creates a variable (\<open>Lookup\<close> reads the
  registry, finds nothing and goes on to write) waits for the read lock its own thread has.\<close>

theorem visit_callback_that_creates_hangs:
  assumes "lock_start lib_new (\<lambda>t :: unit. [Reading Registry (Lookup_locks env [] ty name c)]) s0"
    and "map_of (cf_data c) name = None" and "only_chars name_chars name"
  shows "\<exists>s. (lock_step object_grant object_release)\<^sup>*\<^sup>* s0 s \<and> lk_todo s () \<noteq> []
    \<and> (\<nexists>s'. lock_step object_grant object_release s s')"
proof -
  let ?r = "Acquire ReadLock Registry" and ?R = "Release ReadLock Registry"
  let ?w = "[Acquire WriteLock Registry, Release WriteLock Registry, ?R]"
  let ?s = "\<lambda>n held todo. \<lparr>lk_locks = lib_new(Registry := RW \<lparr>rw_readers = n, rw_writer = False\<rparr>),
      lk_held = (\<lambda>t :: unit. held), lk_todo = (\<lambda>t. todo)\<rparr>"
  let ?h = "(ReadLock, Registry)"
  have s0: "s0 = ?s 0 [] (?r # ?r # ?R # ?w)"
    using assms by (auto simp: Lookup_locks_def all_actions_def RWMutex_def fun_eq_iff fun_upd_idem elim!: lock_start.cases)
  have up: "(\<lambda>t :: unit. x)(() := y) = (\<lambda>t. y)" for x y :: 'z by auto
  have in_r: "lock_step object_grant object_release (?s n held (?r # todo)) (?s (Suc n) (?h # held) todo)" for n held todo
    using lock_step.acquire [of "?s n held (?r # todo)" "()" ReadLock Registry todo object_grant
        "RW \<lparr>rw_readers = Suc n, rw_writer = False\<rparr>" object_release]
    by (simp add: RWMutex_rdlock_def up)
  have out_r: "lock_step object_grant object_release (?s (Suc n) (?h # held) (?R # todo)) (?s n held todo)" for n held todo
    using lock_step.release [of "?s (Suc n) (?h # held) (?R # todo)" "()" ReadLock Registry todo object_grant object_release]
    by (simp add: RWMutex_unlock_def up)
  have run: "(lock_step object_grant object_release)\<^sup>*\<^sup>* s0 (?s (Suc 0) [?h] ?w)"
    unfolding s0
    by (rule converse_rtranclp_into_rtranclp, rule in_r, rule converse_rtranclp_into_rtranclp, rule in_r,
      rule converse_rtranclp_into_rtranclp, rule out_r, rule rtranclp.rtrancl_refl)
  have "\<nexists>s'. lock_step object_grant object_release (?s (Suc 0) [?h] ?w) s'"
    by (auto simp: RWMutex_wrlock_def elim!: lock_step.cases)
  with run show ?thesis by (intro exI [of _ "?s (Suc 0) [?h] ?w"]) simp
qed

section \<open>Witnesses\<close>

text \<open>Two threads: one sets the variable \<open>logs\<close>, whose listener changes a logger, the other logs through
  that logger to the root.\<close>

definition busy :: "bool \<Rightarrow> (nat, unit) lib_call list" where
  "busy t =
     (let c = \<lparr>cf_vars = [0 \<mapsto> new_ConfigVar ''int'' ''port'' 80 []], cf_data = [(''port'', 0)], cf_next = 1,
                cf_fun_id = (\<lambda>_. 0), cf_world = ()\<rparr>;
          env = \<lparr>from_str = (\<lambda>_ _. Inr 0), to_str = (\<lambda>_ _. Inr []), veq = (\<lambda>_. (=)), report = (\<lambda>_ w. w)\<rparr>
      in if t then [On_variable (Set_value env [Get_logger, Set_formatter net_world 2, Plain_logger 2] False 0 443 c)]
         else [On_variable (Use_loggers [Log example_env INFO net_world net_world 2])])"

lemma busy_ok: "program_ok 0 (busy t)"
  using log_okD(2) [OF net_ok] by (simp add: program_ok_def busy_def Let_def)

theorem library_never_deadlocks_witness:
  "\<exists>s'. (lock_step object_grant object_release ^^ 16)
      \<lparr>lk_locks = lib_new, lk_held = (\<lambda>_. []), lk_todo = (\<lambda>t. all_actions (program_locks (busy t)))\<rparr> s'
    \<and> (\<forall>t. lk_todo s' t = [])"
proof -
  let ?s0 = "\<lparr>lk_locks = lib_new, lk_held = (\<lambda>_. []), lk_todo = (\<lambda>t. all_actions (program_locks (busy t)))\<rparr>"
  have start: "lock_start lib_new (\<lambda>t. program_locks (busy t)) ?s0" by (rule lock_start.intros)
  have "actions_left ?s0 = 16"
    by (simp add: actions_left_def UNIV_bool all_actions_def program_locks_def busy_def Let_def setValue_locks_def
        log_calls_locks_def the_var_def new_ConfigVar_def setFormatter_locks_def the_logger_def new_Logger_def
        appender_log_locks_def the_appender_def new_StdoutLogAppender_def less_eq_level_def)
  with library_never_deadlocks [OF _ start rtranclp.rtrancl_refl, of 0] busy_ok show ?thesis by simp
qed

end
