(* ===== verification/Singletons.thy ===== *)
theory Singletons
  imports Logger_Setup
begin

text \<open>
  \<open>mocker/singleton.h\<close>: \<open>Singleton<T>::GetInstance\<close> and \<open>SingletonPtr<T>::GetInstance\<close> have a local static
  variable. The language runs its initialiser in the first call, lets calls of other threads wait
  until it has ended, and runs it again in a later call if it threw.
\<close>

section \<open>One thread\<close>

text \<open>The variable, if it is initialised, and the rest of the program's state; \<open>ctor\<close> initialises it.\<close>

definition GetInstance :: "('w, 'v) eff \<Rightarrow> ('v option \<times> 'w, 'v) eff" where
  "GetInstance ctor vw =
     (case vw of
        (Some v, w) \<Rightarrow> (Inr v, (Some v, w))
      | (None, w) \<Rightarrow>
          (case ctor w of
             (Inr v, w') \<Rightarrow> (Inr v, (Some v, w'))
           | (Inl e, w') \<Rightarrow> (Inl e, (None, w'))))"

text \<open>\<open>SingletonPtr\<close>: the object is made by \<open>new\<close>, the calls return shared pointers to it.\<close>

definition SingletonPtr_GetInstance :: "('w, 'v) eff \<Rightarrow> ('v \<Rightarrow> 'w \<Rightarrow> ref \<times> 'w) \<Rightarrow> (ref option \<times> 'w, ref) eff" where
  "SingletonPtr_GetInstance ctor alloc =
     GetInstance (\<lambda>w. case ctor w of (Inr v, w') \<Rightarrow> (case alloc v w' of (p, w'') \<Rightarrow> (Inr p, w'')) | (Inl e, w') \<Rightarrow> (Inl e, w'))"

text \<open>\<open>LoggerMgr\<close>: the manager is its root logger and the loggers it registers.\<close>

definition new_manager :: "(log_world, ref) eff" where
  "new_manager = ebind LogManager (\<lambda>_ w. (Inr (w_root w), w))"

definition LoggerMgr_GetInstance :: "(ref option \<times> log_world, ref) eff" where
  "LoggerMgr_GetInstance = GetInstance new_manager"

text \<open>The results of calls made one after the other.\<close>

fun get_all :: "('w, 'v) eff \<Rightarrow> nat \<Rightarrow> 'v option \<times> 'w \<Rightarrow> 'v outcome list \<times> ('v option \<times> 'w)" where
  "get_all ctor 0 vw = ([], vw)"
| "get_all ctor (Suc n) vw =
     (case get_all ctor n vw of (rs, vw1) \<Rightarrow> (case GetInstance ctor vw1 of (r, vw2) \<Rightarrow> (rs @ [r], vw2)))"

section \<open>Threads\<close>

datatype 'v static_var = Uninitialised | Initialising | Initialised 'v

datatype 'v get_pc = Calling | Constructing | Got "'v outcome"

record ('t, 'v, 'w) getting =
  gt_var :: "'v static_var"
  gt_pc :: "'t \<Rightarrow> 'v get_pc"
  gt_world :: 'w

inductive get_step :: "('w, 'v) eff \<Rightarrow> ('t, 'v, 'w) getting \<Rightarrow> ('t, 'v, 'w) getting \<Rightarrow> bool" for ctor where
  first: "gt_pc s t = Calling \<Longrightarrow> gt_var s = Uninitialised \<Longrightarrow>
    get_step ctor s (s\<lparr>gt_var := Initialising, gt_pc := (gt_pc s)(t := Constructing)\<rparr>)"
| constructed: "gt_pc s t = Constructing \<Longrightarrow> ctor (gt_world s) = (Inr v, w) \<Longrightarrow>
    get_step ctor s \<lparr>gt_var = Initialised v, gt_pc = (gt_pc s)(t := Got (Inr v)), gt_world = w\<rparr>"
| thrown: "gt_pc s t = Constructing \<Longrightarrow> ctor (gt_world s) = (Inl e, w) \<Longrightarrow>
    get_step ctor s \<lparr>gt_var = Uninitialised, gt_pc = (gt_pc s)(t := Got (Inl e)), gt_world = w\<rparr>"
| later: "gt_pc s t = Calling \<Longrightarrow> gt_var s = Initialised v \<Longrightarrow>
    get_step ctor s (s\<lparr>gt_pc := (gt_pc s)(t := Got (Inr v))\<rparr>)"

inductive get_start :: "'w \<Rightarrow> ('t, 'v, 'w) getting \<Rightarrow> bool" for w where
  "get_start w \<lparr>gt_var = Uninitialised, gt_pc = (\<lambda>_. Calling), gt_world = w\<rparr>"

section \<open>The calls are sequential\<close>

fun instance_of :: "'v static_var \<Rightarrow> 'v option" where
  "instance_of (Initialised v) = Some v"
| "instance_of _ = None"

text \<open>The calls that have returned, in the order \<open>ts\<close>, returned what they return one after the other; the
  variable is being initialised exactly when one thread is in the constructor.\<close>

definition get_inv :: "('w, 'v) eff \<Rightarrow> 'w \<Rightarrow> ('t, 'v, 'w) getting \<Rightarrow> bool" where
  "get_inv ctor w s \<longleftrightarrow>
     (\<exists>ts. distinct ts \<and> (\<forall>t. t \<in> set ts \<longleftrightarrow> (\<exists>r. gt_pc s t = Got r))
        \<and> (\<exists>rs. get_all ctor (length ts) (None, w) = (rs, (instance_of (gt_var s), gt_world s))
             \<and> map (gt_pc s) ts = map Got rs))
     \<and> (gt_var s = Initialising \<longleftrightarrow> (\<exists>t. gt_pc s t = Constructing))
     \<and> (\<forall>t u. gt_pc s t = Constructing \<and> gt_pc s u = Constructing \<longrightarrow> t = u)"

lemma get_inv_start: "get_start w s \<Longrightarrow> get_inv ctor w s"
  by (auto simp: get_inv_def elim!: get_start.cases intro!: exI [of _ "[]"])

text \<open>A call that returns is the next one.\<close>

lemma get_inv_return:
  assumes inv: "get_inv ctor w s" and t: "\<forall>r. gt_pc s t \<noteq> Got r"
    and call: "GetInstance ctor (instance_of (gt_var s), gt_world s) = (r, (instance_of x, w'))"
    and x: "x \<noteq> Initialising" "\<forall>u. u \<noteq> t \<longrightarrow> gt_pc s u \<noteq> Constructing"
  shows "get_inv ctor w \<lparr>gt_var = x, gt_pc = (gt_pc s)(t := Got r), gt_world = w'\<rparr>"
proof -
  obtain ts rs where ts: "distinct ts" "\<forall>u. u \<in> set ts \<longleftrightarrow> (\<exists>r. gt_pc s u = Got r)"
    "get_all ctor (length ts) (None, w) = (rs, (instance_of (gt_var s), gt_world s))" "map (gt_pc s) ts = map Got rs"
    using inv unfolding get_inv_def by blast
  have new: "t \<notin> set ts" using t ts(2) by blast
  then have "map ((gt_pc s)(t := Got r)) (ts @ [t]) = map Got (rs @ [r])" using ts(4) by auto
  with ts new call x show ?thesis
    unfolding get_inv_def by (intro conjI exI [of _ "ts @ [t]"] exI [of _ "rs @ [r]"]) auto
qed

lemma get_inv_step:
  assumes inv: "get_inv ctor w s" and step: "get_step ctor s s'"
  shows "get_inv ctor w s'"
proof -
  have ini: "gt_var s = Initialising \<longleftrightarrow> (\<exists>t. gt_pc s t = Constructing)"
    and one: "gt_pc s t = Constructing \<Longrightarrow> gt_pc s u = Constructing \<Longrightarrow> t = u" for t u
    using inv unfolding get_inv_def by blast+
  from step show ?thesis
  proof cases
    case (first t)
    obtain ts rs where ts: "distinct ts" "\<forall>u. u \<in> set ts \<longleftrightarrow> (\<exists>r. gt_pc s u = Got r)"
      "get_all ctor (length ts) (None, w) = (rs, (None, gt_world s))" "map (gt_pc s) ts = map Got rs"
      using inv first(3) unfolding get_inv_def by auto
    have "t \<notin> set ts" using first(2) ts(2) by auto
    then have "map ((gt_pc s)(t := Constructing)) ts = map Got rs" using ts(4) by auto
    with ts first ini show ?thesis
      unfolding get_inv_def by (intro conjI exI [of _ ts] exI [of _ rs]) auto
  next
    case (constructed t v w')
    with ini have var: "gt_var s = Initialising" by blast
    show ?thesis unfolding constructed(1)
      by (rule get_inv_return [OF inv]) (use constructed var one in \<open>auto simp: GetInstance_def\<close>)
  next
    case (thrown t e w')
    with ini have var: "gt_var s = Initialising" by blast
    show ?thesis unfolding thrown(1)
      by (rule get_inv_return [OF inv]) (use thrown var one in \<open>auto simp: GetInstance_def\<close>)
  next
    case (later t v)
    with ini have "\<forall>u. gt_pc s u \<noteq> Constructing" by auto
    with later get_inv_return [OF inv, of t "Inr v" "Initialised v" "gt_world s"] show ?thesis
      by (cases s) (auto simp: GetInstance_def)
  qed
qed

interpretation singleton: invariant_system "get_start w" "get_step ctor" "get_inv ctor w" for w ctor
  by unfold_locales (auto intro: get_inv_start get_inv_step)

lemma get_all_same:
  "get_all ctor n (None, w) = (rs, (i, w')) \<Longrightarrow> Inr v \<in> set rs \<Longrightarrow> i = Some v"
proof (induction n arbitrary: rs i w')
  case (Suc n)
  obtain qs j w1 where get: "get_all ctor n (None, w) = (qs, (j, w1))" by (cases "get_all ctor n (None, w)") auto
  with Suc.IH Suc.prems show ?case
    by (cases j; cases "ctor w1"; cases "fst (ctor w1)") (auto simp: GetInstance_def)
qed simp

text \<open>C34. However many threads call \<open>GetInstance\<close>, and however their calls interleave with the constructor,
  the calls return what they return when they are made one after the other; all that return an
  object return the same one; and as long as a call has not returned, some thread can go on.\<close>

theorem one_instance:
  assumes "reach (get_start w) (get_step ctor) s"
  shows "(\<exists>ts rs. distinct ts \<and> (\<forall>t. t \<in> set ts \<longleftrightarrow> (\<exists>r. gt_pc s t = Got r))
        \<and> fst (get_all ctor (length ts) (None, w)) = rs \<and> map (gt_pc s) ts = map Got rs)
    \<and> (\<forall>t u v v'. gt_pc s t = Got (Inr v) \<and> gt_pc s u = Got (Inr v') \<longrightarrow> v = v')
    \<and> (\<forall>t. (\<forall>r. gt_pc s t \<noteq> Got r) \<longrightarrow> (\<exists>s'. get_step ctor s s'))"
proof (intro conjI allI impI)
  have inv: "get_inv ctor w s" by (rule singleton.reach_inv [OF assms])
  then obtain ts rs where ts: "distinct ts" "\<forall>t. t \<in> set ts \<longleftrightarrow> (\<exists>r. gt_pc s t = Got r)"
    "get_all ctor (length ts) (None, w) = (rs, (instance_of (gt_var s), gt_world s))" "map (gt_pc s) ts = map Got rs"
    unfolding get_inv_def by blast
  then show "\<exists>ts rs. distinct ts \<and> (\<forall>t. t \<in> set ts \<longleftrightarrow> (\<exists>r. gt_pc s t = Got r))
      \<and> fst (get_all ctor (length ts) (None, w)) = rs \<and> map (gt_pc s) ts = map Got rs"
    by (intro exI [of _ ts] exI [of _ rs]) simp
  have got: "instance_of (gt_var s) = Some v" if "gt_pc s t = Got (Inr v)" for t v
  proof -
    have "t \<in> set ts" using ts(2) that by blast
    then have "gt_pc s t \<in> set (map Got rs)" unfolding ts(4) [symmetric] by simp
    with that have "Inr v \<in> set rs" by auto
    with get_all_same [OF ts(3)] show ?thesis by blast
  qed
  show "v = v'" if "gt_pc s t = Got (Inr v) \<and> gt_pc s u = Got (Inr v')" for t u v v'
    using got [of t v] got [of u v'] that by simp
  show "\<exists>s'. get_step ctor s s'" if t: "\<forall>r. gt_pc s t \<noteq> Got r" for t
  proof (cases "gt_var s")
    case Initialising
    then obtain u where u: "gt_pc s u = Constructing" using inv unfolding get_inv_def by blast
    obtain r w' where "ctor (gt_world s) = (r, w')" by (cases "ctor (gt_world s)")
    with u show ?thesis by (cases r) (blast intro: get_step.constructed get_step.thrown)+
  next
    case Uninitialised
    with inv t have "gt_pc s t = Calling" unfolding get_inv_def by (cases "gt_pc s t") auto
    with Uninitialised show ?thesis by (blast intro: get_step.first)
  next
    case (Initialised v)
    with inv t have "gt_pc s t = Calling" unfolding get_inv_def by (cases "gt_pc s t") auto
    with Initialised show ?thesis by (blast intro: get_step.later)
  qed
qed

section \<open>The manager of the loggers\<close>

lemma new_manager_world: "new_manager empty_log_world = (Inr 0, manager_world)"
  by (simp add: new_manager_def LogManager_world ebind_def)

text \<open>Two threads ask for the manager; one constructs it, the other comes when it is done.\<close>

theorem one_instance_witness:
  "\<exists>s v. reach (get_start empty_log_world) (get_step new_manager) s
     \<and> gt_pc s True = Got (Inr v) \<and> gt_pc s False = Got (Inr v)"
proof -
  let ?v = "0 :: ref" and ?w = manager_world
  let ?s = "\<lambda>x p q w. \<lparr>gt_var = x, gt_pc = (\<lambda>t. if t then p else q), gt_world = w\<rparr>"
  let ?reach = "reach (get_start empty_log_world) (get_step new_manager)"
  let ?final = "?s (Initialised ?v) (Got (Inr ?v)) (Got (Inr ?v)) ?w"
  have upd: "(\<lambda>t. if t then p else q)(True := x) = (\<lambda>t. if t then x else q)"
    "(\<lambda>t. if t then p else q)(False := x) = (\<lambda>t. if t then p else x)"
    "(\<lambda>t. q)(True := x) = (\<lambda>t. if t then x else q)" for p q x :: "ref get_pc" by auto
  have "get_start empty_log_world (?s Uninitialised Calling Calling empty_log_world)"
    using get_start.intros [of empty_log_world] by simp
  then have "?reach (?s Uninitialised Calling Calling empty_log_world)" by (rule reach_init)
  moreover have "get_step new_manager (?s Uninitialised Calling Calling empty_log_world) (?s Initialising Constructing Calling empty_log_world)"
    using get_step.first [of "?s Uninitialised Calling Calling empty_log_world" True new_manager] by (simp add: upd)
  ultimately have "?reach (?s Initialising Constructing Calling empty_log_world)" by (rule reach_step)
  moreover have "get_step new_manager (?s Initialising Constructing Calling empty_log_world) (?s (Initialised ?v) (Got (Inr ?v)) Calling ?w)"
    using get_step.constructed [of "?s Initialising Constructing Calling empty_log_world" True new_manager ?v ?w] new_manager_world by (simp add: upd)
  ultimately have "?reach (?s (Initialised ?v) (Got (Inr ?v)) Calling ?w)" by (rule reach_step)
  moreover have "get_step new_manager (?s (Initialised ?v) (Got (Inr ?v)) Calling ?w) ?final"
    using get_step.later [of "?s (Initialised ?v) (Got (Inr ?v)) Calling ?w" False ?v new_manager] by (simp add: upd)
  ultimately have "?reach ?final" by (rule reach_step)
  moreover from one_instance [OF this] have "gt_pc ?final True = gt_pc ?final False" by simp
  ultimately show ?thesis by (intro exI [of _ ?final] exI [of _ ?v]) simp
qed

end
