(* ===== verification/Program_Statics.thy ===== *)
theory Program_Statics
  imports Log_Config_Listener Config_Load Singletons Logger_Examples
begin

text \<open>
  What the library does before \<open>main\<close>: the variables with static storage duration of its files register
  the configuration variables \<open>logs\<close> and \<open>coroutine.stack_size\<close>, \<open>LogIniter\<close> adds its listener, and
  every \<open>g_logger\<close> asks for the logger \<open>system\<close>; the first one that does constructs the manager.
\<close>

section \<open>The program's variables\<close>

text \<open>The values of the two variables, and the names that stand for \<open>typeid(T).name()\<close>.\<close>

datatype program_value = LogDefines "log_define list" | StackSize "32 word"

definition logs_type :: string where
  "logs_type = ''std::set<LogDefine>''"

definition stack_type :: string where
  "stack_type = ''uint32_t''"

text \<open>
  The casts of the two types: \<open>std::set<LogDefine>\<close> by the template for sets and that for \<open>LogDefine\<close>
  (whose messages on the standard output are not part of the state here), \<open>uint32_t\<close> by
  \<open>boost::lexical_cast\<close>, the arguments \<open>parse\<close> and \<open>print\<close>.
\<close>

definition logs_from_str :: "'n yaml \<Rightarrow> log_define list from_str" where
  "logs_from_str Y = set_from_str ld_less Y (\<lambda>s. fst (LogDefine_from_str Y s []))"

definition logs_to_str :: "'n yaml \<Rightarrow> log_define list to_str" where
  "logs_to_str Y = set_to_str Y (LogDefine_to_str Y)"

fun program_eq :: "program_value \<Rightarrow> program_value \<Rightarrow> bool" where
  "program_eq (LogDefines a) (LogDefines b) = oset_eq ld_eq a b"
| "program_eq (StackSize m) (StackSize n) = (m = n)"
| "program_eq _ _ = False"

fun program_to_str :: "'n yaml \<Rightarrow> 32 word to_str \<Rightarrow> program_value to_str" where
  "program_to_str Y print (LogDefines ds) = logs_to_str Y ds"
| "program_to_str Y print (StackSize n) = print n"

definition program_env :: "'n yaml \<Rightarrow> 32 word from_str \<Rightarrow> 32 word to_str \<Rightarrow> (string \<Rightarrow> log_world \<Rightarrow> log_world)
    \<Rightarrow> (program_value, log_world) cfg_env" where
  "program_env Y parse print rep =
     \<lparr>from_str = (\<lambda>ty s. if ty = logs_type then obind (logs_from_str Y s) (\<lambda>ds. Inr (LogDefines ds))
                         else obind (parse s) (\<lambda>n. Inr (StackSize n))),
      to_str = (\<lambda>ty. program_to_str Y print), veq = (\<lambda>ty. program_eq), report = rep\<rparr>"

section \<open>Before main\<close>

text \<open>The listener of \<open>LogIniter\<close>: a variable of its type has no other values.\<close>

definition logs_listener :: "log_env \<Rightarrow> log_event \<Rightarrow> (program_value, log_world) on_change" where
  "logs_listener env note = Some (\<lambda>old_value new_value w.
     case (old_value, new_value) of
       (LogDefines a, LogDefines b) \<Rightarrow> log_listener env note a b w
     | _ \<Rightarrow> (Inr (), w))"

definition g_log_defines :: "(program_value, log_world) cfg_env \<Rightarrow> ((program_value, log_world) config, ref option) eff" where
  "g_log_defines cfg = Lookup cfg logs_type ''logs'' (LogDefines []) ''logs config''"

definition LogIniter :: "log_env \<Rightarrow> log_event \<Rightarrow> ref option \<Rightarrow> ((program_value, log_world) config, unit) eff" where
  "LogIniter env note var c =
     (case var of
        None \<Rightarrow> (Inl (Null_pointer ''g_log_defines''), c)
      | Some p \<Rightarrow> (Inr (), snd (addListener p (logs_listener env note) c)))"

definition g_coroutine_stack_size :: "(program_value, log_world) cfg_env
    \<Rightarrow> ((program_value, log_world) config, ref option) eff" where
  "g_coroutine_stack_size cfg =
     Lookup cfg stack_type ''coroutine.stack_size'' (StackSize (1024 * 1024)) ''coroutine stack size''"

text \<open>
  The initialisers, one for each variable with static storage duration: \<open>g_log_defines\<close> and \<open>__log_init\<close>
  of \<open>mocker/log.cpp\<close>, \<open>g_coroutine_stack_size\<close> of \<open>mocker/coroutine.cpp\<close>, the loggers of the files that
  have one, and the variables and loggers that an application has at file scope (as the programs under
  \<open>tests/\<close>), for the two value types of this theory.
\<close>

datatype initialiser =
    Init_log_defines
  | Init_log_init
  | Init_stack_size
  | Init_logger (init_file: string) (init_name: string)
  | Init_variable (init_type: string) (init_name: string) (init_value: program_value) (init_description: string)

record statics =
  st_manager :: "ref option"
  st_log_defines :: "ref option"
  st_loggers :: "string \<times> string \<rightharpoonup> ref"
  st_config :: "(program_value, log_world) config"

text \<open>Before any of them: no manager, no logger and no variable.\<close>

definition nothing_yet :: statics where
  "nothing_yet = \<lparr>st_manager = None, st_log_defines = None, st_loggers = (\<lambda>_. None),
     st_config = \<lparr>cf_vars = (\<lambda>_. None), cf_data = [], cf_next = 0, cf_fun_id = (\<lambda>_. 0), cf_world = empty_log_world\<rparr>\<rparr>"

text \<open>\<open>LoggerMgr::GetInstance()->getLogger(name)\<close>: the manager is constructed in the first call.\<close>

definition static_logger :: "string \<Rightarrow> string \<Rightarrow> (statics, unit) eff" where
  "static_logger fname name s =
     (case LoggerMgr_GetInstance (st_manager s, cf_world (st_config s)) of
        (Inl e, (m, w)) \<Rightarrow> (Inl e, s\<lparr>st_manager := m, st_config := (st_config s)\<lparr>cf_world := w\<rparr>\<rparr>)
      | (Inr _, (m, w)) \<Rightarrow>
          (case getLogger name w of (l, w1) \<Rightarrow>
             (Inr (), s\<lparr>st_manager := m, st_loggers := (st_loggers s)((fname, name) \<mapsto> l),
                        st_config := (st_config s)\<lparr>cf_world := w1\<rparr>\<rparr>)))"

definition on_config :: "((program_value, log_world) config, 'a) eff \<Rightarrow> (statics, 'a) eff" where
  "on_config f s = (case f (st_config s) of (r, c) \<Rightarrow> (r, s\<lparr>st_config := c\<rparr>))"

fun initialise :: "(program_value, log_world) cfg_env \<Rightarrow> log_env \<Rightarrow> log_event \<Rightarrow> initialiser \<Rightarrow> (statics, unit) eff" where
  "initialise cfg env note Init_log_defines s =
     ebind (on_config (g_log_defines cfg)) (\<lambda>var. emodify (\<lambda>s. s\<lparr>st_log_defines := var\<rparr>)) s"
| "initialise cfg env note Init_log_init s = on_config (LogIniter env note (st_log_defines s)) s"
| "initialise cfg env note Init_stack_size s = ebind (on_config (g_coroutine_stack_size cfg)) (\<lambda>_. ereturn ()) s"
| "initialise cfg env note (Init_logger fname name) s = static_logger fname name s"
| "initialise cfg env note (Init_variable ty n v d) s = ebind (on_config (Lookup cfg ty n v d)) (\<lambda>_. ereturn ()) s"

definition static_init :: "(program_value, log_world) cfg_env \<Rightarrow> log_env \<Rightarrow> log_event \<Rightarrow> initialiser list
    \<Rightarrow> (statics, unit) eff" where
  "static_init cfg env note inits = efor (initialise cfg env note) inits"

text \<open>The library's own variables, file by file in one of the possible orders.\<close>

definition library_statics :: "initialiser list" where
  "library_statics = [Init_log_defines, Init_log_init, Init_stack_size, Init_logger ''coroutine.cpp'' ''system'',
     Init_logger ''schedule.cpp'' ''system'', Init_logger ''thread.cpp'' ''system'', Init_logger ''util.cpp'' ''system'']"

text \<open>The variable of \<open>coroutine.stack_size\<close> as the constructor of \<open>Coroutine\<close> reads it.\<close>

definition configured_size :: "(program_value, log_world) config \<Rightarrow> 32 word" where
  "configured_size c = (case LookupBase ''coroutine.stack_size'' c of
      Some p \<Rightarrow> (case getValue c p of StackSize n \<Rightarrow> n | LogDefines _ \<Rightarrow> 0)
    | None \<Rightarrow> 0)"

section \<open>The initialised program\<close>

text \<open>Both variables are registered, \<open>logs\<close> is heard by the loggers and the loggers are well formed.\<close>

definition initialised :: "log_env \<Rightarrow> log_event \<Rightarrow> log_define list \<Rightarrow> 32 word
    \<Rightarrow> (program_value, log_world) config \<Rightarrow> bool" where
  "initialised env note ds n c \<longleftrightarrow> log_ok (cf_world c)
     \<and> (\<exists>p q k. map_of (cf_data c) ''logs'' = Some p \<and> map_of (cf_data c) ''coroutine.stack_size'' = Some q \<and> p \<noteq> q
          \<and> map_of (cf_data c) ''coroutine'' = None
          \<and> cv_type (the_var c p) = logs_type \<and> cv_val (the_var c p) = LogDefines ds
          \<and> cv_cbs (the_var c p) = [(k, logs_listener env note)]
          \<and> cv_type (the_var c q) = stack_type \<and> cv_val (the_var c q) = StackSize n \<and> cv_cbs (the_var c q) = [])"

lemma names_ok [simp]: "only_chars name_chars ''logs''" "only_chars name_chars ''coroutine.stack_size''"
  "only_chars name_chars ''coroutine''" "map tolower ''logs'' = ''logs''"
  "map tolower ''coroutine.stack_size'' = ''coroutine.stack_size''" "map tolower ''coroutine'' = ''coroutine''"
  by (simp_all add: only_chars_def name_chars_def tolower_def)

lemma log_ok_system: "log_ok (snd (getLogger ''system'' manager_world))"
  by (rule log_ok_get [OF log_ok_manager prod.collapse [symmetric]])

lemma initialised_size: "initialised env note ds n c \<Longrightarrow> configured_size c = n"
  by (auto simp: initialised_def configured_size_def LookupBase_def getValue_def simp del: map_of_eq_Some_iff)

section \<open>Any order of initialisation\<close>

text \<open>The variable an initialiser registers.\<close>

fun registers :: "initialiser \<Rightarrow> (string \<times> string \<times> program_value \<times> string) option" where
  "registers Init_log_defines = Some (logs_type, ''logs'', LogDefines [], ''logs config'')"
| "registers Init_stack_size = Some (stack_type, ''coroutine.stack_size'', StackSize (1024 * 1024), ''coroutine stack size'')"
| "registers (Init_variable ty n v d) = Some (ty, n, v, d)"
| "registers _ = None"

definition registered_by :: "initialiser list \<Rightarrow> string list" where
  "registered_by inits = concat (map (\<lambda>i. case registers i of Some (ty, n, v, d) \<Rightarrow> [n] | None \<Rightarrow> []) inits)"

text \<open>
  An order the program can have: \<open>g_log_defines\<close> is initialised once and before \<open>__log_init\<close>, which is behind it in
  the same file; all variables of the library are there; the names that are registered are allowed and
  distinct, and an application registers nothing with the name \<open>coroutine\<close>, which would stand for the whole
  section of a document.
\<close>

definition possible_order :: "initialiser list \<Rightarrow> bool" where
  "possible_order inits \<longleftrightarrow> set library_statics \<subseteq> set inits
     \<and> (\<exists>a b. inits = a @ Init_log_init # b \<and> Init_log_defines \<in> set a \<and> Init_log_init \<notin> set a \<and> Init_log_init \<notin> set b)
     \<and> distinct (registered_by inits)
     \<and> (\<forall>n \<in> set (registered_by inits). only_chars name_chars n \<and> n \<noteq> ''coroutine'')"

lemma registered_by_append [simp]: "registered_by (a @ b) = registered_by a @ registered_by b"
  "registered_by [] = []"
  by (simp_all add: registered_by_def)

text \<open>The state when some of the initialisers have run.\<close>

definition listened :: "log_env \<Rightarrow> log_event \<Rightarrow> initialiser list \<Rightarrow> initialiser
    \<Rightarrow> (64 word \<times> (program_value, log_world) on_change) list \<Rightarrow> bool" where
  "listened env note before i cbs \<longleftrightarrow>
     (if i = Init_log_defines \<and> Init_log_init \<in> set before then \<exists>k. cbs = [(k, logs_listener env note)] else cbs = [])"

definition variables_made :: "log_env \<Rightarrow> log_event \<Rightarrow> initialiser list \<Rightarrow> (program_value, log_world) config \<Rightarrow> bool" where
  "variables_made env note before c \<longleftrightarrow> config_ok c \<and> dom (map_of (cf_data c)) = set (registered_by before)
     \<and> (\<forall>i \<in> set before. \<forall>ty n v d. registers i = Some (ty, n, v, d) \<longrightarrow>
          (\<exists>p cbs. map_of (cf_data c) n = Some p \<and> the_var c p = (new_ConfigVar ty n v d)\<lparr>cv_cbs := cbs\<rparr>
             \<and> listened env note before i cbs))"

definition loggers_made :: "initialiser list \<Rightarrow> statics \<Rightarrow> bool" where
  "loggers_made before s \<longleftrightarrow>
     (case st_manager s of
        None \<Rightarrow> cf_world (st_config s) = empty_log_world \<and> (\<forall>f n. Init_logger f n \<notin> set before)
      | Some m \<Rightarrow> (let w = cf_world (st_config s) in m = w_root w \<and> log_ok w
          \<and> dom (map_of (w_registry w)) = insert ''root'' {n. \<exists>f. Init_logger f n \<in> set before}
          \<and> (\<forall>f n. Init_logger f n \<in> set before \<longrightarrow> st_loggers s (f, n) = map_of (w_registry w) n)))"

definition statics_made :: "log_env \<Rightarrow> log_event \<Rightarrow> initialiser list \<Rightarrow> statics \<Rightarrow> bool" where
  "statics_made env note before s \<longleftrightarrow> variables_made env note before (st_config s) \<and> loggers_made before s
     \<and> (Init_log_defines \<in> set before \<longrightarrow> (\<exists>p. st_log_defines s = Some p \<and> map_of (cf_data (st_config s)) ''logs'' = Some p))"

lemma registered_in: "registers i = Some (ty, n, v, d) \<Longrightarrow> i \<in> set before \<Longrightarrow> n \<in> set (registered_by before)"
  by (force simp: registered_by_def)

text \<open>Two initialisers that register a name are the same one.\<close>

lemma registered_once:
  assumes "distinct (registered_by before)" and "i \<in> set before" "j \<in> set before"
    and "registers i = Some (ty, n, v, d)" "registers j = Some (ty', n, v', d')"
  shows "i = j"
proof (rule ccontr)
  assume diff: "i \<noteq> j"
  obtain a b where ab: "before = a @ i # b" using assms(2) by (meson split_list)
  then have "j \<in> set a \<or> j \<in> set b" using assms(3) diff by auto
  then have "n \<in> set (registered_by a) \<or> n \<in> set (registered_by b)" using registered_in [OF assms(5)] by blast
  moreover have "registered_by before = registered_by a @ n # registered_by b"
    using ab assms(4) by (simp add: registered_by_def)
  ultimately show False using assms(1) by auto
qed

text \<open>One initialiser more that registers a variable.\<close>

lemma lookup_made:
  assumes made: "variables_made env note before c" and i: "registers i = Some (ty, n, v, d)"
    and n: "n \<notin> set (registered_by before)" "only_chars name_chars n" and first: "Init_log_init \<notin> set before \<or> i \<noteq> Init_log_defines"
  shows "\<exists>c'. Lookup cfg ty n v d c = (Inr (Some (cf_next c)), c') \<and> variables_made env note (before @ [i]) c'
    \<and> cf_world c' = cf_world c \<and> map_of (cf_data c') = (map_of (cf_data c))(n \<mapsto> cf_next c)"
proof -
  let ?c' = "(put_var (cf_next c) (new_ConfigVar ty n v d) c)
    \<lparr>cf_next := cf_next c + 1, cf_data := smap_put n (cf_next c) (cf_data c)\<rparr>"
  have ok: "config_ok c" and names: "dom (map_of (cf_data c)) = set (registered_by before)"
    and old: "\<And>j ty' m v' d'. j \<in> set before \<Longrightarrow> registers j = Some (ty', m, v', d') \<Longrightarrow>
      \<exists>p cbs. map_of (cf_data c) m = Some p \<and> the_var c p = (new_ConfigVar ty' m v' d')\<lparr>cv_cbs := cbs\<rparr>
        \<and> listened env note before j cbs"
    using made unfolding variables_made_def by blast+
  have new: "map_of (cf_data c) n = None" using names n(1) by blast
  have old_p: "p < cf_next c" if "map_of (cf_data c) m = Some p" for m p
    using ok that by (force simp: config_ok_def simp del: map_of_eq_Some_iff)
  have i_not: "i \<noteq> Init_log_init" using i by auto
  have "dom (map_of (cf_data ?c')) = set (registered_by (before @ [i]))"
    using names i by (auto simp: registered_by_def)
  moreover have "\<exists>p cbs. map_of (cf_data ?c') m = Some p \<and> the_var ?c' p = (new_ConfigVar ty' m v' d')\<lparr>cv_cbs := cbs\<rparr>
      \<and> listened env note (before @ [i]) j cbs" if j: "j \<in> set (before @ [i])" "registers j = Some (ty', m, v', d')"
    for j ty' m v' d'
  proof (cases "j = i")
    case True
    with i j first i_not show ?thesis by (auto simp: listened_def new_ConfigVar_def)
  next
    case False
    with j have "j \<in> set before" by auto
    from old [OF this j(2)] registered_in [OF j(2) this] n(1) old_p i_not show ?thesis
      by (fastforce simp: listened_def simp del: map_of_eq_Some_iff)
  qed
  ultimately have "variables_made env note (before @ [i]) ?c'"
    unfolding variables_made_def using config_ok_enter [OF ok n(2)] by blast
  then show ?thesis using Lookup_new [OF new n(2)] by simp
qed

text \<open>The initialiser of \<open>__log_init\<close>.\<close>

lemma listener_made:
  assumes made: "variables_made env note before c" and once: "distinct (registered_by before)"
    and i: "Init_log_defines \<in> set before" "Init_log_init \<notin> set before" and p: "map_of (cf_data c) ''logs'' = Some p"
  shows "\<exists>c'. LogIniter env note (Some p) c = (Inr (), c') \<and> variables_made env note (before @ [Init_log_init]) c'
    \<and> cf_world c' = cf_world c \<and> cf_data c' = cf_data c"
proof -
  let ?c' = "snd (addListener p (logs_listener env note) c)"
  have ok: "config_ok c" and names: "dom (map_of (cf_data c)) = set (registered_by before)"
    and old: "\<And>j ty' m v' d'. j \<in> set before \<Longrightarrow> registers j = Some (ty', m, v', d') \<Longrightarrow>
      \<exists>p cbs. map_of (cf_data c) m = Some p \<and> the_var c p = (new_ConfigVar ty' m v' d')\<lparr>cv_cbs := cbs\<rparr>
        \<and> listened env note before j cbs"
    using made unfolding variables_made_def by blast+
  obtain x where x: "cf_vars c p = Some x" using config_ok_name [OF ok p] by blast
  have ok': "config_ok ?c'"
    using config_ok_put [of "c\<lparr>cf_fun_id := f\<rparr>" p x for f] x ok by (auto simp: addListener_def the_var_def Let_def)
  have same: "cf_data ?c' = cf_data c" "cf_world ?c' = cf_world c"
    and frame: "\<And>q. q \<noteq> p \<Longrightarrow> the_var ?c' q = the_var c q"
    and cbs: "the_var ?c' p = (the_var c p)\<lparr>cv_cbs := smap_put (cf_fun_id c (cv_type (the_var c p)) + 1)
      (logs_listener env note) (cv_cbs (the_var c p))\<rparr>"
    by (simp_all add: addListener_def Let_def)
  have "\<exists>q cbs. map_of (cf_data ?c') m = Some q \<and> the_var ?c' q = (new_ConfigVar ty' m v' d')\<lparr>cv_cbs := cbs\<rparr>
      \<and> listened env note (before @ [Init_log_init]) j cbs"
    if j: "j \<in> set (before @ [Init_log_init])" "registers j = Some (ty', m, v', d')" for j ty' m v' d'
  proof -
    have j': "j \<in> set before" using j by auto
    obtain q cs where q: "map_of (cf_data c) m = Some q" "the_var c q = (new_ConfigVar ty' m v' d')\<lparr>cv_cbs := cs\<rparr>"
      "listened env note before j cs" using old [OF j' j(2)] by blast
    show ?thesis
    proof (cases "j = Init_log_defines")
      case True
      with j(2) q(1) p have "q = p" by auto
      with True q i same cbs show ?thesis by (auto simp: listened_def new_ConfigVar_def simp del: map_of_eq_Some_iff)
    next
      case False
      have "m \<noteq> ''logs''"
        using registered_once [OF once j' i(1) j(2), of logs_type] False by fastforce
      then have "q \<noteq> p" using config_ok_name [OF ok q(1)] config_ok_name [OF ok p] by auto
      with False q same frame show ?thesis by (auto simp: listened_def simp del: map_of_eq_Some_iff)
    qed
  qed
  moreover have "registered_by (before @ [Init_log_init]) = registered_by before" by (simp add: registered_by_def)
  ultimately have "variables_made env note (before @ [Init_log_init]) ?c'"
    unfolding variables_made_def using ok' names same by simp
  with same show ?thesis by (simp add: LogIniter_def)
qed

text \<open>The initialiser of a logger.\<close>

lemma variables_made_other: "variables_made env note before c \<Longrightarrow> variables_made env note (before @ [Init_logger f n]) (c\<lparr>cf_world := w\<rparr>)"
  by (auto simp: variables_made_def listened_def registered_by_def config_ok_def simp del: map_of_eq_Some_iff)

lemma logger_made:
  assumes "loggers_made before s"
  shows "\<exists>s' w. static_logger f n s = (Inr (), s') \<and> loggers_made (before @ [Init_logger f n]) s'
    \<and> st_config s' = (st_config s)\<lparr>cf_world := w\<rparr> \<and> st_log_defines s' = st_log_defines s"
proof -
  obtain m w where get: "LoggerMgr_GetInstance (st_manager s, cf_world (st_config s)) = (Inr m, (Some m, w))"
    and ok: "log_ok w" "m = w_root w"
    and reg: "dom (map_of (w_registry w)) = insert ''root'' {n. \<exists>f. Init_logger f n \<in> set before}"
    and old: "\<And>f n. Init_logger f n \<in> set before \<Longrightarrow> st_loggers s (f, n) = map_of (w_registry w) n"
  proof (cases "st_manager s")
    case None
    with assms show thesis
      by (intro that [of 0 manager_world])
        (auto simp: loggers_made_def LoggerMgr_GetInstance_def GetInstance_def new_manager_world log_ok_manager)
  next
    case (Some m)
    with assms show thesis
      by (intro that [of m "cf_world (st_config s)"])
        (auto simp: loggers_made_def LoggerMgr_GetInstance_def GetInstance_def Let_def)
  qed
  obtain l w1 where log: "getLogger n w = (l, w1)" by (cases "getLogger n w")
  have w1: "map_of (w_registry w1) = (map_of (w_registry w))(n \<mapsto> l)" "w_root w1 = w_root w"
    using log by (cases "map_of (w_registry w) n"; auto simp: getLogger_new getLogger_found put_logger_def)+
  have same: "map_of (w_registry w) n = Some k \<Longrightarrow> k = l" for k using log by (simp add: getLogger_found)
  let ?s' = "s\<lparr>st_manager := Some m, st_loggers := (st_loggers s)((f, n) \<mapsto> l), st_config := (st_config s)\<lparr>cf_world := w1\<rparr>\<rparr>"
  have "st_loggers ?s' (g, k) = map_of (w_registry w1) k" if "Init_logger g k \<in> set (before @ [Init_logger f n])" for g k
  proof (cases "k = n")
    case True
    show ?thesis
    proof (cases "g = f")
      case False
      with that True have "Init_logger g n \<in> set before" by auto
      moreover from this reg obtain k' where "map_of (w_registry w) n = Some k'" by blast
      ultimately show ?thesis using old [of g n] same w1(1) True False by auto
    qed (simp add: True w1(1))
  next
    case False
    with that have "Init_logger g k \<in> set before" by auto
    with False old w1(1) show ?thesis by simp
  qed
  moreover have "dom (map_of (w_registry w1)) = insert ''root'' {k. \<exists>g. Init_logger g k \<in> set (before @ [Init_logger f n])}"
    unfolding w1(1) using reg by auto
  ultimately have "loggers_made (before @ [Init_logger f n]) ?s'"
    using ok w1 log_ok_get [OF ok(1) log] by (simp add: loggers_made_def Let_def)
  with get log show ?thesis by (auto simp: static_logger_def intro!: exI [of _ ?s'] exI [of _ w1])
qed

text \<open>Loggers are not touched by the initialisers of variables.\<close>

lemma loggers_made_other:
  assumes "loggers_made before s" and "\<And>f n. i \<noteq> Init_logger f n" and "st_manager s' = st_manager s"
    and "st_loggers s' = st_loggers s" and "cf_world (st_config s') = cf_world (st_config s)"
  shows "loggers_made (before @ [i]) s'"
  using assms(1,3-5) assms(2) [symmetric] by (simp add: loggers_made_def split: option.splits)

text \<open>Every initialiser succeeds in a possible order.\<close>

lemma initialise_made:
  assumes made: "statics_made env note before s" and once: "distinct (registered_by (before @ [i]))"
    and names: "\<forall>n \<in> set (registered_by (before @ [i])). only_chars name_chars n"
    and log_init: "i = Init_log_init \<Longrightarrow> Init_log_defines \<in> set before \<and> Init_log_init \<notin> set before"
    and log_defines: "i = Init_log_defines \<Longrightarrow> Init_log_init \<notin> set before"
  shows "\<exists>s'. initialise cfg env note i s = (Inr (), s') \<and> statics_made env note (before @ [i]) s'"
proof -
  have vars: "variables_made env note before (st_config s)" and logs: "loggers_made before s"
    and defs: "Init_log_defines \<in> set before \<Longrightarrow>
      \<exists>p. st_log_defines s = Some p \<and> map_of (cf_data (st_config s)) ''logs'' = Some p"
    using made unfolding statics_made_def by blast+
  show ?thesis
  proof (cases "registers i")
    case None
    show ?thesis
    proof (cases i)
      case Init_log_init
      with log_init defs obtain p where p: "st_log_defines s = Some p" "map_of (cf_data (st_config s)) ''logs'' = Some p"
        by blast
      from listener_made [OF vars _ _ _ p(2)] once log_init Init_log_init
      obtain c where c: "LogIniter env note (Some p) (st_config s) = (Inr (), c)"
        "variables_made env note (before @ [i]) c" "cf_world c = cf_world (st_config s)" "cf_data c = cf_data (st_config s)"
        by fastforce
      let ?s = "s\<lparr>st_config := c\<rparr>"
      have "loggers_made (before @ [i]) ?s" by (rule loggers_made_other [OF logs]) (simp_all add: Init_log_init c)
      with c p have "statics_made env note (before @ [i]) ?s" by (simp add: statics_made_def del: map_of_eq_Some_iff)
      with c p Init_log_init show ?thesis by (auto simp: on_config_def)
    next
      case (Init_logger f n)
      from logger_made [OF logs, of f n] obtain s' w where s': "static_logger f n s = (Inr (), s')"
        "loggers_made (before @ [i]) s'" "st_config s' = (st_config s)\<lparr>cf_world := w\<rparr>" "st_log_defines s' = st_log_defines s"
        unfolding Init_logger by blast
      with Init_logger variables_made_other [OF vars, of f n w] defs show ?thesis
        by (auto simp: statics_made_def simp del: map_of_eq_Some_iff)
    qed (use None in simp_all)
  next
    case (Some x)
    obtain ty n v d where x: "x = (ty, n, v, d)" by (cases x)
    have "n \<notin> set (registered_by before)" "only_chars name_chars n"
      using once names Some x by (auto simp: registered_by_def)
    from lookup_made [OF vars Some [unfolded x] this, of cfg] log_defines
    obtain c where c: "Lookup cfg ty n v d (st_config s) = (Inr (Some (cf_next (st_config s))), c)"
      "variables_made env note (before @ [i]) c" "cf_world c = cf_world (st_config s)"
      "map_of (cf_data c) = (map_of (cf_data (st_config s)))(n \<mapsto> cf_next (st_config s))" by blast
    let ?s = "s\<lparr>st_config := c, st_log_defines := (if i = Init_log_defines then Some (cf_next (st_config s)) else st_log_defines s)\<rparr>"
    have "loggers_made (before @ [i]) ?s"
      by (rule loggers_made_other [OF logs]) (use Some x c in auto)
    moreover have "\<exists>p. st_log_defines ?s = Some p \<and> map_of (cf_data c) ''logs'' = Some p"
      if "Init_log_defines \<in> set (before @ [i])"
    proof (cases "i = Init_log_defines")
      case True
      with Some x c show ?thesis by auto
    next
      case False
      with that have d: "Init_log_defines \<in> set before" by auto
      then have "n \<noteq> ''logs''"
        using \<open>n \<notin> set (registered_by before)\<close> registered_in [of Init_log_defines logs_type "''logs''"] by fastforce
      with defs [OF d] False c show ?thesis by auto
    qed
    ultimately have "statics_made env note (before @ [i]) ?s" using c by (simp add: statics_made_def)
    moreover have "initialise cfg env note i s = (Inr (), ?s)"
      using Some x c(1) by (cases i) (auto simp: on_config_def ebind_def emodify_def ereturn_def g_log_defines_def
          g_coroutine_stack_size_def)
    ultimately show ?thesis by blast
  qed
qed

lemma static_init_made:
  assumes "possible_order inits" and "inits = before @ rest"
  shows "\<exists>s. static_init cfg env note before nothing_yet = (Inr (), s) \<and> statics_made env note before s"
  using assms(2)
proof (induction before arbitrary: rest rule: rev_induct)
  case Nil
  then show ?case
    by (auto simp: static_init_def statics_made_def variables_made_def loggers_made_def nothing_yet_def config_ok_def)
next
  case (snoc i before)
  then obtain s where s: "static_init cfg env note before nothing_yet = (Inr (), s)" "statics_made env note before s"
    by auto
  have all: "inits = (before @ [i]) @ rest" using snoc.prems by simp
  have "registered_by inits = registered_by (before @ [i]) @ registered_by rest"
    unfolding all by (simp only: registered_by_append)
  then have once: "distinct (registered_by (before @ [i]))"
    and names: "\<forall>n \<in> set (registered_by (before @ [i])). only_chars name_chars n"
    using assms(1) unfolding possible_order_def by (simp_all del: registered_by_append)
  obtain a b where ab: "inits = a @ Init_log_init # b" "Init_log_defines \<in> set a" "Init_log_init \<notin> set a" "Init_log_init \<notin> set b"
    using assms(1) unfolding possible_order_def by blast
  have prefix: "before @ i # rest = a @ Init_log_init # b" using ab(1) all by simp
  have "before = a" if "i = Init_log_init"
    using prefix ab(3,4) that by (auto simp: append_eq_append_conv2 append_eq_Cons_conv Cons_eq_append_conv)
  moreover have "Init_log_init \<notin> set before" if i: "i = Init_log_defines"
  proof
    assume "Init_log_init \<in> set before"
    then obtain c d where "before = c @ Init_log_init # d" by (meson split_list)
    with prefix have "c @ Init_log_init # (d @ i # rest) = a @ Init_log_init # b" by simp
    then have "c = a" using ab(3,4) by (auto simp: append_eq_append_conv2 append_eq_Cons_conv Cons_eq_append_conv)
    then have "i \<in> set before" using i ab(2) \<open>before = c @ Init_log_init # d\<close> by simp
    with registered_in [of i logs_type "''logs''"] once i show False by (fastforce simp: registered_by_def)
  qed
  ultimately obtain s' where "initialise cfg env note i s = (Inr (), s')" "statics_made env note (before @ [i]) s'"
    using initialise_made [OF s(2) once names] ab by blast
  with s(1) show ?case by (auto simp: static_init_def efor_append ebind_def)
qed

lemma static_init_ok:
  assumes "possible_order inits"
  shows "\<exists>s. static_init cfg env note inits nothing_yet = (Inr (), s)
     \<and> statics_made env note inits s \<and> initialised env note [] (1024 * 1024) (st_config s)"
proof -
  obtain s where s: "static_init cfg env note inits nothing_yet = (Inr (), s)" "statics_made env note inits s"
    using static_init_made [OF assms, of inits "[]" cfg env "note"] by auto
  have lib: "Init_log_defines \<in> set inits" "Init_log_init \<in> set inits" "Init_stack_size \<in> set inits"
    "Init_logger ''util.cpp'' ''system'' \<in> set inits" and no_section: "''coroutine'' \<notin> set (registered_by inits)"
    using assms by (auto simp: possible_order_def library_statics_def)
  have vars: "variables_made env note inits (st_config s)" and logs: "loggers_made inits s"
    using s(2) unfolding statics_made_def by blast+
  have "log_ok (cf_world (st_config s))"
    using logs lib(4) by (auto simp: loggers_made_def Let_def split: option.splits)
  moreover have "dom (map_of (cf_data (st_config s))) = set (registered_by inits)"
    using vars unfolding variables_made_def by blast
  then have "map_of (cf_data (st_config s)) ''coroutine'' = None" using no_section by blast
  moreover obtain p k where p: "map_of (cf_data (st_config s)) ''logs'' = Some p"
    "the_var (st_config s) p = (new_ConfigVar logs_type ''logs'' (LogDefines []) ''logs config'')\<lparr>cv_cbs := [(k, logs_listener env note)]\<rparr>"
    using vars lib(1,2) unfolding variables_made_def listened_def by fastforce
  moreover obtain q where q: "map_of (cf_data (st_config s)) ''coroutine.stack_size'' = Some q"
    "the_var (st_config s) q =
       new_ConfigVar stack_type ''coroutine.stack_size'' (StackSize (1024 * 1024)) ''coroutine stack size''\<lparr>cv_cbs := []\<rparr>"
    using vars lib(3) unfolding variables_made_def listened_def by fastforce
  moreover have "p \<noteq> q" using p(2) q(2) by (auto simp: new_ConfigVar_def)
  ultimately have "initialised env note [] (1024 * 1024) (st_config s)"
    unfolding initialised_def by (simp add: new_ConfigVar_def del: map_of_eq_Some_iff)
  with s show ?thesis by blast
qed

text \<open>C19. Static initialisation succeeds in every order the program can have. Take the initialisers of the
  library's variables with static storage duration and any number of an application's own ones (loggers, and
  configuration variables of the two value types the library itself uses), in any order in which \<open>g_log_defines\<close> comes before the \<open>__log_init\<close> of its file, where all registered names
  are allowed, distinct and not \<open>coroutine\<close>. From nothing, none of them fails; afterwards \<open>logs\<close> is
  registered with no definitions and one listener, \<open>coroutine.stack_size\<close> with 1 MiB and none, and so
  is every variable of the application with its default; exactly these names are registered; one manager
  was constructed, its registry has the root logger and the loggers that were asked for and no others, they
  are well formed, every initialiser that asked for a name got the logger of that name, and so every
  \<open>g_logger\<close> of the library is the one logger \<open>system\<close>.\<close>

theorem static_init_ready:
  assumes "possible_order inits"
  shows "\<exists>s system. static_init cfg env note inits nothing_yet = (Inr (), s)
     \<and> initialised env note [] (1024 * 1024) (st_config s)
     \<and> (\<forall>ty n v d. Init_variable ty n v d \<in> set inits \<longrightarrow>
          (\<exists>p. LookupBase n (st_config s) = Some p \<and> the_var (st_config s) p = new_ConfigVar ty n v d))
     \<and> dom (map_of (cf_data (st_config s))) = set (registered_by inits)
     \<and> st_manager s = Some (w_root (cf_world (st_config s)))
     \<and> dom (map_of (w_registry (cf_world (st_config s)))) = insert ''root'' {n. \<exists>f. Init_logger f n \<in> set inits}
     \<and> (\<forall>f n. Init_logger f n \<in> set inits \<longrightarrow> st_loggers s (f, n) = map_of (w_registry (cf_world (st_config s))) n)
     \<and> (\<forall>f \<in> {''coroutine.cpp'', ''schedule.cpp'', ''thread.cpp'', ''util.cpp''}. st_loggers s (f, ''system'') = Some system)"
proof -
  obtain s where s: "static_init cfg env note inits nothing_yet = (Inr (), s)" "statics_made env note inits s"
    "initialised env note [] (1024 * 1024) (st_config s)" using static_init_ok [OF assms] by blast
  have lib: "Init_logger f ''system'' \<in> set inits" if "f \<in> {''coroutine.cpp'', ''schedule.cpp'', ''thread.cpp'', ''util.cpp''}" for f
    using assms that by (auto simp: possible_order_def library_statics_def)
  have vars: "variables_made env note inits (st_config s)" and logs: "loggers_made inits s"
    using s(2) unfolding statics_made_def by blast+
  have app: "\<forall>ty n v d. Init_variable ty n v d \<in> set inits \<longrightarrow>
      (\<exists>p. LookupBase n (st_config s) = Some p \<and> the_var (st_config s) p = new_ConfigVar ty n v d)"
  proof (intro allI impI)
    fix ty n v d
    assume "Init_variable ty n v d \<in> set inits"
    with vars obtain p cbs where p: "map_of (cf_data (st_config s)) n = Some p"
      "the_var (st_config s) p = (new_ConfigVar ty n v d)\<lparr>cv_cbs := cbs\<rparr>" "listened env note inits (Init_variable ty n v d) cbs"
      unfolding variables_made_def by (meson registers.simps(3))
    then have "cbs = []" by (simp add: listened_def)
    with p(1,2) show "\<exists>p. LookupBase n (st_config s) = Some p \<and> the_var (st_config s) p = new_ConfigVar ty n v d"
      by (simp add: LookupBase_def new_ConfigVar_def)
  qed
  have util: "Init_logger ''util.cpp'' ''system'' \<in> set inits" by (rule lib) simp
  have reg: "st_manager s = Some (w_root (cf_world (st_config s)))"
    "dom (map_of (w_registry (cf_world (st_config s)))) = insert ''root'' {n. \<exists>f. Init_logger f n \<in> set inits}"
    "\<forall>f n. Init_logger f n \<in> set inits \<longrightarrow> st_loggers s (f, n) = map_of (w_registry (cf_world (st_config s))) n"
    using logs util by (auto simp: loggers_made_def Let_def split: option.splits)
  have "''system'' \<in> dom (map_of (w_registry (cf_world (st_config s))))"
    unfolding reg(2) using util by blast
  then obtain system where "map_of (w_registry (cf_world (st_config s))) ''system'' = Some system" by blast
  then have system: "Init_logger f ''system'' \<in> set inits \<Longrightarrow> st_loggers s (f, ''system'') = Some system" for f
    using reg(3) by simp
  have one: "\<forall>f \<in> {''coroutine.cpp'', ''schedule.cpp'', ''thread.cpp'', ''util.cpp''}. st_loggers s (f, ''system'') = Some system"
    by (rule ballI) (rule system, rule lib)
  have names: "dom (map_of (cf_data (st_config s))) = set (registered_by inits)"
    using vars unfolding variables_made_def by blast
  show ?thesis
    by (intro exI [of _ s] exI [of _ system] conjI)
      (rule s(1), rule s(3), rule app, rule names, rule reg(1), rule reg(2), rule reg(3), rule one)
qed

text \<open>The library's own order, and one with an application's file in the middle.\<close>

lemma library_order: "possible_order library_statics"
proof -
  have "library_statics = [Init_log_defines] @ Init_log_init # drop 2 library_statics" "Init_log_init \<notin> set (drop 2 library_statics)"
    by (simp_all add: library_statics_def)
  moreover have "registered_by library_statics = [''logs'', ''coroutine.stack_size'']"
    by (simp add: registered_by_def library_statics_def)
  ultimately show ?thesis
    unfolding possible_order_def by (intro conjI exI [of _ "[Init_log_defines]"] exI [of _ "drop 2 library_statics"]) simp_all
qed

definition application_statics :: "initialiser list" where
  "application_statics = rev (drop 3 library_statics) @ [Init_variable stack_type ''port'' (StackSize 80) [],
     Init_logger ''main.cpp'' ''web'', Init_stack_size, Init_log_defines] @ [Init_log_init]"

theorem static_init_ready_witness:
  "possible_order application_statics
   \<and> (\<exists>s p. static_init (program_env tree_yaml (\<lambda>_. Inl (Throw [])) (\<lambda>_. Inr []) (\<lambda>_ w. w)) example_env example_event
          application_statics nothing_yet = (Inr (), s)
        \<and> LookupBase ''port'' (st_config s) = Some p \<and> getValue (st_config s) p = StackSize 80)"
proof -
  have "registered_by application_statics = [''port'', ''coroutine.stack_size'', ''logs'']"
    by (simp add: registered_by_def application_statics_def library_statics_def)
  moreover have "only_chars name_chars ''port''" by (simp add: only_chars_def name_chars_def)
  moreover have "application_statics = butlast application_statics @ Init_log_init # []"
    "Init_log_defines \<in> set (butlast application_statics)" "Init_log_init \<notin> set (butlast application_statics)"
    "set library_statics \<subseteq> set application_statics"
    by (simp_all add: application_statics_def library_statics_def)
  ultimately have order: "possible_order application_statics"
    unfolding possible_order_def by (intro conjI exI [of _ "butlast application_statics"] exI [of _ "[]"]) simp_all
  obtain s where s: "static_init (program_env tree_yaml (\<lambda>_. Inl (Throw [])) (\<lambda>_. Inr []) (\<lambda>_ w. w)) example_env
      example_event application_statics nothing_yet = (Inr (), s)"
    and app: "\<And>ty n v d. Init_variable ty n v d \<in> set application_statics \<Longrightarrow>
      \<exists>p. LookupBase n (st_config s) = Some p \<and> the_var (st_config s) p = new_ConfigVar ty n v d"
    using static_init_ready [OF order, of "program_env tree_yaml (\<lambda>_. Inl (Throw [])) (\<lambda>_. Inr []) (\<lambda>_ w. w)"
      example_env example_event] by (elim exE conjE) metis
  obtain p where p: "LookupBase ''port'' (st_config s) = Some p"
    "the_var (st_config s) p = new_ConfigVar stack_type ''port'' (StackSize 80) []"
    using app [of stack_type "''port''" "StackSize 80" "[]"] by (auto simp: application_statics_def)
  have "getValue (st_config s) p = StackSize 80" by (simp add: getValue_def p(2) new_ConfigVar_def)
  with order s p(1) show ?thesis by blast
qed

end
