(* ===== verification/Program_Start.thy ===== *)
theory Program_Start
  imports Program_Statics Coroutine
begin

text \<open>
  What loading a document does, in the program as it is after static initialisation, to loggers and to new
  coroutines.
\<close>

section \<open>Loading the definitions of loggers\<close>

text \<open>What the library documents of the kinds of nodes.\<close>

definition yaml_kinds :: "'n yaml \<Rightarrow> bool" where
  "yaml_kinds Y \<longleftrightarrow>
     (\<forall>ps. ps \<noteq> [] \<and> distinct (map fst ps) \<longrightarrow> y_IsMap Y (y_map Y ps) \<and> \<not> y_IsScalar Y (y_map Y ps))
     \<and> (\<forall>ns. \<not> y_IsMap Y (y_seq Y ns) \<and> \<not> y_IsScalar Y (y_seq Y ns))
     \<and> (\<forall>s. y_IsScalar Y (y_str Y s) \<and> \<not> y_IsMap Y (y_str Y s))"

lemma yaml_kindsD:
  assumes "yaml_kinds Y"
  shows "ps \<noteq> [] \<Longrightarrow> distinct (map fst ps) \<Longrightarrow> y_IsMap Y (y_map Y ps)" "\<not> y_IsMap Y (y_seq Y ns)"
    "\<not> y_IsScalar Y (y_seq Y ns)" "y_IsScalar Y (y_str Y s)" "\<not> y_IsMap Y (y_str Y s)"
    "ps \<noteq> [] \<Longrightarrow> distinct (map fst ps) \<Longrightarrow> \<not> y_IsScalar Y (y_map Y ps)"
  using assms unfolding yaml_kinds_def by blast+

lemma tree_kinds: "yaml_kinds tree_yaml"
  unfolding yaml_kinds_def
  by (intro conjI allI impI; (elim conjE)?)
    (simp_all add: tree_map tree_seq, simp_all add: tree_yaml_def)

text \<open>The document \<open>logs: n\<close>, and the members it has.\<close>

lemma one_key_members:
  assumes "yaml_laws Y" and "yaml_kinds Y" and "\<not> y_IsMap Y n" and "only_chars name_chars key"
  shows "ListAllMember rep Y (Suc (Suc d)) [] (y_map Y [(key, n)]) (w, []) =
    (Inr (), (w, [([], y_map Y [(key, n)]), (key, n)]))"
  using assms yaml_kindsD(1) [OF assms(2), of "[(key, n)]"] yaml_lawsD(3) [OF assms(1), of "[(key, n)]"]
    yaml_lawsD(6) [OF assms(1)]
  by (simp add: join_def only_chars_def)

lemma LoadFromYaml_key:
  assumes laws: "yaml_laws Y" "yaml_kinds Y" and n: "\<not> y_IsMap Y n" "\<not> y_IsScalar Y n"
    and key: "only_chars name_chars key" "map tolower key = key" "key \<noteq> []" and p: "map_of (cf_data c) key = Some p"
    and d: "1 < d"
  shows "LoadFromYaml cfg Y d (y_map Y [(key, n)]) c =
    (case fromString cfg p (y_Emit Y n) c of (r, c1) \<Rightarrow> (case r of Inl e \<Rightarrow> Inl e | Inr _ \<Rightarrow> Inr (), c1))"
proof -
  have e: "d = Suc (Suc (d - 2))" using d by arith
  obtain r c1 where f: "fromString cfg p (y_Emit Y n) c = (r, c1)" by (cases "fromString cfg p (y_Emit Y n) c")
  have root: "load_node cfg Y ([], y_map Y [(key, n)]) c = (Inr (), c)" by (simp add: load_node_def)
  have node: "load_node cfg Y (key, n) c = ((case r of Inl e \<Rightarrow> Inl e | Inr _ \<Rightarrow> Inr ()), c1)"
    unfolding load_node_def LookupBase_def using key(2,3) p n(2) f
    by (simp add: node_text_def del: map_of_eq_Some_iff split: sum.split)
  show ?thesis
    unfolding LoadFromYaml_def
    by (subst e) (use root node f in \<open>simp only: one_key_members [OF laws n(1) key(1)] prod.case sum.case efor.simps,
      simp split: sum.split\<close>)
qed

lemma ld_eq_refl: "list_all2 ld_eq ds ds"
proof -
  have "list_all2 lad_eq aps aps" for aps by (induction aps) (simp_all add: lad_eq_def)
  then show ?thesis by (induction ds) (simp_all add: ld_eq_def)
qed

text \<open>The text of a set of definitions is that of a node, and it is read back.\<close>

definition writable_define :: "log_define \<Rightarrow> bool" where
  "writable_define i \<longleftrightarrow> ld_level i \<noteq> REMOVED \<and> (\<forall>ad \<in> set (ld_appenders i). writable_lad ad)"

lemma LogDefine_survives:
  assumes "yaml_laws Y" and "writable_define i"
  shows "survives Y (\<lambda>s. fst (LogDefine_from_str Y s [])) (LogDefine_to_str Y) i"
proof -
  obtain s where s: "LogDefine_to_str Y i = Inr s" "LogDefine_from_str Y s [] = (Inr i, [])"
    using LogDefine_reads_back [OF assms(1)] assms(2) unfolding writable_define_def by blast
  from s(2) obtain n where n: "y_Load Y s = Inr n" by (cases "y_Load Y s") (auto simp: LogDefine_from_str_def)
  then have "y_Load Y (y_Emit Y n) = Inr n" by (rule yaml_lawsD(1) [OF assms(1) yaml_node.loaded])
  with n have "LogDefine_from_str Y (y_Emit Y n) = LogDefine_from_str Y s" by (simp add: LogDefine_from_str_def)
  with s n show ?thesis by (auto simp: survives_def)
qed

lemma logs_text:
  assumes laws: "yaml_laws Y" and "sorted_wrt ld_less ds" and "\<forall>i \<in> set ds. writable_define i"
  shows "\<exists>ns. logs_to_str Y ds = Inr (y_Emit Y (y_seq Y ns)) \<and> logs_from_str Y (y_Emit Y (y_seq Y ns)) = Inr ds"
proof -
  have "\<forall>i \<in> set ds. survives Y (\<lambda>s. fst (LogDefine_from_str Y s [])) (LogDefine_to_str Y) i"
    using assms(3) LogDefine_survives [OF laws] by blast
  then obtain ns where ns: "load_items Y (LogDefine_to_str Y) ds = Inr ns"
    "cast_items Y (\<lambda>s. fst (LogDefine_from_str Y s [])) ns = Inr ds" "yaml_node Y (y_seq Y ns)"
    using load_cast_items by blast
  have "fold (oset_insert ld_less) ds [] = [] @ ds"
    by (rule fold_oset_insert_sorted) (use assms(2) in \<open>auto simp: ld_less_def\<close>)
  with ns show ?thesis
    by (intro exI [of _ ns]) (simp add: logs_to_str_def set_to_str_def logs_from_str_def set_from_str_def yaml_lawsD(1,2) [OF laws])
qed

text \<open>Reading the text of definitions, after an initialised program.\<close>

lemma fromString_logs:
  assumes init: "initialised env note old n c" and p: "map_of (cf_data c) ''logs'' = Some p"
    and s: "logs_from_str Y s = Inr new" and differs: "\<not> oset_eq ld_eq new old"
    and run: "log_listener env note old new (cf_world c) = (Inr (), w)"
  shows "fromString (program_env Y parse print rep) p s c =
    (Inr True, put_var p ((the_var c p)\<lparr>cv_val := LogDefines new\<rparr>) (c\<lparr>cf_world := w\<rparr>))"
  using init p differs s run
  by (auto simp: initialised_def fromString_def setValue_def program_env_def call_listener_def logs_listener_def Let_def
      ebind_def)

lemma fromString_same_logs:
  assumes init: "initialised env note new n c" and p: "map_of (cf_data c) ''logs'' = Some p"
    and s: "logs_from_str Y s = Inr new"
  shows "fromString (program_env Y parse print rep) p s c = (Inr True, c)"
  using init p s ld_eq_refl
  by (auto simp: initialised_def fromString_def setValue_def program_env_def Let_def oset_eq_def)

lemma initialised_stored:
  assumes "initialised env note old n c" and "map_of (cf_data c) ''logs'' = Some p" and "log_ok w"
  shows "initialised env note new n (put_var p ((the_var c p)\<lparr>cv_val := LogDefines new\<rparr>) (c\<lparr>cf_world := w\<rparr>))"
  using assms by (auto simp: initialised_def the_var_def put_var_def)

section \<open>The program as a whole\<close>

lemma loading_logs:
  assumes laws: "yaml_laws Y" "yaml_kinds Y" and init: "initialised env note old n c"
    and sorted: "sorted_wrt ld_less new" and new: "\<forall>i \<in> set new. writable_define i" and d: "1 < d"
    and changed: "\<forall>i \<in> set new. \<forall>it. oset_find ld_less i old = Some it \<longrightarrow> \<not> ld_eq i it"
    and differs: "\<not> oset_eq ld_eq new old"
  shows "\<exists>node c'. logs_to_str Y new = Inr (y_Emit Y node)
    \<and> LoadFromYaml (program_env Y parse print rep) Y d (y_map Y [(''logs'', node)]) c = (Inr (), c')
    \<and> initialised env note new n c'
    \<and> (\<forall>i \<in> set new. is_defined (cf_world c') i (w_next (cf_world c)) (w_next (cf_world c')))
    \<and> (\<forall>i \<in> set old. ld_name i \<notin> ld_name ` set new \<longrightarrow> silent (cf_world c') (ld_name i))
    \<and> others_same (ld_name ` (set old \<union> set new)) (cf_world c) (cf_world c')
    \<and> LoadFromYaml (program_env Y parse print rep) Y d (y_map Y [(''logs'', node)]) c' = (Inr (), c')"
proof -
  let ?cfg = "program_env Y parse print rep"
  obtain p where p: "map_of (cf_data c) ''logs'' = Some p"
    using init unfolding initialised_def by blast
  obtain ns where ns: "logs_to_str Y new = Inr (y_Emit Y (y_seq Y ns))" "logs_from_str Y (y_Emit Y (y_seq Y ns)) = Inr new"
    using logs_text [OF laws(1) sorted new] by blast
  have known: "\<forall>i \<in> set new. \<forall>ad \<in> set (ld_appenders i). ad_type ad \<noteq> AtUnknown"
    using new by (auto simp: writable_define_def writable_lad_def)
  have dist: "distinct (map ld_name new)"
    using sorted by (induction new) (auto simp: ld_less_def)
  obtain w where w: "log_listener env note old new (cf_world c) = (Inr (), w)" "log_ok w"
    "\<forall>i \<in> set new. is_defined w i (w_next (cf_world c)) (w_next w)"
    "\<forall>i \<in> set old. ld_name i \<notin> ld_name ` set new \<longrightarrow> silent w (ld_name i)"
    "others_same (ld_name ` (set old \<union> set new)) (cf_world c) w"
    using log_listener_applies [OF _ dist known changed, of "cf_world c" env "note"] init
    unfolding initialised_def by blast
  let ?c' = "put_var p ((the_var c p)\<lparr>cv_val := LogDefines new\<rparr>) (c\<lparr>cf_world := w\<rparr>)"
  have stored: "initialised env note new n ?c'" by (rule initialised_stored [OF init p w(2)])
  have p': "map_of (cf_data ?c') ''logs'' = Some p" using p by (simp add: put_var_def)
  note loads = LoadFromYaml_key [OF laws yaml_kindsD(2,3) [OF laws(2)] names_ok(1,4) _ _ d, of _ p ?cfg ns]
  have "LoadFromYaml ?cfg Y d (y_map Y [(''logs'', y_seq Y ns)]) c = (Inr (), ?c')"
    using loads [OF _ p] by (simp add: fromString_logs [OF init p ns(2) differs w(1)])
  moreover have "LoadFromYaml ?cfg Y d (y_map Y [(''logs'', y_seq Y ns)]) ?c' = (Inr (), ?c')"
    using loads [OF _ p'] by (simp add: fromString_same_logs [OF stored p' ns(2)])
  ultimately show ?thesis
    using ns(1) stored w(3-5)
    by (intro exI [of _ "y_seq Y ns"] exI [of _ ?c']) (simp add: put_var_def)
qed


section \<open>The stack size of coroutines\<close>

text \<open>The document \<open>coroutine: stack_size: s\<close>.\<close>

definition stack_document :: "'n yaml \<Rightarrow> string \<Rightarrow> 'n" where
  "stack_document Y s = y_map Y [(''coroutine'', y_map Y [(''stack_size'', y_str Y s)])]"

lemma stack_names: "only_chars name_chars ''coroutine.stack_size''" "only_chars name_chars []"
  "join ''coroutine'' ''stack_size'' = ''coroutine.stack_size''" "join [] ''coroutine'' = ''coroutine''"
  by (simp_all add: join_def only_chars_def name_chars_def)

lemma stack_members:
  assumes "yaml_laws Y" and "yaml_kinds Y"
  shows "ListAllMember rep Y (Suc (Suc (Suc d))) [] (stack_document Y s) (w, []) =
    (Inr (), (w, [([], stack_document Y s), (''coroutine'', y_map Y [(''stack_size'', y_str Y s)]),
                  (''coroutine.stack_size'', y_str Y s)]))"
proof -
  have m: "y_IsMap Y (y_map Y [(k, n)])" "y_entries Y (y_map Y [(k, n)]) = [(y_str Y k, n)]" for k n
    using yaml_kindsD(1) [OF assms(2), of "[(k, n)]"] yaml_lawsD(3) [OF assms(1), of "[(k, n)]"] by simp_all
  show ?thesis
    by (simp add: stack_document_def m yaml_lawsD(6) [OF assms(1)] yaml_kindsD(5) [OF assms(2)] stack_names names_ok)
qed

lemma fromString_stack:
  assumes init: "initialised env note ds n c" and q: "map_of (cf_data c) ''coroutine.stack_size'' = Some q"
    and s: "parse s = Inr k"
  shows "\<exists>c'. fromString (program_env Y parse print rep) q s c = (Inr True, c') \<and> initialised env note ds k c'
    \<and> cf_world c' = cf_world c"
proof (cases "k = n")
  case True
  with assms have "fromString (program_env Y parse print rep) q s c = (Inr True, c)"
    by (auto simp: initialised_def fromString_def setValue_def program_env_def stack_type_def logs_type_def)
  with init True show ?thesis by blast
next
  case False
  let ?c' = "put_var q ((the_var c q)\<lparr>cv_val := StackSize k\<rparr>) c"
  have "fromString (program_env Y parse print rep) q s c = (Inr True, ?c')"
    using False assms by (auto simp: initialised_def fromString_def setValue_def program_env_def stack_type_def logs_type_def)
  moreover have "initialised env note ds k ?c'"
    using init q by (auto simp: initialised_def the_var_def put_var_def)
  ultimately show ?thesis by (auto simp: put_var_def)
qed

text \<open>C30. Loading \<open>coroutine: stack_size: s\<close> with a text that \<open>lexical_cast\<close> accepts changes the size of
  the coroutines that are created afterwards without a size of their own, and nothing else: not the
  definitions of loggers, not the loggers, not the coroutines that ask for a size.\<close>

theorem stack_size_configured:
  assumes laws: "yaml_laws Y" "yaml_kinds Y" and init: "initialised env note ds n c" and parse: "parse s = Inr k"
    and d: "2 < d"
  shows "\<exists>c'. LoadFromYaml (program_env Y parse print rep) Y d (stack_document Y s) c = (Inr (), c')
    \<and> initialised env note ds k c' \<and> cf_world c' = cf_world c
    \<and> (\<forall>a cb size use_caller m. c_stacksize (cget (new_cort (configured_size c') a cb size use_caller m) a) =
          (if size = 0 then k else size))"
proof -
  obtain q where q: "map_of (cf_data c) ''coroutine.stack_size'' = Some q" "map_of (cf_data c) ''coroutine'' = None"
    using init unfolding initialised_def by blast
  obtain c' where c': "fromString (program_env Y parse print rep) q s c = (Inr True, c')"
    "initialised env note ds k c'" "cf_world c' = cf_world c"
    using fromString_stack [where parse = parse, OF init q(1) parse] by blast
  let ?load = "load_node (program_env Y parse print rep) Y"
  have nodes: "?load ([], n1) c = (Inr (), c)" "?load (''coroutine'', n2) c = (Inr (), c)"
    "?load (''coroutine.stack_size'', y_str Y s) c = (Inr (), c')" for n1 n2
    using q c'(1) yaml_kindsD(4) [OF laws(2)] yaml_lawsD(6) [OF laws(1)]
    by (simp_all add: load_node_def LookupBase_def node_text_def tolower_def del: map_of_eq_Some_iff)
  have e: "d = Suc (Suc (Suc (d - 3)))" using d by arith
  have "LoadFromYaml (program_env Y parse print rep) Y d (stack_document Y s) c = (Inr (), c')"
    unfolding LoadFromYaml_def
    by (subst e) (simp only: stack_members [OF laws] prod.case sum.case efor.simps, simp add: nodes)
  with c'(2,3) initialised_size [OF c'(2)] show ?thesis
    by (intro exI [of _ c']) (simp add: new_cort_def cget_def)
qed

section \<open>A start of the program\<close>

text \<open>A logger with one appender on the standard output, loaded from a document after the start.\<close>

definition web_define :: log_define where
  "web_define = \<lparr>ld_name = ''web'', ld_level = WARN, ld_formatter = ''%m'',
     ld_appenders = [\<lparr>ad_type = AtStd, ad_level = INFO, ad_formatter = [], ad_file = []\<rparr>]\<rparr>"


theorem stack_size_configured_witness:
  "\<exists>c c'. initialised example_env example_event [] (1024 * 1024) c
    \<and> LoadFromYaml (program_env tree_yaml (\<lambda>s. Inr (of_nat (length s))) (\<lambda>_. Inr []) (\<lambda>_ w. w)) tree_yaml 3
        (stack_document tree_yaml ''xxx'') c = (Inr (), c')
    \<and> configured_size c' = 3"
proof -
  obtain c where c: "initialised example_env example_event [] (1024 * 1024) c"
    using static_init_ok [OF library_order, of _ example_env example_event] by blast
  with stack_size_configured [OF tree_laws tree_kinds c, where parse = "\<lambda>s. Inr (of_nat (length s))" and s = "''xxx''"
      and k = 3 and d = 3 and print = "\<lambda>_. Inr []" and rep = "\<lambda>_ w. w"] initialised_size
  show ?thesis by fastforce
qed

end
