(* ===== verification/Program_Logs.thy ===== *)
theory Program_Logs
  imports Program_Start Log_Macros
begin

text \<open>
  From a document to the console: a configuration is loaded, a logger is looked up by name and a record
  is logged with a macro. What appears is written in terms of the definition alone.
\<close>

section \<open>What a definition writes\<close>

text \<open>The formatter of an appender that is defined by \<open>ad\<close> in a logger whose own formatter is \<open>f\<close>.\<close>

definition effective_formatter :: "formatter \<Rightarrow> log_appender_define \<Rightarrow> formatter" where
  "effective_formatter f ad =
     (if ad_formatter ad \<noteq> [] \<and> \<not> formatter.m_error (LogFormatter (ad_formatter ad))
      then LogFormatter (ad_formatter ad) else f)"

definition defined_line :: "log_env \<Rightarrow> formatter \<Rightarrow> level \<Rightarrow> log_event \<Rightarrow> log_appender_define \<Rightarrow> string" where
  "defined_line env f lev ev ad =
     (if ad_type ad = AtStd \<and> lev \<ge> ad_level ad
      then GetColorMap lev @ formatter_format (strftime env) (effective_formatter f ad) lev ev @ CHR 0x1B # ''[0m''
      else [])"

definition defined_text :: "log_env \<Rightarrow> log_define \<Rightarrow> level \<Rightarrow> log_event \<Rightarrow> string" where
  "defined_text env i lev ev =
     (if lev < ld_level i then []
      else concat (map (defined_line env (LogFormatter (ld_formatter i)) lev ev) (ld_appenders i)))"

lemma stdout_text_defined:
  assumes "ap_matches w (Some f) ad a" and "ad_type ad \<noteq> AtUnknown"
  shows "stdout_text env w lev ev a = defined_line env f lev ev ad"
  using assms by (cases "ad_type ad")
    (auto simp: ap_matches_def stdout_text_def defined_line_def effective_formatter_def the_appender_def kind_of_def Let_def)

lemma concat_defined:
  assumes "list_all2 (ap_matches w (Some f)) ads as" and "\<forall>ad \<in> set ads. ad_type ad \<noteq> AtUnknown"
  shows "concat (map (stdout_text env w lev ev) as) = concat (map (defined_line env f lev ev) ads)"
  using assms by (induction rule: list_all2_induct) (simp_all add: stdout_text_defined)

text \<open>A logger that is what its definition says writes the definition's text.\<close>

lemma defined_logs:
  assumes ok: "log_ok w" and i: "is_defined w i m n" and known: "\<forall>ad \<in> set (ld_appenders i). ad_type ad \<noteq> AtUnknown"
    and f: "ld_formatter i \<noteq> []" "\<not> formatter.m_error (LogFormatter (ld_formatter i))" and some: "ld_appenders i \<noteq> []"
  shows "\<exists>l w' ev. MOCKER_LOG_NAME (ld_name i) w = (l, w)
    \<and> MOCKER_LOG_LEVEL env cl src line l lev content w = (Inr (), w') \<and> log_ok w'
    \<and> w_cout w' = w_cout w @ defined_text env i lev ev
    \<and> m_file ev = src \<and> m_line ev = line \<and> m_ss ev = content \<and> m_time ev = now env"
proof -
  from i obtain l x where l: "map_of (w_registry w) (ld_name i) = Some l" "w_loggers w l = Some x" "lg_level x = ld_level i"
    and fmt: "lg_formatter x = Some (LogFormatter (ld_formatter i))"
    and aps: "list_all2 (ap_matches w (lg_formatter x)) (ld_appenders i) (lg_appenders x)"
    using f unfolding is_defined_def by blast
  have targets: "targets w l lev = (if lev < ld_level i then [] else lg_appenders x)"
    using l(2,3) aps some by (auto simp: targets_def the_logger_def Let_def)
  obtain w' ev where w': "MOCKER_LOG_LEVEL env cl src line l lev content w = (Inr (), w')" "log_ok w'"
    "w_cout w' = w_cout w @ concat (map (stdout_text env w lev ev) (targets w l lev))"
    "m_file ev = src" "m_line ev = line" "m_ss ev = content" "m_time ev = now env"
    using macro_logs [OF ok l(2), of env cl src line lev content] by blast
  have "concat (map (stdout_text env w lev ev) (targets w l lev)) = defined_text env i lev ev"
    using concat_defined [OF aps [unfolded fmt] known] by (simp add: targets defined_text_def)
  with w' l(1) show ?thesis
    by (intro exI [of _ l] exI [of _ w'] exI [of _ ev]) (simp add: MOCKER_LOG_NAME_def getLogger_def)
qed

section \<open>From the document to the console\<close>

text \<open>C8. From the document to the console. A document with the text of a set of definitions is loaded into the
  initialised program, where no level is the mark of removal, the appenders have one of the two known
  types and those for the standard output no file, no definition equals an old one of its name in level
  and formatter, and the set differs from the old one in more than appenders. Then for every definition
  with a formatter that is a correct pattern and with at least one appender, a record that is logged under
  its name with a macro succeeds and writes to the standard output exactly: nothing below the level of the
  definition, otherwise for each standard output appender of the definition, in order, whose level lets
  the record pass, the colour of the level, the record in the appender's pattern, or the logger's if that
  is missing or wrong, and the colour reset.\<close>

theorem configured_loggers_write:
  assumes laws: "yaml_laws Y" "yaml_kinds Y" and init: "initialised env note old n c"
    and sorted: "sorted_wrt ld_less new" and new: "\<forall>i \<in> set new. writable_define i" and d: "1 < d"
    and changed: "\<forall>i \<in> set new. \<forall>it. oset_find ld_less i old = Some it \<longrightarrow> \<not> ld_eq i it"
    and differs: "\<not> oset_eq ld_eq new old"
    and i: "i \<in> set new" "ld_formatter i \<noteq> []" "\<not> formatter.m_error (LogFormatter (ld_formatter i))" "ld_appenders i \<noteq> []"
  shows "\<exists>node c' l w' ev. logs_to_str Y new = Inr (y_Emit Y node)
    \<and> LoadFromYaml (program_env Y parse print rep) Y d (y_map Y [(''logs'', node)]) c = (Inr (), c')
    \<and> MOCKER_LOG_NAME (ld_name i) (cf_world c') = (l, cf_world c')
    \<and> MOCKER_LOG_LEVEL env' cl src line l lev content (cf_world c') = (Inr (), w')
    \<and> w_cout w' = w_cout (cf_world c') @ defined_text env' i lev ev
    \<and> m_file ev = src \<and> m_line ev = line \<and> m_ss ev = content \<and> m_time ev = now env'"
proof -
  from loading_logs [OF laws init sorted new d changed differs, of parse print rep]
  obtain node c' where load: "logs_to_str Y new = Inr (y_Emit Y node)"
    "LoadFromYaml (program_env Y parse print rep) Y d (y_map Y [(''logs'', node)]) c = (Inr (), c')"
    and ready: "initialised env note new n c'"
    and def: "\<forall>i \<in> set new. is_defined (cf_world c') i (w_next (cf_world c)) (w_next (cf_world c'))" by blast
  have ok: "log_ok (cf_world c')" using ready by (simp add: initialised_def)
  have known: "\<forall>ad \<in> set (ld_appenders i). ad_type ad \<noteq> AtUnknown"
    using new i(1) by (auto simp: writable_define_def writable_lad_def)
  from defined_logs [OF ok def [rule_format, OF i(1)] known i(2-4), of env' cl src line lev content] load
  show ?thesis by blast
qed

section \<open>An example\<close>

lemma pattern_m: "formatter.m_error (LogFormatter ''%m'') = False"
  "formatter_format sf (LogFormatter ''%m'') lev ev = m_ss ev"
proof -
  have "scan_rest ''%m'' [] = ([(''m'', [], 1)], False)"
    by (subst scan_rest_steps(4) [of _ "''m''" "[]" "[]"])
      (simp_all add: scan_rest_steps(1) read_directive_Nil isalpha_def)
  then show "formatter.m_error (LogFormatter ''%m'') = False"
    "formatter_format sf (LogFormatter ''%m'') lev ev = m_ss ev"
    by (simp_all add: LogFormatter_scan formatter_format_def known_def s_format_items_def)
qed

lemma web_text: "defined_text env web_define ERROR ev = GetColorMap ERROR @ m_ss ev @ CHR 0x1B # ''[0m''"
  by (simp add: defined_text_def defined_line_def effective_formatter_def web_define_def pattern_m
      less_level_def less_eq_level_def)

text \<open>The logger \<open>web\<close>, whose appender has the logger's pattern \<open>%m\<close>.\<close>

theorem configured_loggers_write_witness:
  "\<exists>w l w'. MOCKER_LOG_NAME ''web'' w = (l, w)
    \<and> MOCKER_LOG_LEVEL example_env example_caller ''a.cpp'' 7 l ERROR ''down'' w = (Inr (), w')
    \<and> w_cout w' = w_cout w @ GetColorMap ERROR @ ''down'' @ CHR 0x1B # ''[0m''"
proof -
  obtain c where c: "initialised example_env example_event [] (1024 * 1024) c"
    using static_init_ok [OF library_order, of _ example_env example_event] by blast
  have web: "\<forall>i \<in> set [web_define]. writable_define i" "ld_name web_define = ''web''"
    "ld_formatter web_define = ''%m''" "ld_appenders web_define \<noteq> []"
    by (simp_all add: writable_define_def writable_lad_def web_define_def)
  have "\<exists>node c' l w' ev. logs_to_str tree_yaml [web_define] = Inr (y_Emit tree_yaml node)
    \<and> LoadFromYaml (program_env tree_yaml (\<lambda>_. Inl (Throw [])) (\<lambda>_. Inr []) (\<lambda>_ w. w)) tree_yaml 2
        (y_map tree_yaml [(''logs'', node)]) c = (Inr (), c')
    \<and> MOCKER_LOG_NAME (ld_name web_define) (cf_world c') = (l, cf_world c')
    \<and> MOCKER_LOG_LEVEL example_env example_caller ''a.cpp'' 7 l ERROR ''down'' (cf_world c') = (Inr (), w')
    \<and> w_cout w' = w_cout (cf_world c') @ defined_text example_env web_define ERROR ev
    \<and> m_file ev = ''a.cpp'' \<and> m_line ev = 7 \<and> m_ss ev = ''down'' \<and> m_time ev = now example_env"
    by (rule configured_loggers_write [OF tree_laws tree_kinds c _ web(1)])
      (simp_all add: oset_find_def oset_eq_def web(2-4) pattern_m)
  then show ?thesis by (fastforce simp: web web_text)
qed

end
