(* ===== verification/Spec2Isabelle.thy ===== *)
theory Spec2Isabelle
  imports Scheduler_Races Scheduler_Liveness Scheduler_Life Log_Config_Examples Logs_Setting Log_Macros Log_Pattern Config_Store Config_Threads
    Config_Typed Lookup_Threads Console_Threads Scheduler_Program Library_Locks Program_Logs Singletons
begin

text \<open>
  \<^bold>\<open>mockingbird: logging, configuration, threads, locks, coroutines and their scheduler.\<close>

  The library under \<open>src/mocker/\<close> has two halves. Programs log through \<open>Logger\<close>s with appenders and
  formatters (\<open>log.h\<close>, \<open>log.cpp\<close>), which are set up by a registry of configuration variables that is
  loaded from YAML (\<open>config.h\<close>, \<open>config.cpp\<close>): the variable \<open>logs\<close> has a listener that rebuilds the
  loggers. And programs run tasks and coroutines (\<open>coroutine.cpp\<close>) on the worker threads of a \<open>Scheduler\<close>
  (\<open>schedule.cpp\<close>), made of \<open>Thread\<close>s (\<open>thread.cpp\<close>) and guarded by the locks of \<open>mutex.h\<close>.

  \<^bold>\<open>Parts.\<close>

  \<^item> \<open>Prelude\<close>: failures as values (\<open>failure\<close>, with the C++ exceptions, failed assertions, null pointers),
    operations on a state that may fail (\<open>eff\<close>: on an exception the state is what had been written until
    then), \<open>std::map\<close> and \<open>std::set\<close> as sorted lists, reachable states and the locale \<open>invariant_system\<close>.
  \<^item> \<open>Log_Level\<close>, \<open>Log_Formatter\<close>: \<open>LogLevel\<close>, \<open>LogEvent\<close>, the format items and \<open>LogFormatter::init\<close> with
    its two nested loops, three indices and status. \<open>Pattern_Scanner\<close> proves the scanner equal to a
    recursive reference on the rest of the pattern, for which \<open>Log_Pattern\<close> proves that patterns printed
    from directives are read back, what a doubled percent sign does and that the items account for every character of a pattern.
  \<^item> \<open>Logger\<close>: \<open>Logger\<close>, both appenders and \<open>LogManager\<close> on a store of shared objects (\<open>log_world\<close>: loggers
    and appenders by reference, the registry, the console, files). \<open>Logger_Delivery\<close>: which appenders a
    record reaches and what is written to the console and to files (locale \<open>log_sink\<close>). \<open>Logger_Setup\<close>: the invariant \<open>log_ok\<close> of all
    set-up operations, by which logging never fails. \<open>Log_Macros\<close>: the logging and the assertion macros of
    \<open>log.h\<close> and \<open>macro.h\<close>, backtraces of \<open>util.cpp\<close>. \<open>Logger_Examples\<close>: the default line, witnesses.
    \<open>Console_Threads\<close>: threads that write to \<open>std::cout\<close>, insertion by insertion, under the appenders' locks.
    \<open>Singletons\<close>: \<open>Singleton::GetInstance\<close> and \<open>SingletonPtr::GetInstance\<close>, called by several threads; \<open>LoggerMgr\<close>.
  \<^item> \<open>Yaml\<close>: what the code uses of \<open>yaml-cpp\<close>. \<open>Config_Cast\<close>: the \<open>LexicalCast\<close> templates for containers.
  \<^item> \<open>Config\<close>: \<open>ConfigVar\<close>, \<open>Config::Lookup\<close>, \<open>LoadFromYaml\<close>, \<open>ListAllMember\<close>. \<open>Config_Vars\<close>: one variable and
    its listeners. \<open>Config_Load\<close>: loading a document. \<open>Config_Store\<close>: refinement of a finite map.
    \<open>Config_Threads\<close>: \<open>setValue\<close> as steps of several threads under the variable's read-write lock.
    \<open>Lookup_Threads\<close>: \<open>Lookup\<close> in several threads, as the search under the read lock and the entry under the
    write lock. \<open>Config_Types\<close>, \<open>Config_Typed\<close>: the types that the casts nest (vectors, lists, sets, maps of
    each other), their values with the order \<open>std::set\<close> uses, and configurations of such variables.
  \<^item> \<open>Log_Config\<close>, \<open>Log_Config_Cast\<close>, \<open>Log_Config_Apply\<close>, \<open>Log_Config_Listener\<close>, \<open>Logger_Yaml\<close>: definitions
    of loggers, their text form, the listener (\<open>LogIniter\<close>) and the \<open>toYamlString\<close> functions. \<open>Logs_Setting\<close>
    and this theory compose them with the configuration: \<open>setting_logs_reconfigures\<close>. \<open>Program_Statics\<close>: the
    initialisers of all variables with static storage duration, and of an application's, in any order, from
    an empty program; the manager is constructed when the first one needs it. \<open>Program_Start\<close>: documents
    loaded into the initialised program.
    \<open>Program_Logs\<close>: what the loggers that a document defines write to the console, from the macro on.
  \<^item> \<open>Locks\<close>, \<open>Lock_Guards\<close>: semaphore, locks and scoped guards; mutual exclusion in the locale
    \<open>exclusive_lock\<close>, interpreted by \<open>Mutex\<close>, \<open>Spinlock\<close> and \<open>CASLock\<close>; readers and writers. \<open>Lock_Order\<close>: threads
    with nested sections, the locales \<open>lock_contract\<close> and \<open>ordered_locks\<close>. \<open>Library_Locks\<close>: the sections each
    operation of the library enters, and their order: registry, variables, schedulers, manager, loggers,
    root logger, appenders.
  \<^item> \<open>Threads\<close>: the constructor of \<open>Thread\<close> and \<open>Thread::Run\<close> as steps of two threads, \<open>join\<close>, names.
  \<^item> \<open>Coroutine\<close>: the coroutines of one thread, with states, contexts and the thread's pointers
    (\<open>t_coroutine\<close>, \<open>t_threadCoroutine\<close>, and \<open>t_main\<close>, the scheduler's own \<open>t_coroutine\<close>). \<open>Coroutine_Switch\<close>: the switches a scheduler's thread
    makes keep them consistent; \<open>Coroutine_Limits\<close>: the switches that do not.
    \<open>Coroutine_Refinement\<close>: the thread refines an abstract map from coroutines to states and tasks, and the
    steps of \<open>run()\<close> are operations of it. \<open>Coroutine_Threads\<close>: any number of threads with common
    coroutines, each with its own pointers and stack, which refine one such map.
  \<^item> \<open>Scheduler\<close>: the queue, \<open>schedule\<close>, and \<open>run()\<close> of any number of workers as an interleaved step
    relation, one step for each section under the mutex and each return of a coroutine. \<open>Scheduler_Queue\<close>:
    the scan. \<open>Scheduler_Counts\<close>: the counters, for arbitrary clients. \<open>Scheduler_Exclusive\<close>: for clients that
    do not schedule a coroutine twice, one worker per coroutine and no failing worker. \<open>Scheduler_Drain\<close>: no
    entry is left behind. \<open>Fair_Runs\<close>, \<open>Scheduler_Liveness\<close>: runs in which every worker makes its next step at
    some time; entries do not starve, and after \<open>stop\<close> the workers leave their loops. \<open>Scheduler_Races\<close>: runs. \<open>Scheduler_Life\<close>: constructor, \<open>start\<close>, \<open>stop\<close>, destructor.
    \<open>Scheduler_Program\<close>: the workers' steps and the program of \<open>Coroutine_Threads\<close> at once; each step performs
    its coroutine operations on the worker's thread, and the two states stay in a simulation relation.

  \<^bold>\<open>Parameters.\<close> Code that is not in the repository is an argument of the definitions. The YAML library is
  the record \<open>yaml\<close>; its documented behaviour is \<open>yaml_laws\<close> (a node that was parsed, or built from strings,
  sequences and maps, \<open>yaml_node\<close>, is parsed to the same node from its text; nothing is said of undefined or null
  nodes; sequences and maps are read as they were built), and a type of trees is proved to have it. Element
  casts (\<open>boost::lexical_cast\<close>), \<open>strftime\<close>, \<open>vasprintf\<close>, the clock and the files that can be opened or
  written are arguments, too; \<open>strftime\<close> stands for what the 64 byte buffers of \<open>log.cpp\<close> hold after the
  call (indeterminate, by the manual, when the text does not fit), and the clock is read for the event and the
  appenders at one instant of a log call (\<open>now\<close>), and again in \<open>reopen\<close> (\<open>reopen_time\<close>). The result of
  \<open>pthread_create\<close> and \<open>pthread_join\<close> is an argument where the code tests it. Of \<open>ucontext\<close> the model has what \<open>swapcontext\<close> to a saved or to a new context
  does; of POSIX threads, semaphores and locks what the manual says of the calls the code makes. A task
  of a coroutine is an argument; what it does until it ends, yields, sleeps or throws is a step.

  \<^bold>\<open>Bounds.\<close> \<open>logger_log\<close> forwards to the root logger and is bounded by a number of loggers; \<open>log\<close> uses 2,
  which is enough for a registry in which the root has no root (\<open>log_never_fails\<close>). \<open>ListAllMember\<close> is
  bounded by the nesting of the document: any bound above the rank of the node gives the result of the
  unbounded recursion (\<open>ListAllMember_lists_members\<close>). \<open>CASLock_lock\<close> is bounded by its rounds: a caller
  who finds the lock free has it in the first one. Other loops are structural or have a measure. Line
  numbers, thread and coroutine ids, stack sizes and the elapsed time are words of the source's width;
  counts of threads and coroutines are natural numbers.

  \<^bold>\<open>What the properties show.\<close> Under the clients' discipline stated there, scheduled work is run, and
  not by two workers at once, workers do not fail, and they end when they are told to stop; the counters \<open>stopping()\<close> reads are exact. A
  thread is constructed when its \<open>Run\<close> has taken the task; \<open>start\<close> and \<open>stop\<close> create and join exactly the
  workers. Coroutines can move between threads: no stack is shared, and a task that is suspended gives
  its thread back to the scheduler there; what the workers do to coroutines never fails and keeps the
  states that \<open>run\<close> tests. Locks exclude, and threads that use the library never wait
  for each other in a circle. Patterns and definitions survive a round trip; every record reaches its
  targets once, and one appender's records are never torn; configuration values are the last ones that
  could be read, have their variable's type and are read back from their text, and listeners see each
  change in order; after the static initialisation a document sets up the loggers it defines, and
  their records appear on the console as the document says; a singleton is made once. The other
  theorems are about where the code does something else: an unchanged logger definition crashes the
  listener, a coroutine that schedules itself can be run twice, an entry for a thread that is no worker
  keeps \<open>stop\<close> waiting, an interrupted constructor leaves a thread that uses freed memory, a second
  \<open>stop\<close> aborts, overlapping calls of \<open>setValue\<close> leave listeners with a stale value, calls of \<open>Lookup\<close> at the
  same time get two variables, two appenders tear each other's records, a callback of \<open>Visit\<close> that creates
  a variable waits for itself.

  \<^bold>\<open>Not modelled.\<close> The inside of \<open>yaml-cpp\<close> and boost; failing allocations, except
  where the source tests for one; the interleaving of the insides of operations on loggers other than
  the console output (they are modelled one at a time; which locks they hold is in \<open>Library_Locks\<close>);
  races on the fields that are used without a lock (the levels of loggers and appenders, \<open>m_lastTime\<close>); listeners that use their own variable (they wait for themselves, see \<open>rw_guards_exclude\<close>);
  reader and writer priorities, the fairness of locks, time; the log messages of the scheduler; the destruction
  of a scheduler's members behind its own destructor; destroying a mutex in use; a coroutine that
  another thread switches into between its \<open>setState\<close> and its \<open>swapcontext\<close> (in \<open>Coroutine_Threads\<close> a switch is
  one step; \<open>self_scheduling_shares_stack\<close> shows what happens otherwise); the end of a worker's idle coroutine
  and of its \<open>cb_coroutine\<close> as objects, when \<open>run\<close> returns; the test programs; the closing of
  a file when its appender is destroyed; the destructors of locks and semaphores; the buffer of an
  \<open>ofstream\<close>: \<open>w_files\<close> is what was handed to the stream, and a write that fails does so at once, where
  the code sees it when the buffer is flushed, at the latest in the \<open>close\<close> of the next \<open>reopen\<close>; the
  results of the lock calls, which the classes of \<open>mutex.h\<close> ignore: a call that POSIX lets fail with \<open>EDEADLK\<close>
  (a thread locks again what it has) waits in the model, as it may by the standard.
\<close>

section \<open>From the configuration to the loggers and back\<close>

text \<open>C6. Setting the variable \<open>logs\<close> to new definitions reconfigures the program, under these conditions: the
  variable's only listener is that of \<open>LogIniter\<close>; the loggers were set up by the library's operations; the
  names are distinct; each definition has a formatter, it and the formatters of its appenders are correct
  patterns, no level is the mark of removal, each appender has one of the two known types, one for the
  standard output no file; no new definition equals an old one of its name in level and formatter (that
  one would be applied to a null logger); and the new set differs in more than appenders from the
  old one (otherwise nothing happens). Then the listener runs, the value is stored, every defined logger is
  what its definition says, loggers whose definition is gone are silent, all other loggers are untouched,
  and the YAML text a defined logger then writes of itself is read back as the very definition it was
  configured with.\<close>

theorem setting_logs_reconfigures:
  assumes laws: "yaml_laws Y" and eq: "veq cfg (cv_type (the_var c p)) = oset_eq ld_eq"
    and listener: "cv_cbs (the_var c p) = [(k, Some (log_listener env ev))]"
    and ok: "log_ok (cf_world c)" and dist: "distinct (map ld_name new)"
    and sound: "\<forall>i \<in> set new. sound_define i"
    and changed: "\<forall>i \<in> set new. \<forall>it. oset_find ld_less i (cv_val (the_var c p)) = Some it \<longrightarrow> \<not> ld_eq i it"
    and differs: "\<not> oset_eq ld_eq new (cv_val (the_var c p))"
  shows "\<exists>c'. setValue cfg p new c = (Inr (), c') \<and> getValue c' p = new \<and> log_ok (cf_world c')
    \<and> (\<forall>i \<in> set new. is_defined (cf_world c') i (w_next (cf_world c)) (w_next (cf_world c'))
          \<and> (\<exists>l s. map_of (w_registry (cf_world c')) (ld_name i) = Some l
               \<and> logger_toYamlString Y (cf_world c') l = Inr s \<and> LogDefine_from_str Y s out = (Inr i, out)))
    \<and> (\<forall>i \<in> set (cv_val (the_var c p)). ld_name i \<notin> ld_name ` set new \<longrightarrow> silent (cf_world c') (ld_name i))
    \<and> others_same (ld_name ` (set (cv_val (the_var c p)) \<union> set new)) (cf_world c) (cf_world c')"
  by (rule setting_logs [OF assms])

theorem setting_logs_reconfigures_witness:
  "\<exists>c'. setValue logs_env 0 [net_define] (logs_config [old_define]) = (Inr (), c') \<and> getValue c' 0 = [net_define]
     \<and> silent (cf_world c') ''old''
     \<and> (\<exists>l s. map_of (w_registry (cf_world c')) ''net'' = Some l
           \<and> logger_toYamlString tree_yaml (cf_world c') l = Inr s
           \<and> LogDefine_from_str tree_yaml s [] = (Inr net_define, []))"
proof -
  let ?c = "logs_config [old_define]"
  have x: "cv_cbs (the_var ?c 0) = [(0xF1E231, Some (log_listener example_env example_event))]"
    "cv_val (the_var ?c 0) = [old_define]" "cf_world ?c = net_world"
    by (simp_all add: logs_config_def the_var_def new_ConfigVar_def)
  have names: "ld_name net_define = ''net''" "ld_name old_define = ''old''"
    by (simp_all add: net_define_def old_define_def)
  have "\<not> formatter.m_error (LogFormatter ''x'')" by (simp add: LogFormatter_scan scan_rest_steps)
  then have sound: "\<forall>i \<in> set [net_define]. sound_define i"
    by (simp add: sound_define_def net_define_def writable_lad_def)
  have "oset_find ld_less net_define [old_define] = None" by (simp add: oset_find_define names)
  then have changed: "\<forall>i \<in> set [net_define]. \<forall>it. oset_find ld_less i (cv_val (the_var ?c 0)) = Some it \<longrightarrow> \<not> ld_eq i it"
    by (simp add: x)
  have differs: "\<not> oset_eq ld_eq [net_define] (cv_val (the_var ?c 0))"
    by (simp add: x oset_eq_def ld_eq_def names)
  have ok: "log_ok (cf_world ?c)" by (simp add: x net_ok)
  have eq: "veq logs_env (cv_type (the_var ?c 0)) = oset_eq ld_eq" by (simp add: logs_env_def)
  from setting_logs_reconfigures [OF tree_laws eq x(1) ok _ sound changed differs, of "[]"]
  show ?thesis by (auto simp: x names)
qed

end
